(* ===== verification/Prelude.thy ===== *)
theory Prelude
  imports Main "HOL-Library.Word" "HOL-Library.Signed_Division"
begin

text \<open>
  What every component shares: the names of the machine types, the faults a C++ statement
  can run into, the C library's memory routines on byte buffers, and the list and word
  lemmas the component proofs rest on.

  A buffer is the list of its bytes. A pointer into a buffer is the list from that byte
  on (for a source) or an offset (for a destination), so that a copy outside the buffer
  is visible and becomes a fault instead of an unspecified value. A C++ \<open>int\<close> is a
  mathematical integer; the theorem on the ring buffer's arithmetic shows that its
  expressions stay inside 32 bits.
\<close>

unbundle bit_operations_syntax

section \<open>Machine types\<close>

type_synonym byte = "8 word"
type_synonym WORD = "16 word"
type_synonym DWORD = "32 word"
type_synonym UINT64 = "64 word"

text \<open>
  The lemmas that unfold the operations of a component (\<open>ops\<close>) and those that evaluate
  the memory routines inside their bounds (\<open>mem_simps\<close>).
\<close>

named_theorems mem_simps

section \<open>Faults\<close>

text \<open>
  \<open>OutOfBoundsWrite\<close> and \<open>OutOfBoundsRead\<close>: a copy leaves the buffer it works on (undefined
  behaviour in C++). \<open>InvalidParameter\<close>: a checked CRT routine such as \<open>memcpy_s\<close> refuses
  its arguments and calls the invalid-parameter handler, which ends the process.
  \<open>NullPointer\<close>: a null pointer is dereferenced. \<open>DivideByZero\<close>: \<open>%\<close> with a zero divisor.
  \<open>BadAlloc\<close>: \<open>new\<close> throws. \<open>NoReturn\<close>: a loop never ends. \<open>EmptyContainer\<close>: \<open>top\<close> of an
  empty stack.
\<close>

datatype fault =
    OutOfBoundsWrite
  | OutOfBoundsRead
  | InvalidParameter
  | NullPointer
  | DivideByZero
  | BadAlloc
  | NoReturn
  | EmptyContainer

type_synonym 'a res = "fault + 'a"

text \<open>Sequencing: the first fault ends the computation.\<close>

definition andThen :: "'a res \<Rightarrow> ('a \<Rightarrow> 'b res) \<Rightarrow> 'b res" where
  "andThen r k = (case r of Inl e \<Rightarrow> Inl e | Inr x \<Rightarrow> k x)"

lemma andThen_simps [simp]:
  "andThen (Inl e) k = Inl e"
  "andThen (Inr x) k = k x"
  by (simp_all add: andThen_def)

lemma andThen_eq_Inr:
  "andThen r k = Inr y \<longleftrightarrow> (\<exists>x. r = Inr x \<and> k x = Inr y)"
  by (cases r) auto

lemma andThen_Inr_right [simp]: "andThen r Inr = r"
  by (cases r) auto

lemma andThen_assoc: "andThen (andThen r f) g = andThen r (\<lambda>x. andThen (f x) g)"
  by (cases r) auto

section \<open>The C library's memory routines\<close>

text \<open>The conversion of a signed length to \<open>size_t\<close> on x64.\<close>

definition size_t :: "int \<Rightarrow> int" where
  "size_t n = n mod 2 ^ 64"

lemma size_t_nonneg [simp]: "0 \<le> n \<Longrightarrow> n < 2 ^ 64 \<Longrightarrow> size_t n = n"
  by (simp add: size_t_def)

lemma size_t_negative: "- (2 ^ 31) \<le> n \<Longrightarrow> n < 0 \<Longrightarrow> 2 ^ 63 < size_t n"
proof -
  assume n: "- (2 ^ 31) \<le> n" "n < 0"
  then have "(n + 2 ^ 64) mod 2 ^ 64 = n + 2 ^ 64"
    by (intro mod_pos_pos_trivial) auto
  with n show ?thesis by (simp add: size_t_def)
qed

definition mem_write :: "byte list \<Rightarrow> nat \<Rightarrow> byte list \<Rightarrow> byte list" where
  "mem_write m off xs = take off m @ xs @ drop (off + length xs) m"

definition memcpy :: "byte list \<Rightarrow> int \<Rightarrow> byte list \<Rightarrow> int \<Rightarrow> byte list res" where
  "memcpy dst off src n =
     (if int (length src) < size_t n then Inl OutOfBoundsRead
      else if off < 0 \<or> int (length dst) < off + size_t n then Inl OutOfBoundsWrite
      else Inr (mem_write dst (nat off) (take (nat (size_t n)) src)))"

text \<open>
  \<open>memcpy_s(dst + off, destsz, src, n)\<close>: nothing for \<open>n = 0\<close>; a count above \<open>destsz\<close> calls
  the invalid-parameter handler; otherwise \<open>memcpy\<close>.
\<close>

definition memcpy_s :: "byte list \<Rightarrow> int \<Rightarrow> int \<Rightarrow> byte list \<Rightarrow> int \<Rightarrow> byte list res" where
  "memcpy_s dst off destsz src n =
     (if size_t n = 0 then Inr dst
      else if size_t destsz < size_t n then Inl InvalidParameter
      else memcpy dst off src n)"

lemma length_mem_write [simp]:
  "off + length xs \<le> length m \<Longrightarrow> length (mem_write m off xs) = length m"
  by (simp add: mem_write_def)

lemma mem_write_Nil [simp]: "mem_write m off [] = m"
  by (simp add: mem_write_def)

lemma drop_mem_write:
  "off + length xs \<le> n \<Longrightarrow> off \<le> length m \<Longrightarrow> drop n (mem_write m off xs) = drop n m"
  by (simp add: mem_write_def)

lemma take_mem_write: "n \<le> off \<Longrightarrow> off \<le> length m \<Longrightarrow> take n (mem_write m off xs) = take n m"
  by (simp add: mem_write_def min_def)

lemma mem_write_mem_write:
  "off + length xs \<le> length m \<Longrightarrow>
   mem_write (mem_write m off xs) (off + length xs) ys = mem_write m off (xs @ ys)"
  by (simp add: mem_write_def ac_simps)

lemma take_end_mem_write:
  "r \<le> length d \<Longrightarrow> take (r + length xs) (mem_write d r xs) = take r d @ xs"
  by (simp add: mem_write_def)

lemma take_mem_write_front:
  "length xs \<le> length m \<Longrightarrow> take (length xs) (mem_write m 0 xs) = xs"
  by (simp add: mem_write_def)

lemma memcpy_ok [mem_simps]:
  assumes "0 \<le> off" and "0 \<le> n" and "n < 2 ^ 63"
    and "n \<le> int (length src)" and "off + n \<le> int (length dst)"
  shows "memcpy dst off src n = Inr (mem_write dst (nat off) (take (nat n) src))"
  using assms by (simp add: memcpy_def)

lemma memcpy_s_ok [mem_simps]:
  assumes "0 \<le> off" and "0 \<le> n" and "n \<le> destsz" and "destsz < 2 ^ 63"
    and "n \<le> int (length src)" and "off + n \<le> int (length dst)"
  shows "memcpy_s dst off destsz src n = Inr (mem_write dst (nat off) (take (nat n) src))"
  using assms by (simp add: memcpy_s_def memcpy_ok)

lemma memcpy_overflow [mem_simps]:
  assumes "0 \<le> n" and "n < 2 ^ 63" and "n \<le> int (length src)" and "int (length dst) < off + n"
  shows "memcpy dst off src n = Inl OutOfBoundsWrite"
  using assms by (simp add: memcpy_def)

lemma memcpy_s_negative [mem_simps]:
  assumes "- (2 ^ 31) \<le> n" and "n < 0" and "0 \<le> destsz" and "destsz < 2 ^ 31"
  shows "memcpy_s dst off destsz src n = Inl InvalidParameter"
  using assms size_t_negative [of n] by (simp add: memcpy_s_def)

text \<open>Differences and sums of casts, back to natural numbers.\<close>

lemma nat_int_arith [simp]:
  "nat (int a - int b) = a - b"
  "nat (int a + int b) = a + b"
  "nat (int a + int b - int c) = a + b - c"
  by linarith+

section \<open>The range of a C++ int\<close>

definition in_int :: "int \<Rightarrow> bool" where
  "in_int x \<longleftrightarrow> - (2 ^ 31) \<le> x \<and> x < 2 ^ 31"

section \<open>Byte queues\<close>

text \<open>
  The contract both buffers of the server keep: the receive ring (\<open>CRingBuffer\<close>) and the
  packet (\<open>CPacket\<close>) are first-in first-out queues of bytes. \<open>room\<close> is how many bytes a
  write may add; a read of no more than what is stored takes the oldest bytes.
\<close>

locale byte_queue =
  fixes invar :: "'q \<Rightarrow> bool"
    and content :: "'q \<Rightarrow> byte list"
    and room :: "'q \<Rightarrow> nat"
    and put :: "byte list \<Rightarrow> 'q \<Rightarrow> 'q res"
    and get :: "nat \<Rightarrow> 'q \<Rightarrow> (byte list \<times> 'q) res"
  assumes put_ok: "invar q \<Longrightarrow> length xs \<le> room q \<Longrightarrow>
      \<exists>q'. put xs q = Inr q' \<and> invar q' \<and> content q' = content q @ xs \<and> room q = room q' + length xs"
    and get_ok: "invar q \<Longrightarrow> n \<le> length (content q) \<Longrightarrow>
      \<exists>q'. get n q = Inr (take n (content q), q') \<and> invar q' \<and>
        content q' = drop n (content q) \<and> room q \<le> room q'"
begin

text \<open>Several writes in a row, as the code writes a message field by field.\<close>

fun puts :: "byte list list \<Rightarrow> 'q \<Rightarrow> 'q res" where
  "puts [] q = Inr q"
| "puts (xs # xss) q = andThen (put xs q) (puts xss)"

fun gets :: "nat list \<Rightarrow> 'q \<Rightarrow> (byte list list \<times> 'q) res" where
  "gets [] q = Inr ([], q)"
| "gets (n # ns) q =
     andThen (get n q) (\<lambda>(xs, q'). andThen (gets ns q') (\<lambda>(xss, q''). Inr (xs # xss, q'')))"

lemma puts_ok:
  "invar q \<Longrightarrow> length (concat xss) \<le> room q \<Longrightarrow>
   \<exists>q'. puts xss q = Inr q' \<and> invar q' \<and> content q' = content q @ concat xss \<and>
     room q = room q' + length (concat xss)"
proof (induction xss arbitrary: q)
  case (Cons xs xss)
  then obtain q1 where q1: "put xs q = Inr q1" "invar q1" "content q1 = content q @ xs"
      "room q = room q1 + length xs"
    using put_ok [of q xs] by auto
  with Cons.prems have "length (concat xss) \<le> room q1" by simp
  from Cons.IH [OF q1(2) this] q1 show ?case by auto
qed simp

lemma gets_ok:
  "invar q \<Longrightarrow> content q = concat xss @ rest \<Longrightarrow>
   \<exists>q'. gets (map length xss) q = Inr (xss, q') \<and> invar q' \<and> content q' = rest"
proof (induction xss arbitrary: q)
  case (Cons xs xss)
  then obtain q1 where q1: "get (length xs) q = Inr (xs, q1)" "invar q1"
      "content q1 = concat xss @ rest"
    using get_ok [of q "length xs"] by auto
  from Cons.IH [OF q1(2,3)] q1(1) show ?case by auto
qed simp

text \<open>What is written field by field is read back field by field, in order.\<close>

lemma puts_gets:
  assumes "invar q" and "content q = []" and "length (concat xss) \<le> room q"
  shows "\<exists>q1 q2. puts xss q = Inr q1 \<and> gets (map length xss) q1 = Inr (xss, q2) \<and> content q2 = []"
proof -
  from puts_ok [OF assms(1,3)] assms(2) obtain q1
    where "puts xss q = Inr q1" "invar q1" "content q1 = concat xss @ []" by auto
  with gets_ok [of q1 xss "[]"] show ?thesis by auto
qed

end

section \<open>Little-endian values\<close>

text \<open>
  The object representation of an unsigned integer of \<open>n\<close> bytes on x86: least significant
  byte first. A WORD is \<open>le_bytes 2\<close>, an INT64 is \<open>le_bytes 8\<close> of its 64 bits.
\<close>

fun le_bytes :: "nat \<Rightarrow> nat \<Rightarrow> byte list" where
  "le_bytes 0 v = []"
| "le_bytes (Suc n) v = of_nat (v mod 256) # le_bytes n (v div 256)"

fun le_value :: "byte list \<Rightarrow> nat" where
  "le_value [] = 0"
| "le_value (b # bs) = unat b + 256 * le_value bs"

lemma length_le_bytes [simp]: "length (le_bytes n v) = n"
  by (induction n arbitrary: v) auto

lemma le_value_le_bytes: "v < 256 ^ n \<Longrightarrow> le_value (le_bytes n v) = v"
proof (induction n arbitrary: v)
  case (Suc n)
  then have "v div 256 < 256 ^ n" by (simp add: less_mult_imp_div_less mult.commute)
  from Suc.IH [OF this] show ?case by (simp add: unat_of_nat take_bit_eq_mod)
qed simp

lemma unat_byte_less: "unat (b :: byte) < 256"
  using unsigned_less [of b, where 'a = nat] by simp

lemma le_value_bound: "le_value bs < 256 ^ length bs"
proof (induction bs)
  case (Cons b bs)
  have "unat b < 256" by (rule unat_byte_less)
  with Cons show ?case by simp
qed simp

lemma le_bytes_le_value: "le_bytes (length bs) (le_value bs) = bs"
proof (induction bs)
  case (Cons b bs)
  have "unat b < 256" by (rule unat_byte_less)
  with Cons show ?case by simp
qed simp

end
