(* ===== verification/RingBuffer.thy ===== *)
theory RingBuffer
  imports Prelude
begin

text \<open>
  The receive ring of a session, \<open>CRingBuffer\<close> of CRingBuffer.h and CRingBuffer.cpp: two
  positions in a fixed array, one slot of which stays unused so that equal positions mean
  empty. The bytes stored are \<open>rb_list\<close>; every operation is shown to act on that list.
  Last, the ring is shown to be a byte queue.
\<close>

section \<open>State and operations\<close>

record CRingBuffer =
  iFrontPos :: int
  iRearPos :: int
  iBufSize :: int
  rb_data :: "byte list"

definition BUF_SIZE :: int where
  "BUF_SIZE = 65536"

text \<open>\<open>new char[n]\<close> throws for a negative length; the constructor then zeroes the array.\<close>

definition rb_new_size :: "int \<Rightarrow> CRingBuffer res" where
  "rb_new_size iBuffSize =
     (if iBuffSize < 0 then Inl BadAlloc
      else Inr \<lparr>iFrontPos = 0, iRearPos = 0, iBufSize = iBuffSize,
                rb_data = replicate (nat iBuffSize) 0\<rparr>)"

definition rb_new :: CRingBuffer where
  "rb_new = \<lparr>iFrontPos = 0, iRearPos = 0, iBufSize = BUF_SIZE,
             rb_data = replicate (nat BUF_SIZE) 0\<rparr>"

definition rb_GetBufferSize :: "CRingBuffer \<Rightarrow> int" where
  "rb_GetBufferSize rb = iBufSize rb"

definition rb_GetUseSize :: "CRingBuffer \<Rightarrow> int" where
  "rb_GetUseSize rb =
     (if iRearPos rb \<ge> iFrontPos rb then iRearPos rb - iFrontPos rb
      else iBufSize rb - iFrontPos rb + iRearPos rb)"

definition rb_GetFreeSize :: "CRingBuffer \<Rightarrow> int" where
  "rb_GetFreeSize rb = iBufSize rb - 1 - rb_GetUseSize rb"

definition rb_DirectEnqueueSize :: "CRingBuffer \<Rightarrow> int" where
  "rb_DirectEnqueueSize rb =
     (if iFrontPos rb > iRearPos rb then iFrontPos rb - iRearPos rb - 1
      else iBufSize rb - iRearPos rb - (if iFrontPos rb = 0 then 1 else 0))"

definition rb_DirectDequeueSize :: "CRingBuffer \<Rightarrow> int" where
  "rb_DirectDequeueSize rb =
     (if iFrontPos rb \<le> iRearPos rb then iRearPos rb - iFrontPos rb
      else iBufSize rb - iFrontPos rb)"

text \<open>C++'s \<open>%\<close>: truncated remainder, undefined for a zero divisor.\<close>

definition c_mod :: "int \<Rightarrow> int \<Rightarrow> int res" where
  "c_mod a b = (if b = 0 then Inl DivideByZero else Inr (a smod b))"

text \<open>
  \<open>rb_ReSize\<close> copies into an array that \<open>new char[size]\<close> does not initialise; \<open>junk\<close> gives
  the bytes it happens to hold.
\<close>

definition rb_ReSize :: "(nat \<Rightarrow> byte) \<Rightarrow> int \<Rightarrow> CRingBuffer \<Rightarrow> CRingBuffer res" where
  "rb_ReSize junk sz rb =
     (if sz \<le> 0 then Inr rb
      else
        let nd = map junk [0..<nat sz];
            use = rb_GetUseSize rb
        in andThen
             (if iFrontPos rb \<le> iRearPos rb
              then memcpy nd 0 (drop (nat (iFrontPos rb)) (rb_data rb)) use
              else
                let first = iBufSize rb - iFrontPos rb
                in andThen (memcpy nd 0 (drop (nat (iFrontPos rb)) (rb_data rb)) first)
                     (\<lambda>nd'. memcpy nd' first (rb_data rb) (iRearPos rb)))
             (\<lambda>nd'. andThen (c_mod use sz)
                (\<lambda>r. Inr \<lparr>iFrontPos = 0, iRearPos = r, iBufSize = sz, rb_data = nd'\<rparr>)))"

definition rb_Enqueue :: "byte list \<Rightarrow> int \<Rightarrow> CRingBuffer \<Rightarrow> (CRingBuffer \<times> int) res" where
  "rb_Enqueue chpData iSize rb =
     (let writeSize = (if rb_GetFreeSize rb < iSize then rb_GetFreeSize rb else iSize)
      in andThen
           (if iRearPos rb + writeSize > iBufSize rb
            then
              let first = iBufSize rb - iRearPos rb
              in andThen
                   (memcpy_s (rb_data rb) (iRearPos rb) (iBufSize rb - iRearPos rb) chpData first)
                   (\<lambda>d. memcpy_s d 0 (iBufSize rb) (drop (nat first) chpData) (writeSize - first))
            else memcpy_s (rb_data rb) (iRearPos rb) (iBufSize rb - iRearPos rb) chpData writeSize)
           (\<lambda>d. andThen (c_mod (iRearPos rb + writeSize) (iBufSize rb))
              (\<lambda>r. Inr (rb\<lparr>iRearPos := r, rb_data := d\<rparr>, writeSize))))"

text \<open>
  \<open>Dequeue\<close> and \<open>Peek\<close> write to \<open>chpDest\<close>, which the caller owns: the model takes its bytes
  and returns them changed. The size the caller passes as \<open>iSize\<close> is what \<open>memcpy_s\<close>
  checks; the size of the object is what it must respect.
\<close>

definition rb_copy_out :: "byte list \<Rightarrow> int \<Rightarrow> CRingBuffer \<Rightarrow> (byte list \<times> int) res" where
  "rb_copy_out chpDest iSize rb =
     (let readSize = (if rb_GetUseSize rb < iSize then rb_GetUseSize rb else iSize)
      in andThen
           (if iFrontPos rb + readSize > iBufSize rb
            then
              let sz = iBufSize rb - iFrontPos rb
              in andThen
                   (memcpy_s chpDest 0 iSize (drop (nat (iFrontPos rb)) (rb_data rb)) sz)
                   (\<lambda>d. memcpy_s d sz (iSize - sz) (rb_data rb) (readSize - sz))
            else memcpy_s chpDest 0 iSize (drop (nat (iFrontPos rb)) (rb_data rb)) readSize)
           (\<lambda>d. Inr (d, readSize)))"

definition rb_Dequeue ::
  "byte list \<Rightarrow> int \<Rightarrow> CRingBuffer \<Rightarrow> (CRingBuffer \<times> byte list \<times> int) res" where
  "rb_Dequeue chpDest iSize rb =
     andThen (rb_copy_out chpDest iSize rb)
       (\<lambda>(d, readSize). andThen (c_mod (iFrontPos rb + readSize) (iBufSize rb))
          (\<lambda>f. Inr (rb\<lparr>iFrontPos := f\<rparr>, d, readSize)))"

definition rb_Peek :: "byte list \<Rightarrow> int \<Rightarrow> CRingBuffer \<Rightarrow> (byte list \<times> int) res" where
  "rb_Peek chpDest iSize rb = rb_copy_out chpDest iSize rb"

definition rb_MoveFront :: "int \<Rightarrow> CRingBuffer \<Rightarrow> (CRingBuffer \<times> int) res" where
  "rb_MoveFront iSize rb =
     (let can = rb_GetUseSize rb;
          n = (if iSize > can then can else iSize)
      in andThen (c_mod (iFrontPos rb + n) (iBufSize rb))
           (\<lambda>f. Inr (rb\<lparr>iFrontPos := f\<rparr>, f)))"

definition rb_MoveRear :: "int \<Rightarrow> CRingBuffer \<Rightarrow> (CRingBuffer \<times> int) res" where
  "rb_MoveRear iSize rb =
     (let can = rb_GetFreeSize rb;
          n = (if iSize > can then can else iSize)
      in andThen (c_mod (iRearPos rb + n) (iBufSize rb))
           (\<lambda>r. Inr (rb\<lparr>iRearPos := r\<rparr>, r)))"

definition rb_ClearBuffer :: "CRingBuffer \<Rightarrow> CRingBuffer" where
  "rb_ClearBuffer rb = rb\<lparr>iFrontPos := 0, iRearPos := 0\<rparr>"

text \<open>The pointers the ring hands out, as offsets into its array.\<close>

definition rb_GetFrontBufferPtr :: "CRingBuffer \<Rightarrow> int" where
  "rb_GetFrontBufferPtr rb = iFrontPos rb"

definition rb_GetRearBufferPtr :: "CRingBuffer \<Rightarrow> int" where
  "rb_GetRearBufferPtr rb = iRearPos rb"

definition rb_GetBufferPtr :: "CRingBuffer \<Rightarrow> int" where
  "rb_GetBufferPtr rb = 0"

section \<open>Invariant and stored bytes\<close>

text \<open>
  The bound \<open>2 ^ 30\<close> keeps the sum of two positions inside a C++ \<open>int\<close>; the server only
  builds rings of \<open>BUF_SIZE\<close> bytes.
\<close>

definition rb_wf :: "CRingBuffer \<Rightarrow> bool" where
  "rb_wf rb \<longleftrightarrow>
     0 < iBufSize rb \<and> iBufSize rb \<le> 2 ^ 30 \<and> int (length (rb_data rb)) = iBufSize rb \<and>
     0 \<le> iFrontPos rb \<and> iFrontPos rb < iBufSize rb \<and>
     0 \<le> iRearPos rb \<and> iRearPos rb < iBufSize rb"

text \<open>The segment of an array between two positions, and what a write does to it.\<close>

definition ring_seg :: "nat \<Rightarrow> nat \<Rightarrow> byte list \<Rightarrow> byte list" where
  "ring_seg f r d = (if f \<le> r then drop f (take r d) else drop f d @ take r d)"

text \<open>The stored bytes, oldest first.\<close>

definition rb_list :: "CRingBuffer \<Rightarrow> byte list" where
  "rb_list rb = ring_seg (nat (iFrontPos rb)) (nat (iRearPos rb)) (rb_data rb)"

lemma rb_wf_new: "rb_wf rb_new" and rb_list_new: "rb_list rb_new = []"
  by (simp_all add: rb_wf_def rb_new_def BUF_SIZE_def rb_list_def ring_seg_def)

lemma rb_wf_new_size:
  "0 < n \<Longrightarrow> n \<le> 2 ^ 30 \<Longrightarrow> \<exists>rb. rb_new_size n = Inr rb \<and> rb_wf rb \<and> rb_list rb = []"
  by (simp add: rb_new_size_def rb_wf_def rb_list_def ring_seg_def)

text \<open>A well-formed ring in natural numbers, so that list lemmas apply to it.\<close>

lemma rb_wf_nats:
  assumes "rb_wf rb"
  obtains f r n where "iFrontPos rb = int f" "iRearPos rb = int r" "iBufSize rb = int n"
    "length (rb_data rb) = n" "f < n" "r < n" "0 < n" "n \<le> 2 ^ 30"
proof -
  from assms have "iFrontPos rb = int (nat (iFrontPos rb))" "iRearPos rb = int (nat (iRearPos rb))"
    "iBufSize rb = int (nat (iBufSize rb))" "length (rb_data rb) = nat (iBufSize rb)"
    "nat (iFrontPos rb) < nat (iBufSize rb)" "nat (iRearPos rb) < nat (iBufSize rb)"
    "0 < nat (iBufSize rb)" "nat (iBufSize rb) \<le> 2 ^ 30"
    by (auto simp: rb_wf_def)
  then show ?thesis by (rule that)
qed

lemma rb_GetUseSize_length:
  assumes "rb_wf rb"
  shows "rb_GetUseSize rb = int (length (rb_list rb))"
  using assms by (elim rb_wf_nats) (auto simp: rb_GetUseSize_def rb_list_def ring_seg_def)

lemma rb_use_bound: "rb_wf rb \<Longrightarrow> int (length (rb_list rb)) < iBufSize rb"
  by (elim rb_wf_nats) (auto simp: rb_list_def ring_seg_def)

lemma rb_GetFreeSize_length:
  "rb_wf rb \<Longrightarrow> rb_GetFreeSize rb = iBufSize rb - 1 - int (length (rb_list rb))"
  by (simp add: rb_GetFreeSize_def rb_GetUseSize_length)

lemma c_mod_wrap:
  "0 \<le> a \<Longrightarrow> a < 2 * b \<Longrightarrow> c_mod a b = Inr (if a < b then a else a - b)"
proof -
  assume a: "0 \<le> a" "a < 2 * b"
  have "a mod b = (if a < b then a else a - b)"
  proof (cases "a < b")
    case False
    with a have "(a - b) mod b = a - b" by (intro mod_pos_pos_trivial) auto
    with False show ?thesis by simp
  qed (use a in simp)
  with a show ?thesis by (auto simp: c_mod_def signed_modulo_int_def sgn_if)
qed

section \<open>Writing\<close>

lemma ring_seg_write:
  assumes "f \<le> r" and "r + length xs < length d"
  shows "ring_seg f (r + length xs) (mem_write d r xs) = ring_seg f r d @ xs"
proof -
  have "ring_seg f (r + length xs) (mem_write d r xs) = drop f (take (r + length xs) (mem_write d r xs))"
    using assms by (simp add: ring_seg_def)
  also have "\<dots> = drop f (take r d @ xs)"
    using assms by (simp add: take_end_mem_write)
  also have "\<dots> = drop f (take r d) @ xs" using assms by simp
  finally show ?thesis using assms by (simp add: ring_seg_def)
qed

lemma ring_seg_write_end:
  assumes "0 < f" and "f \<le> r" and "r + length xs = length d"
  shows "ring_seg f 0 (mem_write d r xs) = ring_seg f r d @ xs"
proof -
  have "mem_write d r xs = take r d @ xs" using assms by (simp add: mem_write_def)
  with assms show ?thesis by (simp add: ring_seg_def)
qed

lemma ring_seg_write_wrap:
  assumes "f \<le> r" and "r + length xs = length d" and "length ys < f"
  shows "ring_seg f (length ys) (mem_write (mem_write d r xs) 0 ys) = ring_seg f r d @ xs @ ys"
proof -
  have d': "mem_write d r xs = take r d @ xs" using assms by (simp add: mem_write_def)
  have "ring_seg f (length ys) (mem_write (mem_write d r xs) 0 ys) =
      drop f (mem_write d r xs) @ ys"
    using assms by (simp add: ring_seg_def mem_write_def [of _ 0])
  also have "drop f (mem_write d r xs) = drop f (take r d) @ xs"
    using assms by (simp add: d')
  finally show ?thesis using assms by (simp add: ring_seg_def)
qed

lemma ring_seg_write_low:
  assumes "r < f" and "r + length xs < f" and "f \<le> length d"
  shows "ring_seg f (r + length xs) (mem_write d r xs) = ring_seg f r d @ xs"
  using assms by (simp add: ring_seg_def take_end_mem_write drop_mem_write)

lemma rb_Enqueue_ok:
  assumes wf: "rb_wf rb" and iSize: "0 \<le> iSize" "iSize \<le> int (length chpData)" "iSize < 2 ^ 31"
    and w: "w = min iSize (rb_GetFreeSize rb)"
  shows "\<exists>rb'. rb_Enqueue chpData iSize rb = Inr (rb', w) \<and> rb_wf rb' \<and>
    rb_list rb' = rb_list rb @ take (nat w) chpData \<and> iBufSize rb' = iBufSize rb \<and>
    iFrontPos rb' = iFrontPos rb"
proof -
  from wf obtain f r n where eq: "iFrontPos rb = int f" "iRearPos rb = int r"
      "iBufSize rb = int n" "length (rb_data rb) = n" and lt: "f < n" "r < n" "0 < n" "n \<le> 2 ^ 30"
    by (rule rb_wf_nats)
  have "0 \<le> w" using w iSize rb_use_bound [OF wf] by (simp add: rb_GetFreeSize_length [OF wf])
  then obtain k where k: "w = int k" by (rule nonneg_int_cases)
  let ?xs = "take k chpData"
  have free: "k + (if f \<le> r then r - f else n - f + r) < n" and kl: "k \<le> length chpData"
    using w k eq lt iSize by (auto simp: rb_GetFreeSize_def rb_GetUseSize_def split: if_splits)
  have len: "length ?xs = k" using kl by simp
  have ws: "(if rb_GetFreeSize rb < iSize then rb_GetFreeSize rb else iSize) = int k"
    using w k by (simp add: min_def)
  let ?d = "rb_data rb"
  consider (fit) "r + k < n" | (exact) "r + k = n" | (wrap) "n < r + k" by linarith
  then show ?thesis
  proof cases
    case fit
    then have "rb_Enqueue chpData iSize rb =
        Inr (rb\<lparr>iRearPos := int (r + k), rb_data := mem_write ?d r ?xs\<rparr>, w)"
      using eq lt kl k by (simp add: rb_Enqueue_def ws Let_def mem_simps c_mod_wrap)
    moreover have "ring_seg f (r + k) (mem_write ?d r ?xs) = ring_seg f r ?d @ ?xs"
      using ring_seg_write [of f r ?xs ?d] ring_seg_write_low [of r f ?xs ?d] fit free lt eq len
      by (cases "f \<le> r") auto
    ultimately show ?thesis
      using wf eq lt k fit len by (simp add: rb_list_def rb_wf_def)
  next
    case exact
    then have "rb_Enqueue chpData iSize rb =
        Inr (rb\<lparr>iRearPos := 0, rb_data := mem_write ?d r ?xs\<rparr>, w)"
      using eq lt kl k by (simp add: rb_Enqueue_def ws Let_def mem_simps c_mod_wrap)
    moreover have "ring_seg f 0 (mem_write ?d r ?xs) = ring_seg f r ?d @ ?xs"
      using ring_seg_write_end [of f r ?xs ?d] exact free lt eq len by (auto split: if_splits)
    ultimately show ?thesis
      using wf eq lt k exact len by (simp add: rb_list_def rb_wf_def)
  next
    case wrap
    let ?a = "take (n - r) chpData" and ?b = "take (k - (n - r)) (drop (n - r) chpData)"
    have ab: "?xs = ?a @ ?b" "length ?a = n - r" "length ?b = r + k - n" 
      using wrap kl lt by (auto simp flip: take_add)
    have lb: "f \<le> r" "r + k - n < f" using wrap free lt by (auto split: if_splits)
    have "memcpy_s ?d (int r) (int n - int r) chpData (int n - int r) = Inr (mem_write ?d r ?a)"
      using memcpy_s_ok [of "int r" "int (n - r)" "int (n - r)" chpData ?d] eq lt wrap kl
      by simp
    moreover have "memcpy_s (mem_write ?d r ?a) 0 (int n) (drop (n - r) chpData) (int (r + k - n)) =
        Inr (mem_write (mem_write ?d r ?a) 0 ?b)"
      using memcpy_s_ok [of 0 "int (r + k - n)" "int n" "drop (n - r) chpData" "mem_write ?d r ?a"]
        eq lt wrap kl ab free by (simp add: add.commute split: if_splits)
    moreover have e: "int k - (int n - int r) = int r + int k - int n" by simp
    ultimately have "rb_Enqueue chpData iSize rb =
        Inr (rb\<lparr>iRearPos := int (r + k - n), rb_data := mem_write (mem_write ?d r ?a) 0 ?b\<rparr>, w)"
      using eq lt k wrap free by (simp add: rb_Enqueue_def ws Let_def c_mod_wrap e split: if_splits)
    moreover have "ring_seg f (r + k - n) (mem_write (mem_write ?d r ?a) 0 ?b) = ring_seg f r ?d @ ?xs"
      using ring_seg_write_wrap [of f r ?a ?d ?b] lb ab lt eq by (simp add: ab)
    ultimately show ?thesis
      using wf eq lt k wrap ab lb by (simp add: rb_list_def rb_wf_def)
  qed
qed

section \<open>Reading\<close>

lemma length_ring_seg:
  "f < length d \<Longrightarrow> r < length d \<Longrightarrow>
   length (ring_seg f r d) = (if f \<le> r then r - f else length d - f + r)"
  by (simp add: ring_seg_def)

lemma ring_seg_take:
  assumes "f < length d" and "r < length d" and "k \<le> length (ring_seg f r d)"
    and "f + k \<le> length d"
  shows "take k (drop f d) = take k (ring_seg f r d)"
  using assms by (auto simp: ring_seg_def drop_take min_def split: if_splits)

lemma ring_seg_take_wrap:
  assumes "f < length d" and "r < length d" and "k \<le> length (ring_seg f r d)"
    and "length d < f + k"
  shows "take (length d - f) (drop f d) @ take (k - (length d - f)) d = take k (ring_seg f r d)"
  using assms by (auto simp: ring_seg_def min_def split: if_splits)

lemma ring_seg_drop:
  assumes "f < length d" and "r < length d" and "k \<le> length (ring_seg f r d)"
  shows "ring_seg (if f + k < length d then f + k else f + k - length d) r d =
    drop k (ring_seg f r d)"
  using assms by (auto simp: ring_seg_def add.commute drop_take split: if_splits)

lemma rb_copy_out_ok:
  assumes wf: "rb_wf rb" and iSize: "0 \<le> iSize" "iSize < 2 ^ 31"
    and k: "int k = min iSize (int (length (rb_list rb)))" and dest: "k \<le> length chpDest"
  shows "rb_copy_out chpDest iSize rb = Inr (mem_write chpDest 0 (take k (rb_list rb)), int k)"
proof -
  from wf obtain f r n where eq: "iFrontPos rb = int f" "iRearPos rb = int r"
      "iBufSize rb = int n" "length (rb_data rb) = n" and lt: "f < n" "r < n" "0 < n" "n \<le> 2 ^ 30"
    by (rule rb_wf_nats)
  let ?d = "rb_data rb"
  have kl: "k \<le> length (ring_seg f r ?d)" using k eq by (simp add: rb_list_def)
  then have kn: "k < n" using lt eq by (auto simp: length_ring_seg split: if_splits)
  have rs: "(if rb_GetUseSize rb < iSize then rb_GetUseSize rb else iSize) = int k"
    using k by (simp add: rb_GetUseSize_length [OF wf] min_def split: if_splits)
  have ks: "int k \<le> iSize" using k by simp
  show ?thesis
  proof (cases "f + k \<le> n")
    case True
    then have "rb_copy_out chpDest iSize rb = Inr (mem_write chpDest 0 (take k (drop f ?d)), int k)"
      using eq lt ks iSize dest by (simp add: rb_copy_out_def rs mem_simps)
    then show ?thesis using ring_seg_take [of f ?d r k] eq lt kl True by (simp add: rb_list_def)
  next
    case False
    let ?a = "take (n - f) (drop f ?d)" and ?b = "take (k - (n - f)) ?d"
    have "rb_copy_out chpDest iSize rb =
        Inr (mem_write (mem_write chpDest 0 ?a) (0 + length ?a) ?b, int k)"
      using eq lt ks iSize dest False kn
      by (simp add: rb_copy_out_def rs Let_def mem_simps algebra_simps)
    also have "mem_write (mem_write chpDest 0 ?a) (0 + length ?a) ?b = mem_write chpDest 0 (?a @ ?b)"
      using dest False lt eq by (intro mem_write_mem_write) simp
    also have "?a @ ?b = take k (rb_list rb)"
      using ring_seg_take_wrap [of f ?d r k] eq lt kl False by (simp add: rb_list_def)
    finally show ?thesis .
  qed
qed

lemma rb_move_front:
  assumes wf: "rb_wf rb" and k: "k \<le> length (rb_list rb)"
  shows "\<exists>fr. c_mod (iFrontPos rb + int k) (iBufSize rb) = Inr fr \<and>
    rb_wf (rb\<lparr>iFrontPos := fr\<rparr>) \<and> rb_list (rb\<lparr>iFrontPos := fr\<rparr>) = drop k (rb_list rb)"
proof -
  from wf obtain f r n where eq: "iFrontPos rb = int f" "iRearPos rb = int r"
      "iBufSize rb = int n" "length (rb_data rb) = n" and lt: "f < n" "r < n" "0 < n" "n \<le> 2 ^ 30"
    by (rule rb_wf_nats)
  let ?f = "if f + k < n then f + k else f + k - n"
  have kl: "k \<le> length (ring_seg f r (rb_data rb))" using k eq by (simp add: rb_list_def)
  then have kn: "k < n" using lt eq by (auto simp: length_ring_seg split: if_splits)
  then have "c_mod (iFrontPos rb + int k) (iBufSize rb) = Inr (int ?f)"
    using eq lt by (auto simp: c_mod_wrap of_nat_diff)
  moreover have "rb_wf (rb\<lparr>iFrontPos := int ?f\<rparr>)" using wf eq lt kn by (auto simp: rb_wf_def)
  moreover have "rb_list (rb\<lparr>iFrontPos := int ?f\<rparr>) = drop k (rb_list rb)"
    using ring_seg_drop [of f "rb_data rb" r k] eq lt kl by (auto simp: rb_list_def split: if_splits)
  ultimately show ?thesis by blast
qed

lemma rb_Dequeue_ok:
  assumes wf: "rb_wf rb" and iSize: "0 \<le> iSize" "iSize < 2 ^ 31"
    and k: "int k = min iSize (int (length (rb_list rb)))" and dest: "k \<le> length chpDest"
  shows "\<exists>rb'. rb_Dequeue chpDest iSize rb =
      Inr (rb', mem_write chpDest 0 (take k (rb_list rb)), int k) \<and> rb_wf rb' \<and>
    rb_list rb' = drop k (rb_list rb) \<and> iBufSize rb' = iBufSize rb"
proof -
  from k have "k \<le> length (rb_list rb)" by simp
  from rb_move_front [OF wf this] rb_copy_out_ok [OF assms] show ?thesis
    by (auto simp: rb_Dequeue_def)
qed

lemma rb_Peek_ok:
  assumes "rb_wf rb" and "0 \<le> iSize" "iSize < 2 ^ 31"
    and "int k = min iSize (int (length (rb_list rb)))" and "k \<le> length chpDest"
  shows "rb_Peek chpDest iSize rb = Inr (mem_write chpDest 0 (take k (rb_list rb)), int k)"
  unfolding rb_Peek_def using assms by (rule rb_copy_out_ok)

lemma rb_MoveFront_ok:
  assumes wf: "rb_wf rb" and "0 \<le> iSize"
  shows "\<exists>rb'. rb_MoveFront iSize rb = Inr (rb', iFrontPos rb') \<and> rb_wf rb' \<and>
    rb_list rb' = drop (nat iSize) (rb_list rb) \<and> iBufSize rb' = iBufSize rb"
proof -
  define k where "k = min (nat iSize) (length (rb_list rb))"
  have k: "(if iSize > rb_GetUseSize rb then rb_GetUseSize rb else iSize) = int k"
    using assms(2) by (auto simp: rb_GetUseSize_length [OF wf] k_def)
  have "k \<le> length (rb_list rb)" by (simp add: k_def)
  from rb_move_front [OF wf this] obtain fr where
    "c_mod (iFrontPos rb + int k) (iBufSize rb) = Inr fr" "rb_wf (rb\<lparr>iFrontPos := fr\<rparr>)"
    "rb_list (rb\<lparr>iFrontPos := fr\<rparr>) = drop k (rb_list rb)" by blast
  moreover have "drop k (rb_list rb) = drop (nat iSize) (rb_list rb)" by (simp add: k_def min_def)
  ultimately show ?thesis
    by (intro exI [of _ "rb\<lparr>iFrontPos := fr\<rparr>"]) (simp add: rb_MoveFront_def k)
qed

text \<open>A write that the network card has already done: only the rear moves.\<close>

lemma rb_MoveRear_Enqueue:
  assumes wf: "rb_wf rb" and enq: "rb_Enqueue xs (int (length xs)) rb = Inr (rb1, w)"
  shows "rb_MoveRear (int (length xs)) (rb\<lparr>rb_data := rb_data rb1\<rparr>) = Inr (rb1, iRearPos rb1)"
  using enq
  by (auto simp: andThen_eq_Inr rb_Enqueue_def rb_MoveRear_def Let_def rb_GetFreeSize_def rb_GetUseSize_def
      min_def split: if_splits)
section \<open>The ring is a byte queue\<close>

definition rb_put :: "byte list \<Rightarrow> CRingBuffer \<Rightarrow> CRingBuffer res" where
  "rb_put xs rb = andThen (rb_Enqueue xs (int (length xs)) rb) (\<lambda>(rb', w). Inr rb')"

definition rb_get :: "nat \<Rightarrow> CRingBuffer \<Rightarrow> (byte list \<times> CRingBuffer) res" where
  "rb_get n rb =
     andThen (rb_Dequeue (replicate n 0) (int n) rb) (\<lambda>(rb', d, k). Inr (take (nat k) d, rb'))"

definition rb_room :: "CRingBuffer \<Rightarrow> nat" where
  "rb_room rb = nat (rb_GetFreeSize rb)"

lemma rb_free_nat: "rb_wf rb \<Longrightarrow> rb_GetFreeSize rb = int (rb_room rb)"
  using rb_use_bound by (simp add: rb_room_def rb_GetFreeSize_length)

lemma rb_room_bound: "rb_wf rb \<Longrightarrow> int (rb_room rb) < 2 ^ 30"
  by (auto simp: rb_room_def rb_GetFreeSize_length rb_wf_def)

interpretation ring: byte_queue rb_wf rb_list rb_room rb_put rb_get
proof
  fix q :: CRingBuffer and xs :: "byte list"
  assume q: "rb_wf q" and xs: "length xs \<le> rb_room q"
  then have le: "int (length xs) \<le> rb_GetFreeSize q" by (simp add: rb_free_nat)
  from rb_Enqueue_ok [OF q, of "int (length xs)" xs "int (length xs)"] le rb_room_bound [OF q] xs
  obtain q' where "rb_Enqueue xs (int (length xs)) q = Inr (q', int (length xs))" "rb_wf q'"
    "rb_list q' = rb_list q @ xs" "iBufSize q' = iBufSize q" by auto
  with q le show "\<exists>q'. rb_put xs q = Inr q' \<and> rb_wf q' \<and> rb_list q' = rb_list q @ xs \<and>
      rb_room q = rb_room q' + length xs"
    by (auto simp: rb_put_def rb_room_def rb_GetFreeSize_length)
next
  fix q :: CRingBuffer and n :: nat
  assume q: "rb_wf q" and n: "n \<le> length (rb_list q)"
  have "int n < 2 ^ 31" using n rb_use_bound [OF q] q by (auto simp: rb_wf_def)
  with rb_Dequeue_ok [OF q, of "int n" n "replicate n 0"] n
  obtain q' where "rb_Dequeue (replicate n 0) (int n) q =
      Inr (q', mem_write (replicate n 0) 0 (take n (rb_list q)), int n)" "rb_wf q'"
    "rb_list q' = drop n (rb_list q)" "iBufSize q' = iBufSize q" by auto
  with q n take_mem_write_front [of "take n (rb_list q)" "replicate n 0"]
  show "\<exists>q'. rb_get n q = Inr (take n (rb_list q), q') \<and> rb_wf q' \<and>
      rb_list q' = drop n (rb_list q) \<and> rb_room q \<le> rb_room q'"
    by (auto simp: rb_get_def rb_room_def rb_GetFreeSize_length)
qed

section \<open>Any sequence of operations\<close>

text \<open>
  The operations a client calls, with a destination of exactly the size it asks for, and
  the list queue of bounded capacity they implement. The output of an operation is the
  bytes it hands over and the count it returns.
\<close>

datatype rb_op =
    OpEnqueue "byte list"
  | OpDequeue nat
  | OpPeek nat
  | OpMoveFront nat
  | OpClear

fun rb_exec :: "rb_op \<Rightarrow> CRingBuffer \<Rightarrow> (CRingBuffer \<times> byte list \<times> int) res" where
  "rb_exec (OpEnqueue xs) rb =
     andThen (rb_Enqueue xs (int (length xs)) rb) (\<lambda>(rb', w). Inr (rb', [], w))"
| "rb_exec (OpDequeue n) rb =
     andThen (rb_Dequeue (replicate n 0) (int n) rb) (\<lambda>(rb', d, k). Inr (rb', take (nat k) d, k))"
| "rb_exec (OpPeek n) rb =
     andThen (rb_Peek (replicate n 0) (int n) rb) (\<lambda>(d, k). Inr (rb, take (nat k) d, k))"
| "rb_exec (OpMoveFront n) rb =
     andThen (rb_MoveFront (int n) rb) (\<lambda>(rb', f). Inr (rb', [], 0))"
| "rb_exec OpClear rb = Inr (rb_ClearBuffer rb, [], 0)"

fun fifo_exec :: "nat \<Rightarrow> rb_op \<Rightarrow> byte list \<Rightarrow> byte list \<times> byte list \<times> int" where
  "fifo_exec cap (OpEnqueue xs) q =
     (q @ take (cap - length q) xs, [], int (min (length xs) (cap - length q)))"
| "fifo_exec cap (OpDequeue n) q = (drop n q, take n q, int (min n (length q)))"
| "fifo_exec cap (OpPeek n) q = (q, take n q, int (min n (length q)))"
| "fifo_exec cap (OpMoveFront n) q = (drop n q, [], 0)"
| "fifo_exec cap OpClear q = ([], [], 0)"

text \<open>Every length a caller passes is a C++ \<open>int\<close>.\<close>

fun op_int :: "rb_op \<Rightarrow> bool" where
  "op_int (OpEnqueue xs) = in_int (int (length xs))"
| "op_int (OpDequeue n) = in_int (int n)"
| "op_int (OpPeek n) = in_int (int n)"
| "op_int (OpMoveFront n) = in_int (int n)"
| "op_int OpClear = True"

fun rb_run :: "rb_op list \<Rightarrow> CRingBuffer \<Rightarrow> (CRingBuffer \<times> (byte list \<times> int) list) res" where
  "rb_run [] rb = Inr (rb, [])"
| "rb_run (p # ps) rb =
     andThen (rb_exec p rb) (\<lambda>(rb', o1). andThen (rb_run ps rb') (\<lambda>(rb'', os). Inr (rb'', o1 # os)))"

fun fifo_run :: "nat \<Rightarrow> rb_op list \<Rightarrow> byte list \<Rightarrow> byte list \<times> (byte list \<times> int) list" where
  "fifo_run cap [] q = (q, [])"
| "fifo_run cap (p # ps) q =
     (let (q', o1) = fifo_exec cap p q; (q'', os) = fifo_run cap ps q' in (q'', o1 # os))"

lemma rb_read_out:
  "int k = min (int n) (int (length xs)) \<Longrightarrow>
   take k (mem_write (replicate n 0) 0 (take k xs)) = take n xs"
  by (auto simp: mem_write_def min_def split: if_splits)

lemma rb_exec_refines:
  assumes wf: "rb_wf rb" and op: "op_int p"
    and spec: "fifo_exec (nat (iBufSize rb - 1)) p (rb_list rb) = (q', o1)"
  shows "\<exists>rb'. rb_exec p rb = Inr (rb', o1) \<and> rb_wf rb' \<and> rb_list rb' = q' \<and> iBufSize rb' = iBufSize rb"
proof (cases p)
  case (OpEnqueue xs)
  have free: "rb_GetFreeSize rb = int (nat (iBufSize rb - 1) - length (rb_list rb))"
    using rb_use_bound [OF wf] by (simp add: rb_GetFreeSize_length [OF wf] nat_diff_distrib)
  then have "take (nat (min (int (length xs)) (rb_GetFreeSize rb))) xs =
      take (nat (iBufSize rb - 1) - length (rb_list rb)) xs" by (simp add: min_def)
  with rb_Enqueue_ok [OF wf, of "int (length xs)" xs] OpEnqueue spec op free show ?thesis
    by (force simp: in_int_def)
next
  case (OpDequeue n)
  define k where "k = min n (length (rb_list rb))"
  have k: "int k = min (int n) (int (length (rb_list rb)))" by (simp add: k_def)
  have "take k (rb_list rb) = take n (rb_list rb)" "drop k (rb_list rb) = drop n (rb_list rb)"
    by (simp_all add: k_def min_def)
  with rb_Dequeue_ok [OF wf _ _ k, of "replicate n 0"] OpDequeue spec op rb_read_out [OF k]
  show ?thesis by (force simp: in_int_def k_def)
next
  case (OpPeek n)
  define k where "k = min n (length (rb_list rb))"
  have k: "int k = min (int n) (int (length (rb_list rb)))" by (simp add: k_def)
  from op OpPeek have "rb_Peek (replicate n 0) (int n) rb =
      Inr (mem_write (replicate n 0) 0 (take k (rb_list rb)), int k)"
    by (intro rb_Peek_ok [OF wf _ _ k]) (auto simp: in_int_def k_def)
  with OpPeek spec rb_read_out [OF k] wf show ?thesis by (auto simp: k_def)
next
  case (OpMoveFront n)
  with rb_MoveFront_ok [OF wf, of "int n"] spec show ?thesis by force
next
  case OpClear
  with wf spec show ?thesis by (simp add: rb_ClearBuffer_def rb_wf_def rb_list_def ring_seg_def)
qed

text \<open>
  C11. Running any sequence of Enqueue, Dequeue, Peek, MoveFront and ClearBuffer on a ring
  gives exactly the bytes and the counts that a first-in first-out list of capacity
  \<open>iBufSize - 1\<close> gives, no operation faults, and the ring stays well formed.
\<close>

theorem rb_run_refines_fifo:
  assumes "rb_wf rb" and "list_all op_int ps"
  shows "\<exists>rb'. rb_run ps rb = Inr (rb', snd (fifo_run (nat (iBufSize rb - 1)) ps (rb_list rb))) \<and>
    rb_wf rb' \<and> rb_list rb' = fst (fifo_run (nat (iBufSize rb - 1)) ps (rb_list rb))"
  using assms
proof (induction ps arbitrary: rb)
  case (Cons p ps)
  obtain q' o1 where spec: "fifo_exec (nat (iBufSize rb - 1)) p (rb_list rb) = (q', o1)"
    by (cases "fifo_exec (nat (iBufSize rb - 1)) p (rb_list rb)")
  from Cons.prems rb_exec_refines [OF _ _ spec] obtain rb1 where
    rb1: "rb_exec p rb = Inr (rb1, o1)" "rb_wf rb1" "rb_list rb1 = q'" "iBufSize rb1 = iBufSize rb"
    by auto
  from Cons.IH [OF rb1(2)] Cons.prems(2) rb1 spec show ?case
    by (force split: prod.splits)
qed simp

theorem rb_run_refines_fifo_witness:
  "\<exists>rb'. rb_run [OpEnqueue [1, 2, 3], OpDequeue 2, OpEnqueue [4, 5, 6], OpPeek 9]
        \<lparr>iFrontPos = 2, iRearPos = 2, iBufSize = 4, rb_data = [0, 0, 0, 0]\<rparr> =
      Inr (rb', [([], 3), ([1, 2], 2), ([], 2), ([3, 4, 5], 3)]) \<and>
    rb_wf rb' \<and> rb_list rb' = [3, 4, 5]"
  using rb_run_refines_fifo [of "\<lparr>iFrontPos = 2, iRearPos = 2, iBufSize = 4, rb_data = [0, 0, 0, 0]\<rparr>"
      "[OpEnqueue [1, 2, 3], OpDequeue 2, OpEnqueue [4, 5, 6], OpPeek 9]"]
  by (simp add: rb_wf_def in_int_def rb_list_def ring_seg_def numeral_eq_Suc)

text \<open>
  C32. Resizing, to a size from 1 to \<open>2 ^ 30\<close>. ReSize keeps the stored bytes when the new array is larger than what is stored; when
  the sizes are equal the rear wraps onto the front and every byte is lost; when the new
  array is smaller the copy runs past its end.
\<close>

theorem rb_ReSize_cases:
  assumes wf: "rb_wf rb" and sz: "0 < sz" "sz \<le> 2 ^ 30"
  shows "(int (length (rb_list rb)) < sz \<longrightarrow>
      (\<exists>rb'. rb_ReSize junk sz rb = Inr rb' \<and> rb_wf rb' \<and> iBufSize rb' = sz \<and> rb_list rb' = rb_list rb)) \<and>
    (int (length (rb_list rb)) = sz \<longrightarrow>
      (\<exists>rb'. rb_ReSize junk sz rb = Inr rb' \<and> rb_list rb' = [])) \<and>
    (sz < int (length (rb_list rb)) \<longrightarrow> rb_ReSize junk sz rb = Inl OutOfBoundsWrite)"
proof -
  define u where "u = length (rb_list rb)"
  from wf obtain f r n where eq: "iFrontPos rb = int f" "iRearPos rb = int r"
      "iBufSize rb = int n" "length (rb_data rb) = n" and lt: "f < n" "r < n" "0 < n" "n \<le> 2 ^ 30"
    by (rule rb_wf_nats)
  from sz obtain m where m: "sz = int m" "0 < m" "m \<le> 2 ^ 30"
    using nonneg_int_cases [of sz] by auto
  let ?nd = "map junk [0..<m]" and ?d = "rb_data rb"
  define cp where "cp = (if f \<le> r then memcpy ?nd 0 (drop f ?d) (int u)
      else andThen (memcpy ?nd 0 (drop f ?d) (int n - int f))
             (\<lambda>nd'. memcpy nd' (int n - int f) ?d (int r)))"
  have u: "rb_GetUseSize rb = int u" using wf by (simp add: u_def rb_GetUseSize_length)
  have rs: "rb_ReSize junk sz rb = andThen cp (\<lambda>nd'. andThen (c_mod (int u) (int m))
      (\<lambda>r. Inr \<lparr>iFrontPos = 0, iRearPos = r, iBufSize = int m, rb_data = nd'\<rparr>))"
    using m eq u by (simp add: rb_ReSize_def cp_def Let_def)
  have ul: "u = (if f \<le> r then r - f else n - f + r)"
    using eq lt by (simp add: u_def rb_list_def length_ring_seg)
  have fit: "cp = Inr (mem_write ?nd 0 (rb_list rb))" if "u \<le> m"
  proof (cases "f \<le> r")
    case True
    then show ?thesis
      using that ul lt eq m by (simp add: cp_def mem_simps rb_list_def ring_seg_def drop_take)
  next
    case False
    then have "cp = Inr (mem_write (mem_write ?nd 0 (drop f ?d)) (0 + length (drop f ?d)) (take r ?d))"
      using that ul lt eq m by (simp add: cp_def mem_simps)
    also have "\<dots> = Inr (mem_write ?nd 0 (drop f ?d @ take r ?d))"
      using that ul lt eq False by (subst mem_write_mem_write) auto
    finally show ?thesis using False eq by (simp add: rb_list_def ring_seg_def)
  qed
  have over: "cp = Inl OutOfBoundsWrite" if "m < u"
  proof (cases "f \<le> r")
    case True
    then show ?thesis using that ul lt eq by (simp add: cp_def mem_simps)
  next
    case False
    then show ?thesis
      using that ul lt eq
      by (cases "n - f \<le> m") (auto simp: cp_def mem_simps)
  qed
  let ?nd' = "mem_write ?nd 0 (rb_list rb)"
  have new: "rb_ReSize junk sz rb = Inr \<lparr>iFrontPos = 0, iRearPos = (if u < m then int u else 0),
      iBufSize = int m, rb_data = ?nd'\<rparr>" if "u \<le> m"
    using that fit [OF that] m(2) by (simp add: rs c_mod_wrap)
  have list: "take u ?nd' = rb_list rb" "length ?nd' = m" if "u \<le> m"
    using that take_mem_write_front [of "rb_list rb" ?nd] by (simp_all add: u_def)
  consider "u < m" | "u = m" | "m < u" by linarith
  then show ?thesis
  proof cases
    case 1
    then have "rb_wf \<lparr>iFrontPos = 0, iRearPos = int u, iBufSize = int m, rb_data = ?nd'\<rparr>"
      using list m by (simp add: rb_wf_def)
    with 1 new list m show ?thesis
      by (simp add: u_def [symmetric]) (simp add: rb_list_def ring_seg_def)
  next
    case 2
    with new m show ?thesis
      by (simp add: u_def [symmetric]) (simp add: rb_list_def ring_seg_def)
  next
    case 3
    with over rs m show ?thesis by (simp add: u_def [symmetric])
  qed
qed

theorem rb_ReSize_cases_witness:
  "rb_wf \<lparr>iFrontPos = 1, iRearPos = 3, iBufSize = 4, rb_data = [7, 8, 9, 7]\<rparr> \<and>
   rb_ReSize (\<lambda>_. 0) 1 \<lparr>iFrontPos = 1, iRearPos = 3, iBufSize = 4, rb_data = [7, 8, 9, 7]\<rparr> =
     Inl OutOfBoundsWrite"
proof -
  let ?rb = "\<lparr>iFrontPos = 1, iRearPos = 3, iBufSize = 4, rb_data = [7, 8, 9, 7]\<rparr>"
  have "rb_wf ?rb" by (simp add: rb_wf_def)
  moreover have "rb_list ?rb = [8, 9]" by (simp add: rb_list_def ring_seg_def numeral_eq_Suc)
  ultimately show ?thesis using rb_ReSize_cases [of ?rb 1 "\<lambda>_. 0"] by simp
qed

section \<open>Receiving into the ring\<close>

text \<open>
  The server posts two regions of the ring to the network: the free space up to the end of
  the array and, when there is more, the free space at its start (\<open>PostRecv\<close>). The operating
  system fills the first region, then the second.
\<close>

definition recv_regions :: "CRingBuffer \<Rightarrow> (int \<times> int) list" where
  "recv_regions rb =
     (let len0 = rb_DirectEnqueueSize rb
      in (rb_GetRearBufferPtr rb, len0) #
         (if rb_DirectEnqueueSize rb < rb_GetFreeSize rb
          then [(rb_GetBufferPtr rb, rb_GetFreeSize rb - len0)] else []))"

fun scatter :: "(int \<times> int) list \<Rightarrow> byte list \<Rightarrow> byte list \<Rightarrow> byte list res" where
  "scatter [] xs m = (if xs = [] then Inr m else Inl OutOfBoundsWrite)"
| "scatter ((off, len) # ws) xs m =
     (let k = min (nat len) (length xs)
      in andThen (memcpy m off xs (int k)) (scatter ws (drop k xs)))"

lemma recv_regions_total:
  "rb_wf rb \<Longrightarrow> sum_list (map snd (recv_regions rb)) = rb_GetFreeSize rb"
  by (auto simp: recv_regions_def Let_def rb_wf_def rb_DirectEnqueueSize_def rb_GetFreeSize_def
      rb_GetUseSize_def)

lemma rb_Enqueue_mem:
  assumes "rb_Enqueue xs iSize rb = Inr (rb1, w)"
  shows "(if iRearPos rb + w > iBufSize rb
      then andThen (memcpy_s (rb_data rb) (iRearPos rb) (iBufSize rb - iRearPos rb) xs
             (iBufSize rb - iRearPos rb))
           (\<lambda>d. memcpy_s d 0 (iBufSize rb) (drop (nat (iBufSize rb - iRearPos rb)) xs)
             (w - (iBufSize rb - iRearPos rb)))
      else memcpy_s (rb_data rb) (iRearPos rb) (iBufSize rb - iRearPos rb) xs w) = Inr (rb_data rb1)"
  using assms unfolding rb_Enqueue_def Let_def by (auto simp: andThen_eq_Inr)

lemma scatter_enqueue_data:
  assumes wf: "rb_wf rb" and xs: "int (length xs) \<le> rb_GetFreeSize rb"
    and enq: "rb_Enqueue xs (int (length xs)) rb = Inr (rb1, int (length xs))"
  shows "scatter (recv_regions rb) xs (rb_data rb) = Inr (rb_data rb1)"
proof -
  from wf obtain f r n where eq: "iFrontPos rb = int f" "iRearPos rb = int r"
      "iBufSize rb = int n" "length (rb_data rb) = n" and lt: "f < n" "r < n" "0 < n" "n \<le> 2 ^ 30"
    by (rule rb_wf_nats)
  let ?k = "length xs" and ?d = "rb_data rb"
  have free: "?k + (if f \<le> r then r - f else n - f + r) < n"
    using xs eq lt by (auto simp: rb_GetFreeSize_def rb_GetUseSize_def split: if_splits)
  note regions = recv_regions_def Let_def rb_DirectEnqueueSize_def rb_GetFreeSize_def
    rb_GetUseSize_def rb_GetRearBufferPtr_def rb_GetBufferPtr_def
  show ?thesis
  proof (cases "r + ?k \<le> n")
    case True
    have "Inr (rb_data rb1) = (Inr (mem_write ?d r xs) :: byte list res)"
      unfolding rb_Enqueue_mem [OF enq, symmetric] using True eq lt by (simp add: mem_simps)
    moreover have "scatter (recv_regions rb) xs ?d = Inr (mem_write ?d r xs)"
    proof (cases "f \<le> r")
      case True
      with \<open>r + ?k \<le> n\<close> eq lt free show ?thesis
        by (cases "f = 0") (simp_all add: regions mem_simps)
    next
      case False
      with eq lt free show ?thesis by (simp add: regions mem_simps)
    qed
    ultimately show ?thesis by simp
  next
    case False
    with free lt have f: "Suc 0 < f" "f \<le> r" by (auto split: if_splits)
    let ?m = "mem_write (mem_write ?d r (take (n - r) xs)) 0 (drop (n - r) xs)"
    have e: "int ?k - (int n - int r) = int (r + ?k - n)" using False by simp
    have "Inr (rb_data rb1) = (Inr ?m :: byte list res)"
      unfolding rb_Enqueue_mem [OF enq, symmetric] 
      using False eq lt free f e by (simp add: mem_simps)
    moreover have "scatter (recv_regions rb) xs ?d = Inr ?m"
      using False eq lt free f by (simp add: regions mem_simps)
    ultimately show ?thesis by simp
  qed
qed

text \<open>
  Whatever the network delivers into the regions PostRecv posts (up to their total, the
  free size), moving the rear by that count appends exactly those bytes to the ring.
\<close>

theorem recv_appends:
  assumes wf: "rb_wf rb" and xs: "int (length xs) \<le> rb_GetFreeSize rb"
  shows "\<exists>m rb'. scatter (recv_regions rb) xs (rb_data rb) = Inr m \<and>
    rb_MoveRear (int (length xs)) (rb\<lparr>rb_data := m\<rparr>) = Inr (rb', iRearPos rb') \<and>
    rb_wf rb' \<and> rb_list rb' = rb_list rb @ xs"
proof -
  have "int (length xs) < 2 ^ 31"
    using xs rb_room_bound [OF wf] by (simp add: rb_free_nat [OF wf])
  with rb_Enqueue_ok [OF wf, of "int (length xs)" xs] xs obtain rb1
    where rb1: "rb_Enqueue xs (int (length xs)) rb = Inr (rb1, int (length xs))" "rb_wf rb1"
      "rb_list rb1 = rb_list rb @ xs" by auto
  with scatter_enqueue_data [OF wf xs] rb_MoveRear_Enqueue [OF wf] show ?thesis by blast
qed

theorem recv_appends_witness:
  "\<exists>m rb'. scatter (recv_regions \<lparr>iFrontPos = 3, iRearPos = 3, iBufSize = 5, rb_data = [0, 0, 0, 0, 0]\<rparr>)
       [1, 2, 3, 4] [0, 0, 0, 0, 0] = Inr m \<and>
     rb_MoveRear 4 \<lparr>iFrontPos = 3, iRearPos = 3, iBufSize = 5, rb_data = m\<rparr> = Inr (rb', iRearPos rb') \<and>
     rb_list rb' = [1, 2, 3, 4]"
proof -
  let ?rb = "\<lparr>iFrontPos = 3, iRearPos = 3, iBufSize = 5, rb_data = [0, 0, 0, 0, 0]\<rparr>"
  have "rb_wf ?rb" by (simp add: rb_wf_def)
  moreover have "int (length [1, 2, 3, 4 :: byte]) \<le> rb_GetFreeSize ?rb"
    by (simp add: rb_GetFreeSize_def rb_GetUseSize_def)
  moreover have "rb_list ?rb = []" by (simp add: rb_list_def ring_seg_def)
  ultimately show ?thesis using recv_appends [of ?rb "[1, 2, 3, 4]"] by auto
qed

end
