(* ===== verification/Packet.thy ===== *)
theory Packet
  imports Prelude
begin

text \<open>
  The message of the protocol, \<open>CPacket\<close> of CPacket.h and CPacket.cpp: one allocation that
  holds a five-byte header and the payload behind it, a read and a write position in the
  payload, the values the chat server streams in and out, and the encoding of the payload
  with its checksum.
\<close>

section \<open>State\<close>

definition FIX_KEY :: byte where "FIX_KEY = 0x32"
definition PACKET_CODE :: byte where "PACKET_CODE = 0x77"
definition MESSAGE_HEADER_LEN :: int where "MESSAGE_HEADER_LEN = 5"
definition eBUFFER_DEFAULT :: int where "eBUFFER_DEFAULT = 512"
definition eBUFFER_HEADER_SIZE :: int where "eBUFFER_HEADER_SIZE = MESSAGE_HEADER_LEN"

lemmas pkt_consts = MESSAGE_HEADER_LEN_def eBUFFER_DEFAULT_def
  eBUFFER_HEADER_SIZE_def

text \<open>
  \<open>m_cpHeadPtr\<close> is the allocation, \<open>None\<close> for a null pointer. \<open>m_cpPayloadBuffer\<close> always
  points \<open>eBUFFER_HEADER_SIZE\<close> bytes behind it, or is null with it.
\<close>

record CPacket =
  m_iMaxSize :: int
  m_iFront :: int
  m_iRear :: int
  m_iUsingSize :: int
  m_lRefCount :: int
  m_cpHeadPtr :: "byte list option"
  m_bIsEncoded :: bool

text \<open>The wire header, packed: code, length (little endian), key, checksum.\<close>

record st_PACKET_HEADER =
  hd_code :: byte
  hd_len :: WORD
  hd_randKey :: byte
  hd_checkSum :: byte

definition header_bytes :: "st_PACKET_HEADER \<Rightarrow> byte list" where
  "header_bytes h = hd_code h # le_bytes 2 (unat (hd_len h)) @ [hd_randKey h, hd_checkSum h]"

definition header_of :: "byte list \<Rightarrow> st_PACKET_HEADER" where
  "header_of bs =
     \<lparr>hd_code = bs ! 0, hd_len = of_nat (le_value (take 2 (drop 1 bs))),
      hd_randKey = bs ! 3, hd_checkSum = bs ! 4\<rparr>"

section \<open>Operations\<close>

definition pkt_new :: CPacket where
  "pkt_new =
     \<lparr>m_iMaxSize = eBUFFER_DEFAULT, m_iFront = 0, m_iRear = 0, m_iUsingSize = 0, m_lRefCount = 0,
      m_cpHeadPtr = Some (replicate (nat eBUFFER_DEFAULT) 0), m_bIsEncoded = False\<rparr>"

definition pkt_Release :: "CPacket \<Rightarrow> CPacket" where
  "pkt_Release p = p\<lparr>m_cpHeadPtr := None\<rparr>"

definition pkt_Clear :: "CPacket \<Rightarrow> CPacket" where
  "pkt_Clear p =
     p\<lparr>m_iFront := 0, m_iRear := 0, m_iUsingSize := 0, m_bIsEncoded := False,
       m_cpHeadPtr := map_option (\<lambda>b. mem_write b 0 (replicate (nat (m_iMaxSize p)) 0)) (m_cpHeadPtr p)\<rparr>"

definition pkt_PayloadCapacity :: "CPacket \<Rightarrow> int" where
  "pkt_PayloadCapacity p = m_iMaxSize p - eBUFFER_HEADER_SIZE"

definition pkt_GetBufferSize :: "CPacket \<Rightarrow> int" where
  "pkt_GetBufferSize p = m_iMaxSize p"

definition pkt_GetDataSize :: "CPacket \<Rightarrow> int" where
  "pkt_GetDataSize p = m_iUsingSize p"

definition pkt_GetFreeSize :: "CPacket \<Rightarrow> int" where
  "pkt_GetFreeSize p = m_iMaxSize p - m_iUsingSize p"

definition pkt_MoveWritePos :: "int \<Rightarrow> CPacket \<Rightarrow> CPacket \<times> int" where
  "pkt_MoveWritePos sz p =
     (if sz \<le> 0 then (p, 0)
      else
        let canWrite = pkt_GetFreeSize p;
            move = (if sz > canWrite then canWrite else sz)
        in (p\<lparr>m_iRear := m_iRear p + move, m_iUsingSize := m_iUsingSize p + move\<rparr>, move))"

text \<open>The tail every read ends with: an empty packet goes back to its start.\<close>

definition pkt_rewind :: "CPacket \<Rightarrow> CPacket" where
  "pkt_rewind p = (if m_iFront p = m_iRear p then p\<lparr>m_iFront := 0, m_iRear := 0\<rparr> else p)"

definition pkt_MoveReadPos :: "int \<Rightarrow> CPacket \<Rightarrow> CPacket \<times> int" where
  "pkt_MoveReadPos sz p =
     (if sz \<le> 0 then (p, 0)
      else
        let canRead = pkt_GetDataSize p;
            move = (if sz > canRead then canRead else sz)
        in (pkt_rewind (p\<lparr>m_iFront := m_iFront p + move, m_iUsingSize := m_iUsingSize p - move\<rparr>), move))"

text \<open>
  The loop of \<open>IncreaseBufferSize\<close>: its guard reads \<open>payloadcap\<close>, its body writes \<open>newSize\<close>.
  \<open>None\<close> is a loop that does not end.
\<close>

partial_function (option) grow_loop :: "int \<Rightarrow> int \<Rightarrow> int \<Rightarrow> int option" where
  "grow_loop payloadcap sz newSize =
     (if payloadcap < sz then grow_loop payloadcap sz (if newSize \<le> 0 then sz else newSize * 2)
      else Some newSize)"

text \<open>
  \<open>alloc_ok\<close> says whether \<open>malloc\<close> succeeds.
\<close>

definition pkt_IncreaseBufferSize :: "bool \<Rightarrow> int \<Rightarrow> CPacket \<Rightarrow> CPacket res" where
  "pkt_IncreaseBufferSize alloc_ok addSize p =
     (if addSize \<le> 0 then Inr p
      else
        let payloadcap = pkt_PayloadCapacity p;
            sz = m_iUsingSize p + addSize
        in if payloadcap \<ge> sz then Inr p
           else case grow_loop payloadcap sz payloadcap of
               None \<Rightarrow> Inl NoReturn
             | Some newSize \<Rightarrow>
                 let newTotal = eBUFFER_HEADER_SIZE + newSize
                 in if \<not> alloc_ok then Inr p
                    else case m_cpHeadPtr p of
                        None \<Rightarrow> Inl NullPointer
                      | Some b \<Rightarrow>
                          andThen (memcpy (replicate (nat newTotal) 0) 0 b (m_iMaxSize p))
                            (\<lambda>nb. Inr (p\<lparr>m_cpHeadPtr := Some nb, m_iMaxSize := newTotal\<rparr>)))"

text \<open>\<open>memcpy\<close> into the payload at an offset, and out of it.\<close>

definition payload_write :: "int \<Rightarrow> byte list \<Rightarrow> int \<Rightarrow> CPacket \<Rightarrow> CPacket res" where
  "payload_write off src n p =
     (case m_cpHeadPtr p of
        None \<Rightarrow> Inl NullPointer
      | Some b \<Rightarrow> andThen (memcpy b (eBUFFER_HEADER_SIZE + off) src n)
          (\<lambda>b'. Inr (p\<lparr>m_cpHeadPtr := Some b'\<rparr>)))"

definition payload_read :: "byte list \<Rightarrow> int \<Rightarrow> int \<Rightarrow> CPacket \<Rightarrow> byte list res" where
  "payload_read dst off n p =
     (case m_cpHeadPtr p of
        None \<Rightarrow> Inl NullPointer
      | Some b \<Rightarrow> memcpy dst 0 (drop (nat (eBUFFER_HEADER_SIZE + off)) b) n)"

text \<open>\<open>operator<<\<close>: \<open>val\<close> is the object representation of the value.\<close>

definition pkt_WriteValue :: "bool \<Rightarrow> byte list \<Rightarrow> CPacket \<Rightarrow> CPacket res" where
  "pkt_WriteValue alloc_ok val p =
     (let need = int (length val)
      in andThen (if pkt_GetFreeSize p < need then pkt_IncreaseBufferSize alloc_ok (need * 2) p else Inr p)
           (\<lambda>p1. andThen (payload_write (m_iRear p1) val need p1)
             (\<lambda>p2. Inr (p2\<lparr>m_iRear := m_iRear p2 + need, m_iUsingSize := m_iUsingSize p2 + need\<rparr>))))"

text \<open>
  \<open>operator>>\<close>: the variable keeps its old bytes when the packet holds too few.
\<close>

definition pkt_ReadValue :: "byte list \<Rightarrow> CPacket \<Rightarrow> (byte list \<times> CPacket) res" where
  "pkt_ReadValue val p =
     (let need = int (length val)
      in if pkt_GetDataSize p < need then Inr (val, p)
         else andThen (payload_read val (m_iFront p) need p)
           (\<lambda>v. Inr (v, pkt_rewind (p\<lparr>m_iFront := m_iFront p + need, m_iUsingSize := m_iUsingSize p - need\<rparr>))))"

definition pkt_PutData :: "bool \<Rightarrow> byte list \<Rightarrow> int \<Rightarrow> CPacket \<Rightarrow> CPacket res" where
  "pkt_PutData alloc_ok src sz p =
     andThen (if pkt_GetFreeSize p < sz then pkt_IncreaseBufferSize alloc_ok sz p else Inr p)
       (\<lambda>p1. andThen (payload_write (m_iRear p1) src sz p1)
         (\<lambda>p2. Inr (p2\<lparr>m_iRear := m_iRear p2 + sz, m_iUsingSize := m_iUsingSize p2 + sz\<rparr>)))"

definition pkt_GetData :: "byte list \<Rightarrow> int \<Rightarrow> CPacket \<Rightarrow> (byte list \<times> CPacket) res" where
  "pkt_GetData dst sz p =
     (if pkt_GetDataSize p < sz then Inr (dst, p)
      else andThen (payload_read dst (m_iFront p) sz p)
        (\<lambda>d. Inr (d, pkt_rewind (p\<lparr>m_iFront := m_iFront p + sz, m_iUsingSize := m_iUsingSize p - sz\<rparr>))))"

definition pkt_SetMessageHeader :: "byte list \<Rightarrow> int \<Rightarrow> CPacket \<Rightarrow> CPacket res" where
  "pkt_SetMessageHeader header len p =
     (case m_cpHeadPtr p of
        None \<Rightarrow> Inl NullPointer
      | Some b \<Rightarrow> andThen (memcpy b 0 header len) (\<lambda>b'. Inr (p\<lparr>m_cpHeadPtr := Some b'\<rparr>)))"

text \<open>
  \<open>ClearPayload\<close> passes three arguments to the two-argument macro \<open>ZeroMemory\<close>; the compiler
  drops the third, so the length is 0.
\<close>

definition pkt_ClearPayload :: "CPacket \<Rightarrow> CPacket" where
  "pkt_ClearPayload p =
     p\<lparr>m_cpHeadPtr := map_option
         (\<lambda>b. mem_write b (nat eBUFFER_HEADER_SIZE) (replicate 0 0)) (m_cpHeadPtr p)\<rparr>"

subsection \<open>Encoding\<close>

text \<open>
  The loops of \<open>SetEncodingCode\<close> and \<open>SetDecodingCode\<close> as they run: a \<open>char\<close> of the payload
  is sign-extended and a \<open>BYTE\<close> zero-extended to 32 bits, the sums and the exclusive or are
  taken there, and the assignment to a \<open>BYTE\<close> cuts the result to 8 bits.
\<close>

definition mix :: "32 word \<Rightarrow> byte \<Rightarrow> 32 word \<Rightarrow> nat \<Rightarrow> byte" where
  "mix c prev key i = ucast (c XOR (ucast prev + key + of_nat i + 1))"

fun encode_loop :: "byte \<Rightarrow> nat \<Rightarrow> byte \<Rightarrow> byte \<Rightarrow> byte list \<Rightarrow> byte list" where
  "encode_loop randKey i E_n P_n [] = []"
| "encode_loop randKey i E_n P_n (c # cs) =
     (let E_n' = mix (scast c) E_n (ucast randKey) i;
          out = mix (ucast E_n') P_n (ucast FIX_KEY) i
      in out # encode_loop randKey (Suc i) E_n' out cs)"

fun decode_loop :: "byte \<Rightarrow> nat \<Rightarrow> byte \<Rightarrow> byte \<Rightarrow> byte list \<Rightarrow> byte list" where
  "decode_loop randKey i E_n P_before [] = []"
| "decode_loop randKey i E_n P_before (c # cs) =
     (let P_n = mix (scast c) E_n (ucast FIX_KEY) i;
          D_n = mix (ucast P_n) P_before (ucast randKey) i
      in D_n # decode_loop randKey (Suc i) c P_n cs)"

text \<open>The checksum of the sender is summed in a \<open>LONG\<close>, that of the receiver in a \<open>DWORD\<close>.\<close>

definition encode_checkSum :: "byte list \<Rightarrow> byte" where
  "encode_checkSum cs = of_int (sum_list (map sint cs) smod 256)"

definition decode_checkSum :: "byte list \<Rightarrow> byte" where
  "decode_checkSum cs = ucast (sum_list (map scast cs) mod 256 :: 32 word)"

text \<open>\<open>r\<close> is what \<open>rand()\<close> returns.\<close>

definition pkt_SetEncodingCode :: "nat \<Rightarrow> CPacket \<Rightarrow> CPacket res" where
  "pkt_SetEncodingCode r p =
     (if m_bIsEncoded p then Inr p
      else case m_cpHeadPtr p of
          None \<Rightarrow> Inl NullPointer
        | Some b \<Rightarrow>
            let len = (of_int (pkt_GetDataSize p) :: WORD);
                randKey = of_nat (r mod 256);
                pPayload = drop (nat eBUFFER_HEADER_SIZE) b
            in if length pPayload < unat len then Inl OutOfBoundsRead
               else
                 let checkSum = encode_checkSum (take (unat len) pPayload);
                     header = \<lparr>hd_code = PACKET_CODE, hd_len = len, hd_randKey = randKey, hd_checkSum = checkSum\<rparr>
                 in andThen (pkt_SetMessageHeader (header_bytes header) 5 p)
                      (\<lambda>p1. andThen
                        (payload_write 0 (encode_loop randKey 0 0 0 (take (unat len) pPayload)) (int (unat len)) p1)
                        (\<lambda>p2. Inr (p2\<lparr>m_bIsEncoded := True\<rparr>))))"

definition pkt_SetDecodingCode :: "CPacket \<Rightarrow> (bool \<times> CPacket) res" where
  "pkt_SetDecodingCode p =
     (case m_cpHeadPtr p of
        None \<Rightarrow> Inl NullPointer
      | Some b \<Rightarrow>
          let h = header_of b
          in if hd_code h \<noteq> PACKET_CODE then Inr (False, p)
             else
               let dataSize = pkt_GetDataSize p;
                   pPayload = drop (nat eBUFFER_HEADER_SIZE) b
               in if int (length pPayload) < dataSize then Inl OutOfBoundsRead
                  else
                    let D = decode_loop (hd_randKey h) 0 0 0 (take (nat dataSize) pPayload)
                    in andThen (payload_write 0 D (int (length D)) p)
                         (\<lambda>p1. Inr (hd_checkSum h = decode_checkSum D, p1)))"

section \<open>Invariant and unread bytes\<close>

definition pkt_buf :: "CPacket \<Rightarrow> byte list" where
  "pkt_buf p = (case m_cpHeadPtr p of None \<Rightarrow> [] | Some b \<Rightarrow> b)"

definition pkt_wf :: "CPacket \<Rightarrow> bool" where
  "pkt_wf p \<longleftrightarrow>
     m_cpHeadPtr p \<noteq> None \<and> int (length (pkt_buf p)) = m_iMaxSize p \<and> m_iMaxSize p \<le> 2 ^ 30 \<and>
     0 \<le> m_iFront p \<and> 0 \<le> m_iUsingSize p \<and> m_iRear p = m_iFront p + m_iUsingSize p \<and>
     eBUFFER_HEADER_SIZE + m_iRear p \<le> m_iMaxSize p"

text \<open>The bytes written and not yet read.\<close>

definition pkt_list :: "CPacket \<Rightarrow> byte list" where
  "pkt_list p = take (nat (m_iUsingSize p)) (drop (nat (eBUFFER_HEADER_SIZE + m_iFront p)) (pkt_buf p))"

text \<open>The payload capacity left behind the write position.\<close>

definition pkt_room :: "CPacket \<Rightarrow> nat" where
  "pkt_room p = nat (m_iMaxSize p - eBUFFER_HEADER_SIZE - m_iRear p)"

lemma pkt_wf_new: "pkt_wf pkt_new" and pkt_list_new: "pkt_list pkt_new = []"
  and pkt_room_new: "pkt_room pkt_new = 507"
  by (simp_all add: pkt_wf_def pkt_new_def pkt_buf_def pkt_list_def pkt_room_def pkt_consts)

lemma pkt_wf_nats:
  assumes "pkt_wf p"
  obtains f u n b where "m_iFront p = int f" "m_iUsingSize p = int u" "m_iMaxSize p = int n"
    "m_iRear p = int f + int u" "m_cpHeadPtr p = Some b" "pkt_buf p = b" "length b = n"
    "5 + f + u \<le> n" "n \<le> 2 ^ 30"
proof -
  from assms obtain b where b: "m_cpHeadPtr p = Some b" by (auto simp: pkt_wf_def)
  show ?thesis
    by (rule that [of "nat (m_iFront p)" "nat (m_iUsingSize p)" "nat (m_iMaxSize p)" b])
      (use assms b in \<open>auto simp: pkt_wf_def pkt_buf_def pkt_consts\<close>)
qed

lemma length_pkt_list: "pkt_wf p \<Longrightarrow> int (length (pkt_list p)) = m_iUsingSize p"
  by (elim pkt_wf_nats) (auto simp: pkt_list_def pkt_consts)

lemma pkt_GetDataSize_list: "pkt_wf p \<Longrightarrow> pkt_GetDataSize p = int (length (pkt_list p))"
  by (simp add: pkt_GetDataSize_def length_pkt_list)

section \<open>Writing\<close>

text \<open>The growing loop ends only when it is not entered: its guard never changes.\<close>

lemma grow_loop_None: "payloadcap < sz \<Longrightarrow> grow_loop payloadcap sz newSize = None"
proof (rule ccontr)
  assume lt: "payloadcap < sz" and "grow_loop payloadcap sz newSize \<noteq> None"
  then obtain r where r: "grow_loop payloadcap sz newSize = Some r" by blast
  have "\<not> payloadcap < sz"
    by (rule grow_loop.raw_induct [where P = "\<lambda>c s n r. \<not> c < s", OF _ r]) (auto split: if_splits)
  with lt show False by simp
qed

lemma pkt_IncreaseBufferSize_stuck:
  "0 < add \<Longrightarrow> pkt_PayloadCapacity p < m_iUsingSize p + add \<Longrightarrow>
   pkt_IncreaseBufferSize ok add p = Inl NoReturn"
  by (simp add: pkt_IncreaseBufferSize_def Let_def grow_loop_None)

lemma payload_append:
  assumes "pkt_wf p" and "length xs \<le> pkt_room p"
  shows "\<exists>q. payload_write (m_iRear p) xs (int (length xs)) p = Inr q \<and>
    pkt_wf (q\<lparr>m_iRear := m_iRear q + int (length xs), m_iUsingSize := m_iUsingSize q + int (length xs)\<rparr>) \<and>
    pkt_list (q\<lparr>m_iRear := m_iRear q + int (length xs), m_iUsingSize := m_iUsingSize q + int (length xs)\<rparr>) =
      pkt_list p @ xs \<and>
    m_iRear q = m_iRear p \<and> m_iMaxSize q = m_iMaxSize p \<and> m_bIsEncoded q = m_bIsEncoded p \<and>
    m_iFront q = m_iFront p \<and> m_lRefCount q = m_lRefCount p"
proof -
  from assms(1) obtain f u n b where eq: "m_iFront p = int f" "m_iUsingSize p = int u"
    "m_iMaxSize p = int n" "m_iRear p = int f + int u" "m_cpHeadPtr p = Some b" "pkt_buf p = b"
    "length b = n" and le: "5 + f + u \<le> n" "n \<le> 2 ^ 30" by (rule pkt_wf_nats)
  from assms(2) eq have room: "5 + f + u + length xs \<le> n" using le by (simp add: pkt_room_def pkt_consts)
  let ?b = "mem_write b (5 + f + u) xs"
  have w: "payload_write (m_iRear p) xs (int (length xs)) p = Inr (p\<lparr>m_cpHeadPtr := Some ?b\<rparr>)"
    using eq le room by (simp add: payload_write_def mem_simps pkt_consts nat_add_distrib add.assoc)
  have "take (5 + f + u + length xs) ?b = take (5 + f + u) b @ xs"
    using eq le by (intro take_end_mem_write) simp
  then have "drop (5 + f) (take (5 + f + u + length xs) ?b) = drop (5 + f) (take (5 + f + u) b) @ xs"
    using eq le by simp
  then have "take (u + length xs) (drop (5 + f) ?b) = take u (drop (5 + f) b) @ xs"
    by (simp add: drop_take add.assoc)
  with w eq le room show ?thesis
    by (simp add: pkt_wf_def pkt_list_def pkt_buf_def pkt_consts nat_add_distrib)
qed

lemma payload_overflow:
  assumes "pkt_wf p" and "pkt_room p < length xs" and "length xs \<le> 2 ^ 30"
  shows "payload_write (m_iRear p) xs (int (length xs)) p = Inl OutOfBoundsWrite"
proof -
  from assms(1) obtain f u n b where eq: "m_iFront p = int f" "m_iUsingSize p = int u"
    "m_iMaxSize p = int n" "m_iRear p = int f + int u" "m_cpHeadPtr p = Some b" "pkt_buf p = b"
    "length b = n" and le: "5 + f + u \<le> n" "n \<le> 2 ^ 30" by (rule pkt_wf_nats)
  with assms(2,3) show ?thesis
    by (simp add: payload_write_def mem_simps pkt_consts pkt_room_def)
qed

text \<open>The state after a write of \<open>xs\<close>, and the three ways a write can go.\<close>

lemma pkt_put_cases:
  assumes wf: "pkt_wf p" and xs: "xs \<noteq> []" "length xs \<le> 2 ^ 30" and add: "int (length xs) \<le> add"
    and op: "W = andThen (if pkt_GetFreeSize p < int (length xs) then pkt_IncreaseBufferSize ok add p else Inr p)
       (\<lambda>p1. andThen (payload_write (m_iRear p1) xs (int (length xs)) p1)
         (\<lambda>p2. Inr (p2\<lparr>m_iRear := m_iRear p2 + int (length xs), m_iUsingSize := m_iUsingSize p2 + int (length xs)\<rparr>)))"
  shows "length xs \<le> pkt_room p \<Longrightarrow> \<exists>q. W = Inr q \<and> pkt_wf q \<and> pkt_list q = pkt_list p @ xs \<and>
      pkt_room p = pkt_room q + length xs \<and> m_iFront q = m_iFront p \<and> m_bIsEncoded q = m_bIsEncoded p \<and>
      m_lRefCount q = m_lRefCount p"
    and "pkt_room p < length xs \<Longrightarrow> int (length xs) \<le> pkt_GetFreeSize p \<Longrightarrow> W = Inl OutOfBoundsWrite"
    and "pkt_GetFreeSize p < int (length xs) \<Longrightarrow> W = Inl NoReturn"
proof -
  have free: "int (pkt_room p) \<le> pkt_GetFreeSize p"
    using wf by (auto simp: pkt_wf_def pkt_room_def pkt_GetFreeSize_def pkt_consts)
  show "\<exists>q. W = Inr q \<and> pkt_wf q \<and> pkt_list q = pkt_list p @ xs \<and> pkt_room p = pkt_room q + length xs \<and>
      m_iFront q = m_iFront p \<and> m_bIsEncoded q = m_bIsEncoded p \<and> m_lRefCount q = m_lRefCount p"
    if room: "length xs \<le> pkt_room p"
  proof -
    let ?n = "int (length xs)"
    from payload_append [OF wf room] obtain q where
      q: "payload_write (m_iRear p) xs ?n p = Inr q"
      "pkt_wf (q\<lparr>m_iRear := m_iRear q + ?n, m_iUsingSize := m_iUsingSize q + ?n\<rparr>)"
      "pkt_list (q\<lparr>m_iRear := m_iRear q + ?n, m_iUsingSize := m_iUsingSize q + ?n\<rparr>) = pkt_list p @ xs"
      "m_iRear q = m_iRear p" "m_iMaxSize q = m_iMaxSize p" "m_bIsEncoded q = m_bIsEncoded p"
      "m_iFront q = m_iFront p" "m_lRefCount q = m_lRefCount p" by blast
    let ?q = "q\<lparr>m_iRear := m_iRear q + ?n, m_iUsingSize := m_iUsingSize q + ?n\<rparr>"
    have "\<not> pkt_GetFreeSize p < ?n" using room free by linarith
    with q(1) have "W = Inr ?q" by (simp add: op)
    moreover have "pkt_room p = pkt_room ?q + length xs" using q room by (simp add: pkt_room_def)
    ultimately show ?thesis using q by (intro exI [of _ ?q]) simp
  qed
  show "W = Inl OutOfBoundsWrite" if "pkt_room p < length xs" "int (length xs) \<le> pkt_GetFreeSize p"
    using that xs payload_overflow [OF wf, of xs] by (simp add: op)
  show "W = Inl NoReturn" if "pkt_GetFreeSize p < int (length xs)"
  proof -
    have "pkt_IncreaseBufferSize ok add p = Inl NoReturn"
      using that add xs(1)
      by (intro pkt_IncreaseBufferSize_stuck; cases xs)
        (auto simp: pkt_PayloadCapacity_def pkt_GetFreeSize_def pkt_consts)
    with that show ?thesis by (simp add: op)
  qed
qed

lemmas pkt_WriteValue_put = pkt_put_cases [where add = "int (length xs) * 2" and xs = xs for xs,
    OF _ _ _ _ pkt_WriteValue_def [unfolded Let_def]]
lemmas pkt_PutData_put = pkt_put_cases [where add = "int (length xs)" and xs = xs for xs,
    OF _ _ _ _ pkt_PutData_def]

section \<open>Reading\<close>

lemma payload_take:
  assumes "pkt_wf p" and "n \<le> length (pkt_list p)" and "length dst = n"
  shows "payload_read dst (m_iFront p) (int n) p = Inr (take n (pkt_list p))"
    and "pkt_wf (pkt_rewind (p\<lparr>m_iFront := m_iFront p + int n, m_iUsingSize := m_iUsingSize p - int n\<rparr>))"
    and "pkt_list (pkt_rewind (p\<lparr>m_iFront := m_iFront p + int n, m_iUsingSize := m_iUsingSize p - int n\<rparr>)) =
      drop n (pkt_list p)"
    and "pkt_room p \<le> pkt_room (pkt_rewind (p\<lparr>m_iFront := m_iFront p + int n, m_iUsingSize := m_iUsingSize p - int n\<rparr>))"
proof -
  from assms(1) obtain f u m b where eq: "m_iFront p = int f" "m_iUsingSize p = int u"
    "m_iMaxSize p = int m" "m_iRear p = int f + int u" "m_cpHeadPtr p = Some b" "pkt_buf p = b"
    "length b = m" and le: "5 + f + u \<le> m" "m \<le> 2 ^ 30" by (rule pkt_wf_nats)
  have n: "n \<le> u" using assms eq le by (simp add: pkt_list_def pkt_consts)
  show "payload_read dst (m_iFront p) (int n) p = Inr (take n (pkt_list p))"
    using eq le n assms(3)
    by (simp add: payload_read_def mem_simps pkt_consts pkt_list_def mem_write_def nat_add_distrib)
  show "pkt_wf (pkt_rewind (p\<lparr>m_iFront := m_iFront p + int n, m_iUsingSize := m_iUsingSize p - int n\<rparr>))"
    using eq le n by (simp add: pkt_wf_def pkt_rewind_def pkt_buf_def pkt_consts)
  show "pkt_list (pkt_rewind (p\<lparr>m_iFront := m_iFront p + int n, m_iUsingSize := m_iUsingSize p - int n\<rparr>)) =
      drop n (pkt_list p)"
    using eq le n
    by (auto simp: pkt_list_def pkt_rewind_def pkt_buf_def pkt_consts nat_add_distrib drop_take ac_simps)
  show "pkt_room p \<le> pkt_room (pkt_rewind (p\<lparr>m_iFront := m_iFront p + int n, m_iUsingSize := m_iUsingSize p - int n\<rparr>))"
    using eq le n by (auto simp: pkt_rewind_def pkt_room_def intro: nat_mono)
qed

section \<open>The packet is a byte queue\<close>

definition pkt_put :: "byte list \<Rightarrow> CPacket \<Rightarrow> CPacket res" where
  "pkt_put xs p = pkt_PutData True xs (int (length xs)) p"

definition pkt_get :: "nat \<Rightarrow> CPacket \<Rightarrow> (byte list \<times> CPacket) res" where
  "pkt_get n p = pkt_GetData (replicate n 0) (int n) p"

interpretation packet: byte_queue pkt_wf pkt_list pkt_room pkt_put pkt_get
proof
  fix p :: CPacket and xs :: "byte list"
  assume p: "pkt_wf p" and xs: "length xs \<le> pkt_room p"
  show "\<exists>q'. pkt_put xs p = Inr q' \<and> pkt_wf q' \<and> pkt_list q' = pkt_list p @ xs \<and>
      pkt_room p = pkt_room q' + length xs"
  proof (cases "xs = []")
    case True
    have "pkt_put [] p = Inr p"
      using p by (elim pkt_wf_nats) (auto simp: pkt_put_def pkt_PutData_def pkt_GetFreeSize_def payload_write_def
          mem_simps pkt_consts)
    with True p show ?thesis by simp
  next
    case False
    have "length xs \<le> 2 ^ 30" using p xs by (elim pkt_wf_nats) (auto simp: pkt_room_def pkt_consts)
    from pkt_PutData_put(1) [OF p False this order_refl xs] show ?thesis
      by (auto simp: pkt_put_def)
  qed
next
  fix p :: CPacket and n :: nat
  assume p: "pkt_wf p" and n: "n \<le> length (pkt_list p)"
  with payload_take [OF p n, of "replicate n 0"]
  show "\<exists>q'. pkt_get n p = Inr (take n (pkt_list p), q') \<and> pkt_wf q' \<and>
      pkt_list q' = drop n (pkt_list p) \<and> pkt_room p \<le> pkt_room q'"
    by (simp add: pkt_get_def pkt_GetData_def pkt_GetDataSize_list)
qed

section \<open>The codec\<close>

text \<open>Cut to 8 bits, the 32-bit computation is one on bytes.\<close>

lemma ucast_scast_byte [simp]: "ucast (scast (c :: byte) :: 32 word) = c"
  by (rule bit_word_eqI) (simp add: bit_simps)

lemma ucast_ucast_byte [simp]: "ucast (ucast (c :: byte) :: 32 word) = c"
  by (rule bit_word_eqI) (simp add: bit_simps)

lemma unat_ucast8: "unat (ucast (a :: 32 word) :: byte) = unat a mod 256"
  by (simp add: unsigned_ucast_eq take_bit_eq_mod)

lemma ucast8_add: "ucast (a + b :: 32 word) = (ucast a + ucast b :: byte)"
  by (simp add: word_unat_eq_iff unat_ucast8 unat_word_ariths mod_mod_cancel mod_add_eq)

lemma ucast8_of_nat: "ucast (of_nat n :: 32 word) = (of_nat n :: byte)"
  by (simp add: word_unat_eq_iff unat_ucast8 unat_of_nat take_bit_eq_mod mod_mod_cancel)

lemma ucast8_xor: "ucast (a XOR b :: 32 word) = (ucast a XOR ucast b :: byte)"
  by (rule bit_word_eqI) (simp add: bit_simps)

lemma ucast8_one: "ucast (1 :: 32 word) = (1 :: byte)"
  by simp

lemma mix_byte: "mix c prev key i = ucast c XOR (prev + ucast key + of_nat i + 1)"
  by (simp add: mix_def ucast8_add ucast8_xor ucast8_of_nat)


text \<open>The same loops on bytes: the reference the 32-bit loops are equal to.\<close>

fun encode_ref :: "byte \<Rightarrow> nat \<Rightarrow> byte \<Rightarrow> byte \<Rightarrow> byte list \<Rightarrow> byte list" where
  "encode_ref key i e p [] = []"
| "encode_ref key i e p (c # cs) =
     (let e' = c XOR (e + key + of_nat i + 1); p' = e' XOR (p + FIX_KEY + of_nat i + 1)
      in p' # encode_ref key (Suc i) e' p' cs)"

fun decode_ref :: "byte \<Rightarrow> nat \<Rightarrow> byte \<Rightarrow> byte \<Rightarrow> byte list \<Rightarrow> byte list" where
  "decode_ref key i p e [] = []"
| "decode_ref key i p e (c # cs) =
     (let e' = c XOR (p + FIX_KEY + of_nat i + 1)
      in (e' XOR (e + key + of_nat i + 1)) # decode_ref key (Suc i) c e' cs)"

lemma encode_loop_ref: "encode_loop key i e p cs = encode_ref key i e p cs"
  by (induction key i e p cs rule: encode_ref.induct) (simp_all add: mix_byte Let_def)

lemma decode_loop_ref: "decode_loop key i p e cs = decode_ref key i p e cs"
  by (induction key i p e cs rule: decode_ref.induct) (simp_all add: mix_byte Let_def)

lemma length_encode_ref [simp]: "length (encode_ref key i e p cs) = length cs"
  by (induction key i e p cs rule: encode_ref.induct) (simp_all add: Let_def)

lemma length_decode_ref [simp]: "length (decode_ref key i p e cs) = length cs"
  by (induction key i p e cs rule: decode_ref.induct) (simp_all add: Let_def)

lemma decode_encode_ref: "decode_ref key i p e (encode_ref key i e p cs) = cs"
  by (induction key i e p cs rule: encode_ref.induct) (simp_all add: Let_def xor.assoc)

lemma encode_decode_ref: "encode_ref key i e p (decode_ref key i p e cs) = cs"
  by (induction key i p e cs rule: decode_ref.induct) (simp_all add: Let_def xor.assoc)

lemma encode_checkSum_sum: "encode_checkSum cs = sum_list cs"
proof -
  have "(a smod 256) mod 256 = a mod 256" for a :: int
    by (cases a "0 :: int" rule: linorder_cases) (simp_all add: signed_modulo_int_def mod_minus_eq)
  then have "of_int (a smod 256) = (of_int a :: byte)" for a
    by (simp add: word_of_int_eq_iff take_bit_eq_mod)
  moreover have "of_int (sum_list (map sint cs)) = (sum_list cs :: byte)"
    by (induction cs) simp_all
  ultimately show ?thesis by (simp add: encode_checkSum_def)
qed

lemma decode_checkSum_sum: "decode_checkSum cs = sum_list cs"
proof -
  have "ucast (a mod 256 :: 32 word) = (ucast a :: byte)" for a
    by (simp add: word_unat_eq_iff unat_ucast8 unat_mod_distrib)
  moreover have "ucast (sum_list (map scast cs) :: 32 word) = (sum_list cs :: byte)"
    by (induction cs) (simp_all add: ucast8_add)
  ultimately show ?thesis by (simp add: decode_checkSum_def)
qed
lemma length_header_bytes [simp]: "length (header_bytes h) = 5"
  by (simp add: header_bytes_def)

lemma header_of_bytes: "header_of (header_bytes h @ rest) = h"
proof -
  obtain a b where ab: "le_bytes 2 (unat (hd_len h)) = [a, b]"
    by (simp add: numeral_2_eq_2)
  have "le_value [a, b] = unat (hd_len h)"
    unfolding ab [symmetric] using unsigned_less [of "hd_len h", where 'a = nat]
    by (intro le_value_le_bytes) simp
  then have "of_nat (le_value [a, b]) = hd_len h" by (simp del: le_value.simps)
  then show ?thesis
    by (intro st_PACKET_HEADER.equality) (simp_all add: header_of_def header_bytes_def ab nth_Cons' take_Cons'
        del: le_value.simps le_bytes.simps)
qed

text \<open>The bytes \<open>PostSend\<close> hands to the network for a packet: header, then payload.\<close>

definition pkt_wire :: "CPacket \<Rightarrow> byte list" where
  "pkt_wire p = take (nat MESSAGE_HEADER_LEN) (pkt_buf p) @
     take (nat (pkt_GetDataSize p)) (drop (nat eBUFFER_HEADER_SIZE) (pkt_buf p))"

text \<open>The frame a payload becomes under a key.\<close>

definition frame :: "byte \<Rightarrow> byte list \<Rightarrow> byte list" where
  "frame key xs =
     header_bytes \<lparr>hd_code = PACKET_CODE, hd_len = of_nat (length xs), hd_randKey = key,
                   hd_checkSum = sum_list xs\<rparr> @ encode_ref key 0 0 0 xs"

lemma length_frame [simp]: "length (frame key xs) = 5 + length xs"
  by (simp add: frame_def)

lemma pkt_encode_ok:
  assumes wf: "pkt_wf p" and front: "m_iFront p = 0" and enc: "\<not> m_bIsEncoded p"
    and len: "length (pkt_list p) < 65536"
  shows "\<exists>q. pkt_SetEncodingCode r p = Inr q \<and> pkt_wf q \<and> m_iFront q = 0 \<and> m_bIsEncoded q \<and>
    pkt_list q = encode_ref (of_nat (r mod 256)) 0 0 0 (pkt_list p) \<and>
    pkt_wire q = frame (of_nat (r mod 256)) (pkt_list p) \<and> m_lRefCount q = m_lRefCount p"
proof -
  from wf obtain f u n b where eq: "m_iFront p = int f" "m_iUsingSize p = int u"
    "m_iMaxSize p = int n" "m_iRear p = int f + int u" "m_cpHeadPtr p = Some b" "pkt_buf p = b"
    "length b = n" and le: "5 + f + u \<le> n" "n \<le> 2 ^ 30" by (rule pkt_wf_nats)
  let ?key = "of_nat (r mod 256) :: byte" and ?xs = "take u (drop 5 b)"
  have f0: "f = 0" and xs: "pkt_list p = ?xs" "length ?xs = u"
    using front eq le by (auto simp: pkt_list_def pkt_consts)
  have u: "unat (of_nat u :: WORD) = u" using len xs by (simp add: unat_of_nat take_bit_eq_mod)
  let ?h = "header_bytes \<lparr>hd_code = PACKET_CODE, hd_len = of_nat u, hd_randKey = ?key, hd_checkSum = sum_list ?xs\<rparr>"
  let ?b1 = "mem_write b 0 ?h"
  let ?b2 = "mem_write ?b1 5 (encode_ref ?key 0 0 0 ?xs)"
  have b2: "?b2 = ?h @ encode_ref ?key 0 0 0 ?xs @ drop (5 + u) b"
    using eq le by (simp add: mem_write_def ac_simps)
  have "pkt_SetEncodingCode r p = Inr (p\<lparr>m_cpHeadPtr := Some ?b2, m_bIsEncoded := True\<rparr>)"
    using enc eq le u
    by (simp add: pkt_SetEncodingCode_def pkt_GetDataSize_def Let_def pkt_consts
        pkt_SetMessageHeader_def payload_write_def mem_simps encode_loop_ref encode_checkSum_sum)
  then show ?thesis
    using eq le f0 xs
    by (simp add: b2 pkt_wf_def pkt_buf_def pkt_list_def pkt_wire_def frame_def pkt_GetDataSize_def pkt_consts)
qed

lemma pkt_decode_ok:
  assumes wf: "pkt_wf p" and front: "m_iFront p = 0" and h: "h = header_of (pkt_buf p)"
    and code: "hd_code h = PACKET_CODE"
  shows "\<exists>q. pkt_SetDecodingCode p =
      Inr (hd_checkSum h = sum_list (decode_ref (hd_randKey h) 0 0 0 (pkt_list p)), q) \<and>
    pkt_wf q \<and> m_iFront q = 0 \<and> pkt_list q = decode_ref (hd_randKey h) 0 0 0 (pkt_list p) \<and>
    m_lRefCount q = m_lRefCount p \<and> pkt_room q = pkt_room p \<and> m_bIsEncoded q = m_bIsEncoded p"
proof -
  from wf obtain f u n b where eq: "m_iFront p = int f" "m_iUsingSize p = int u"
    "m_iMaxSize p = int n" "m_iRear p = int f + int u" "m_cpHeadPtr p = Some b" "pkt_buf p = b"
    "length b = n" and le: "5 + f + u \<le> n" "n \<le> 2 ^ 30" by (rule pkt_wf_nats)
  let ?xs = "take u (drop 5 b)"
  let ?D = "decode_ref (hd_randKey h) 0 0 0 ?xs"
  have f0: "f = 0" and xs: "pkt_list p = ?xs" "length ?xs = u"
    using front eq le by (auto simp: pkt_list_def pkt_consts)
  have b2: "mem_write b 5 ?D = take 5 b @ ?D @ drop (5 + u) b"
    using eq le by (simp add: mem_write_def ac_simps)
  have "pkt_SetDecodingCode p =
      Inr (hd_checkSum h = sum_list ?D, p\<lparr>m_cpHeadPtr := Some (mem_write b 5 ?D)\<rparr>)"
    using eq le h code
    by (simp add: pkt_SetDecodingCode_def pkt_GetDataSize_def Let_def pkt_consts
        payload_write_def mem_simps decode_loop_ref decode_checkSum_sum)
  then show ?thesis
    using eq le f0 xs
    by (simp add: b2 pkt_wf_def pkt_buf_def pkt_list_def pkt_room_def pkt_consts)
qed

section \<open>Properties of the packet\<close>

text \<open>
  C33. Writing a value of \<open>n\<close> bytes to a packet appends them when they fit the payload; it
  writes past the allocation when they do not fit but the packet's own free size, which
  counts the five header bytes, says they do; and it never returns when the free size is
  too small, because the loop that should grow the buffer never changes its guard. The same
  holds for a block of \<open>n\<close> bytes.
\<close>

theorem pkt_write_cases:
  assumes "pkt_wf p" and "xs \<noteq> []" and "length xs \<le> 2 ^ 30"
    and "W = pkt_WriteValue ok xs p \<or> W = pkt_PutData ok xs (int (length xs)) p"
  shows "(length xs \<le> pkt_room p \<longrightarrow> (\<exists>q. W = Inr q \<and> pkt_wf q \<and> pkt_list q = pkt_list p @ xs)) \<and>
    (pkt_room p < length xs \<and> int (length xs) \<le> pkt_GetFreeSize p \<longrightarrow> W = Inl OutOfBoundsWrite) \<and>
    (pkt_GetFreeSize p < int (length xs) \<longrightarrow> W = Inl NoReturn)"
proof -
  have "int (length xs) \<le> int (length xs) * 2" by simp
  note put = pkt_WriteValue_put [OF assms(1-3) this, of ok] pkt_PutData_put [OF assms(1-3) order_refl, of ok]
  from assms(4) show ?thesis using put by (elim disjE) blast+
qed

theorem pkt_write_cases_witness:
  "pkt_WriteValue True (replicate 508 1) pkt_new = Inl OutOfBoundsWrite \<and>
   pkt_WriteValue True (replicate 513 1) pkt_new = Inl NoReturn"
proof -
  have room: "pkt_room pkt_new = 507" "pkt_GetFreeSize pkt_new = 512"
    by (rule pkt_room_new) (simp add: pkt_GetFreeSize_def pkt_new_def eBUFFER_DEFAULT_def)
  have "replicate 508 (1 :: byte) \<noteq> []" "replicate 513 (1 :: byte) \<noteq> []" by simp_all
  with pkt_write_cases [OF pkt_wf_new, of "replicate 508 1" "pkt_WriteValue True (replicate 508 1) pkt_new" True]
    pkt_write_cases [OF pkt_wf_new, of "replicate 513 1" "pkt_WriteValue True (replicate 513 1) pkt_new" True] room
  show ?thesis by simp
qed

text \<open>
  A packet that is encoded and then decoded holds the payload it held before, and the
  decoder accepts it: the header code is right and the checksum the receiver computes on
  unsigned sums equals the one the sender computed on signed sums.
\<close>

theorem pkt_encode_decode:
  assumes wf: "pkt_wf p" and front: "m_iFront p = 0" and enc: "\<not> m_bIsEncoded p"
    and len: "length (pkt_list p) < 65536"
  shows "\<exists>q p'. pkt_SetEncodingCode r p = Inr q \<and> pkt_SetDecodingCode q = Inr (True, p') \<and>
    pkt_wf p' \<and> pkt_list p' = pkt_list p"
proof -
  from pkt_encode_ok [OF assms, of r] obtain q where q: "pkt_SetEncodingCode r p = Inr q" "pkt_wf q"
    "m_iFront q = 0" "pkt_list q = encode_ref (of_nat (r mod 256)) 0 0 0 (pkt_list p)"
    "pkt_wire q = frame (of_nat (r mod 256)) (pkt_list p)" by blast
  let ?h = "header_of (pkt_buf q)"
  have "5 \<le> length (pkt_buf q)" using q(2) by (elim pkt_wf_nats) simp
  then have "take 5 (pkt_buf q) = take 5 (frame (of_nat (r mod 256)) (pkt_list p))"
    unfolding q(5) [symmetric] by (simp add: pkt_wire_def pkt_consts min_def)
  then have "pkt_buf q = header_bytes \<lparr>hd_code = PACKET_CODE, hd_len = of_nat (length (pkt_list p)),
      hd_randKey = of_nat (r mod 256), hd_checkSum = sum_list (pkt_list p)\<rparr> @ drop 5 (pkt_buf q)"
    by (metis append_take_drop_id append_eq_conv_conj frame_def length_header_bytes)
  then have h: "hd_code ?h = PACKET_CODE" "hd_randKey ?h = of_nat (r mod 256)"
    "hd_checkSum ?h = sum_list (pkt_list p)" by (metis header_of_bytes st_PACKET_HEADER.select_convs)+
  from pkt_decode_ok [OF q(2,3) refl h(1)] q h show ?thesis
    by (auto simp: decode_encode_ref)
qed

theorem pkt_encode_decode_witness:
  "\<exists>q p'. pkt_SetEncodingCode 1000 (pkt_new\<lparr>m_iRear := 3, m_iUsingSize := 3\<rparr>) = Inr q \<and>
     pkt_SetDecodingCode q = Inr (True, p') \<and> pkt_list p' = [0, 0, 0]"
proof -
  let ?p = "pkt_new\<lparr>m_iRear := 3, m_iUsingSize := 3\<rparr>"
  have "pkt_wf ?p" "m_iFront ?p = 0" "\<not> m_bIsEncoded ?p"
    by (simp_all add: pkt_wf_def pkt_new_def pkt_buf_def pkt_consts)
  moreover have "pkt_list ?p = [0, 0, 0]"
    by (simp add: pkt_list_def pkt_new_def pkt_buf_def pkt_consts numeral_3_eq_3)
  ultimately show ?thesis using pkt_encode_decode [of ?p 1000] by auto
qed

text \<open>
  For every key the two loops, run in 32-bit arithmetic on sign-extended characters, are
  inverse to each other and keep the length, so the receiver's plain text is the only one
  the cipher text can stand for.
\<close>

theorem codec_loops_inverse:
  "decode_loop key 0 0 0 (encode_loop key 0 0 0 cs) = cs \<and>
   encode_loop key 0 0 0 (decode_loop key 0 0 0 cs) = cs \<and>
   length (encode_loop key 0 0 0 cs) = length cs"
  by (simp add: encode_loop_ref decode_loop_ref decode_encode_ref encode_decode_ref)

text \<open>
  SetEncodingCode does its work once: a second call, as when one response is sent to
  many sessions, leaves the packet as the first call left it.
\<close>

theorem pkt_encode_once:
  "pkt_SetEncodingCode r p = Inr q \<Longrightarrow> pkt_SetEncodingCode r' q = Inr q"
  by (auto simp: pkt_SetEncodingCode_def Let_def andThen_eq_Inr split: if_splits option.splits)

theorem pkt_encode_once_witness:
  "\<exists>q. pkt_SetEncodingCode 7 pkt_new = Inr q \<and> pkt_SetEncodingCode 9 q = Inr q"
proof -
  have "\<not> m_bIsEncoded pkt_new" "m_iFront pkt_new = 0" by (simp_all add: pkt_new_def)
  with pkt_encode_ok [OF pkt_wf_new, of 7] obtain q where "pkt_SetEncodingCode 7 pkt_new = Inr q"
    by (auto simp: pkt_list_new)
  with pkt_encode_once [of 7 pkt_new q 9] show ?thesis by blast
qed

end
