(* ===== verification/FreeList.thy ===== *)
theory FreeList
  imports Prelude
begin

text \<open>
  The lock-free memory pool \<open>CLFFreeList\<close> of CLFFreeList.h, used for packets and players: a
  stack of free blocks whose top is a pointer and a counter, replaced together by a 128-bit
  compare-and-swap. Any number of threads run \<open>Alloc\<close> and \<open>Free\<close>; one step of the model is
  one access to shared memory, so every interleaving the hardware can make is a run.

  Addresses are natural numbers and \<open>0\<close> is the null pointer. The 64-bit counters are
  integers: an unbounded run of the model never reuses a count, and neither does the
  program before \<open>2 ^ 63\<close> operations.
\<close>

section \<open>State\<close>

text \<open>
  The program counter of a thread. The parameters are the locals that are still needed: the
  unique number, the clone of the top (\<open>pTopNode\<close> and \<open>lCount\<close> are read one after the
  other), the pointers read, and the block a thread works on.
\<close>

datatype pc =
    Idle
  | AllocInc int
  | AllocMalloc
  | AllocCount nat
  | AllocConstruct nat
  | AllocUniq
  | AllocReadTop int
  | AllocReadCount int nat
  | AllocReadTop2 int nat int
  | AllocReadNext int nat int nat
  | AllocCas int nat int nat
  | AllocPopped nat
  | FreeUniq nat
  | FreeReadTop int nat
  | FreeReadCount int nat nat
  | FreeReadTop2 int nat nat int
  | FreeLink int nat nat int nat
  | FreeCas int nat nat int
  | FreeDestroy nat
  | FreeDec
  | Crashed

text \<open>
  The members of the pool, the blocks \<open>malloc\<close> has handed out, the blocks whose object is
  constructed, the blocks the clients hold, and the threads.
\<close>

record fl =
  pTopNode :: nat
  lCount :: int
  stpNextBlock :: "nat \<Rightarrow> nat"
  m_lMaxCount :: int
  m_lUseCount :: int
  m_lCount :: int
  m_bUsingPlacementNew :: bool
  blocks :: "nat set"
  constructed :: "nat set"
  held :: "nat set"
  pcs :: "nat \<Rightarrow> pc"

text \<open>
  What decides a step: the thread calls \<open>Alloc\<close>, calls \<open>Free\<close> on a block, \<open>malloc\<close> returns an
  address, or the thread goes on.
\<close>

datatype choice = CallAlloc | CallFree nat | Malloc nat | Go

definition goto :: "nat \<Rightarrow> pc \<Rightarrow> fl \<Rightarrow> fl" where
  "goto t p s = s\<lparr>pcs := (pcs s)(t := p)\<rparr>"

section \<open>Construction and destruction\<close>

text \<open>
  The constructor allocates \<open>iBlockNum\<close> blocks, \<open>addrs\<close> being the addresses \<open>malloc\<close> returns,
  and pushes each on the stack.
\<close>

definition fl_push_new :: "nat \<Rightarrow> fl \<Rightarrow> fl" where
  "fl_push_new a s =
     s\<lparr>stpNextBlock := (stpNextBlock s)(a := pTopNode s), pTopNode := a,
       blocks := insert a (blocks s), constructed := insert a (constructed s)\<rparr>"

definition fl_new :: "nat list \<Rightarrow> bool \<Rightarrow> fl" where
  "fl_new addrs bPlacementNew =
     fold fl_push_new addrs
       \<lparr>pTopNode = 0, lCount = 0, stpNextBlock = (\<lambda>_. 0), m_lMaxCount = int (length addrs),
        m_lUseCount = 0, m_lCount = 0, m_bUsingPlacementNew = bPlacementNew,
        blocks = {}, constructed = {}, held = {}, pcs = (\<lambda>_. Idle)\<rparr>"

text \<open>The destructor pops and frees, at most \<open>m_lMaxCount\<close> times.\<close>

fun fl_destroy_loop :: "nat \<Rightarrow> fl \<Rightarrow> fl" where
  "fl_destroy_loop 0 s = s"
| "fl_destroy_loop (Suc i) s =
     fl_destroy_loop i
       (if pTopNode s \<noteq> 0
        then s\<lparr>pTopNode := stpNextBlock s (pTopNode s), blocks := blocks s - {pTopNode s}\<rparr>
        else s)"

definition fl_destroy :: "fl \<Rightarrow> fl" where
  "fl_destroy s = fl_destroy_loop (nat (m_lMaxCount s)) s"

section \<open>Steps of a thread\<close>

definition cas_ok :: "nat \<Rightarrow> int \<Rightarrow> fl \<Rightarrow> bool" where
  "cas_ok p c s \<longleftrightarrow> pTopNode s = p \<and> lCount s = c"

fun fl_Alloc_step :: "nat \<Rightarrow> choice \<Rightarrow> pc \<Rightarrow> fl \<Rightarrow> fl option" where
  "fl_Alloc_step t CallAlloc Idle s = Some (goto t (AllocInc (m_lMaxCount s)) s)"
| "fl_Alloc_step t Go (AllocInc MaxCount) s =
     (let u = m_lUseCount s + 1
      in Some (goto t (if MaxCount < u then AllocMalloc else AllocUniq) (s\<lparr>m_lUseCount := u\<rparr>)))"
| "fl_Alloc_step t (Malloc a) AllocMalloc s =
     (if a \<noteq> 0 \<and> a \<notin> blocks s then Some (goto t (AllocCount a) (s\<lparr>blocks := insert a (blocks s)\<rparr>))
      else None)"
| "fl_Alloc_step t Go (AllocCount a) s =
     Some (goto t (AllocConstruct a) (s\<lparr>m_lMaxCount := m_lMaxCount s + 1\<rparr>))"
| "fl_Alloc_step t Go (AllocConstruct a) s =
     Some (goto t Idle (s\<lparr>constructed := insert a (constructed s), held := insert a (held s)\<rparr>))"
| "fl_Alloc_step t Go AllocUniq s =
     Some (goto t (AllocReadTop (m_lCount s + 1)) (s\<lparr>m_lCount := m_lCount s + 1\<rparr>))"
| "fl_Alloc_step t Go (AllocReadTop n) s = Some (goto t (AllocReadCount n (pTopNode s)) s)"
| "fl_Alloc_step t Go (AllocReadCount n p) s = Some (goto t (AllocReadTop2 n p (lCount s)) s)"
| "fl_Alloc_step t Go (AllocReadTop2 n p c) s = Some (goto t (AllocReadNext n p c (pTopNode s)) s)"
| "fl_Alloc_step t Go (AllocReadNext n p c q) s =
     (if q = 0 then Some (goto t Crashed s) else Some (goto t (AllocCas n p c (stpNextBlock s q)) s))"
| "fl_Alloc_step t Go (AllocCas n p c x) s =
     (if cas_ok p c s then Some (goto t (AllocPopped p) (s\<lparr>pTopNode := x, lCount := n\<rparr>))
      else Some (goto t (AllocReadTop n) s))"
| "fl_Alloc_step t Go (AllocPopped a) s =
     Some (goto t Idle
       (s\<lparr>constructed := (if m_bUsingPlacementNew s then insert a (constructed s) else constructed s),
          held := insert a (held s)\<rparr>))"
| "fl_Alloc_step t ch p s = None"

fun fl_Free_step :: "nat \<Rightarrow> choice \<Rightarrow> pc \<Rightarrow> fl \<Rightarrow> fl option" where
  "fl_Free_step t (CallFree b) Idle s =
     (if b \<in> held s then Some (goto t (FreeUniq b) (s\<lparr>held := held s - {b}\<rparr>)) else None)"
| "fl_Free_step t Go (FreeUniq b) s =
     Some (goto t (FreeReadTop (m_lCount s + 1) b) (s\<lparr>m_lCount := m_lCount s + 1\<rparr>))"
| "fl_Free_step t Go (FreeReadTop n b) s = Some (goto t (FreeReadCount n b (pTopNode s)) s)"
| "fl_Free_step t Go (FreeReadCount n b p) s = Some (goto t (FreeReadTop2 n b p (lCount s)) s)"
| "fl_Free_step t Go (FreeReadTop2 n b p c) s = Some (goto t (FreeLink n b p c (pTopNode s)) s)"
| "fl_Free_step t Go (FreeLink n b p c q) s =
     Some (goto t (FreeCas n b p c) (s\<lparr>stpNextBlock := (stpNextBlock s)(b := q)\<rparr>))"
| "fl_Free_step t Go (FreeCas n b p c) s =
     (if cas_ok p c s then Some (goto t (FreeDestroy b) (s\<lparr>pTopNode := b, lCount := n\<rparr>))
      else Some (goto t (FreeReadTop n b) s))"
| "fl_Free_step t Go (FreeDestroy b) s =
     Some (goto t FreeDec
       (s\<lparr>constructed := (if m_bUsingPlacementNew s then constructed s - {b} else constructed s)\<rparr>))"
| "fl_Free_step t Go FreeDec s = Some (goto t Idle (s\<lparr>m_lUseCount := m_lUseCount s - 1\<rparr>))"
| "fl_Free_step t ch p s = None"

definition fl_step :: "nat \<Rightarrow> choice \<Rightarrow> fl \<Rightarrow> fl option" where
  "fl_step t ch s =
     (case fl_Alloc_step t ch (pcs s t) s of
        Some s' \<Rightarrow> Some s'
      | None \<Rightarrow> fl_Free_step t ch (pcs s t) s)"

inductive fl_reachable :: "nat list \<Rightarrow> bool \<Rightarrow> fl \<Rightarrow> bool" for addrs pn where
  start: "fl_reachable addrs pn (fl_new addrs pn)"
| step: "fl_reachable addrs pn s \<Longrightarrow> fl_step t ch s = Some s' \<Longrightarrow> fl_reachable addrs pn s'"

section \<open>The stack and who owns a block\<close>

primrec chain :: "(nat \<Rightarrow> nat) \<Rightarrow> nat \<Rightarrow> nat list \<Rightarrow> bool" where
  "chain nx p [] \<longleftrightarrow> p = 0"
| "chain nx p (a # as) \<longleftrightarrow> p = a \<and> a \<noteq> 0 \<and> chain nx (nx a) as"

lemma chain_frame: "b \<notin> set as \<Longrightarrow> chain (nx(b := v)) p as = chain nx p as"
  by (induction as arbitrary: p) auto

lemma chain_unique: "chain nx p as \<Longrightarrow> chain nx p bs \<Longrightarrow> as = bs"
proof (induction as arbitrary: p bs)
  case Nil
  then show ?case by (cases bs) auto
next
  case (Cons a as)
  then show ?case by (cases bs) auto
qed

text \<open>The block a thread works on, its unique number, and the count it has cloned.\<close>

fun own :: "pc \<Rightarrow> nat set" where
  "own (AllocCount a) = {a}"
| "own (AllocConstruct a) = {a}"
| "own (AllocPopped a) = {a}"
| "own (FreeUniq b) = {b}"
| "own (FreeReadTop n b) = {b}"
| "own (FreeReadCount n b p) = {b}"
| "own (FreeReadTop2 n b p c) = {b}"
| "own (FreeLink n b p c q) = {b}"
| "own (FreeCas n b p c) = {b}"
| "own _ = {}"

fun uniq :: "pc \<Rightarrow> int set" where
  "uniq (AllocReadTop n) = {n}"
| "uniq (AllocReadCount n p) = {n}"
| "uniq (AllocReadTop2 n p c) = {n}"
| "uniq (AllocReadNext n p c q) = {n}"
| "uniq (AllocCas n p c x) = {n}"
| "uniq (FreeReadTop n b) = {n}"
| "uniq (FreeReadCount n b p) = {n}"
| "uniq (FreeReadTop2 n b p c) = {n}"
| "uniq (FreeLink n b p c q) = {n}"
| "uniq (FreeCas n b p c) = {n}"
| "uniq _ = {}"

fun clone :: "pc \<Rightarrow> int set" where
  "clone (AllocReadTop2 n p c) = {c}"
| "clone (AllocReadNext n p c q) = {c}"
| "clone (AllocCas n p c x) = {c}"
| "clone (FreeReadTop2 n b p c) = {c}"
| "clone (FreeLink n b p c q) = {c}"
| "clone (FreeCas n b p c) = {c}"
| "clone _ = {}"

section \<open>Counting threads\<close>

definition cnt :: "(pc \<Rightarrow> bool) \<Rightarrow> (nat \<Rightarrow> pc) \<Rightarrow> int" where
  "cnt P f = int (card {t. P (f t)})"

definition active_finite :: "(nat \<Rightarrow> pc) \<Rightarrow> bool" where
  "active_finite f \<longleftrightarrow> finite {t. f t \<noteq> Idle}"

lemma active_finite_upd: "active_finite f \<Longrightarrow> active_finite (f(t := p))"
proof -
  assume "active_finite f"
  moreover have "{u. (f(t := p)) u \<noteq> Idle} \<subseteq> insert t {u. f u \<noteq> Idle}" by auto
  ultimately show ?thesis unfolding active_finite_def by (meson finite_insert finite_subset)
qed

lemma finite_where: "active_finite f \<Longrightarrow> \<not> P Idle \<Longrightarrow> finite {t. P (f t)}"
  unfolding active_finite_def by (rule finite_subset [rotated]) auto

lemma cnt_upd:
  assumes "active_finite f" and "\<not> P Idle"
  shows "cnt P (f(t := p)) = cnt P f - of_bool (P (f t)) + of_bool (P p)"
proof -
  have fin: "finite {u. P (f u)}" using assms by (rule finite_where)
  have eq: "{u. P ((f(t := p)) u)} = (if P p then insert t {u. P (f u)} else {u. P (f u)} - {t})"
    by auto
  have pos: "P (f t) \<Longrightarrow> 0 < card {u. P (f u)}" using fin by (auto simp: card_gt_0_iff)
  show ?thesis
    unfolding cnt_def eq using fin pos
    by (auto simp: card_insert_if card_Diff_singleton_if of_nat_diff Suc_le_eq)
qed

lemma cnt_pos: "active_finite f \<Longrightarrow> \<not> P Idle \<Longrightarrow> P (f t) \<Longrightarrow> 1 \<le> cnt P f"
  using finite_where [of f P] by (auto simp: cnt_def Suc_le_eq card_gt_0_iff)

lemma cnt_nonneg [simp]: "0 \<le> cnt P f"
  by (simp add: cnt_def)

lemma card_remove: "finite A \<Longrightarrow> a \<in> A \<Longrightarrow> int (card (A - {a})) = int (card A) - 1"
  using card_gt_0_iff [of A] by (auto simp: card_Diff_singleton of_nat_diff Suc_le_eq)

lemma length_tail: "ns \<noteq> [] \<Longrightarrow> int (length (tl ns)) = int (length ns) - 1"
  by (cases ns) auto

text \<open>
  Threads between the two updates of \<open>m_lUseCount\<close>, threads that own a block counted in
  \<open>m_lMaxCount\<close>, and threads committed to popping a block.
\<close>

fun in_use :: "pc \<Rightarrow> bool" where
  "in_use Idle = False"
| "in_use (AllocInc m) = False"
| "in_use Crashed = False"
| "in_use _ = True"

fun owns_counted :: "pc \<Rightarrow> bool" where
  "owns_counted (AllocCount a) = False"
| "owns_counted p = (own p \<noteq> {})"

fun popping :: "pc \<Rightarrow> bool" where
  "popping AllocUniq = True"
| "popping (AllocReadTop n) = True"
| "popping (AllocReadCount n p) = True"
| "popping (AllocReadTop2 n p c) = True"
| "popping (AllocReadNext n p c q) = True"
| "popping (AllocCas n p c x) = True"
| "popping _ = False"

section \<open>The invariant\<close>

definition own_ok :: "nat list \<Rightarrow> nat set \<Rightarrow> nat set \<Rightarrow> (nat \<Rightarrow> pc) \<Rightarrow> bool" where
  "own_ok ns bl hl f \<longleftrightarrow>
     distinct ns \<and> 0 \<notin> bl \<and> set ns \<subseteq> bl \<and> hl \<subseteq> bl \<and> set ns \<inter> hl = {} \<and>
     (\<forall>t a. a \<in> own (f t) \<longrightarrow> a \<in> bl \<and> a \<notin> set ns \<and> a \<notin> hl) \<and>
     (\<forall>t u a. a \<in> own (f t) \<longrightarrow> a \<in> own (f u) \<longrightarrow> t = u)"

definition inv_own :: "nat list \<Rightarrow> fl \<Rightarrow> bool" where
  "inv_own ns s \<longleftrightarrow>
     chain (stpNextBlock s) (pTopNode s) ns \<and> own_ok ns (blocks s) (held s) (pcs s)"

text \<open>
  A block moves between its places one step at a time: from \<open>malloc\<close> to a thread, from a
  thread to the clients and back, from a thread to the stack and back.
\<close>

lemma own_keep: "own_ok ns bl hl f \<Longrightarrow> own p \<subseteq> own (f t) \<Longrightarrow> own_ok ns bl hl (f(t := p))"
  unfolding own_ok_def by (auto split: if_splits)

lemma own_malloc:
  "own_ok ns bl hl f \<Longrightarrow> own p = {a} \<Longrightarrow> a \<notin> bl \<Longrightarrow> a \<noteq> 0 \<Longrightarrow>
   own_ok ns (insert a bl) hl (f(t := p))"
  unfolding own_ok_def by (auto split: if_splits)

lemma own_hand_out:
  "own_ok ns bl hl f \<Longrightarrow> a \<in> own (f t) \<Longrightarrow> own p = {} \<Longrightarrow> own_ok ns bl (insert a hl) (f(t := p))"
  unfolding own_ok_def by (auto split: if_splits)

lemma own_take_back:
  "own_ok ns bl hl f \<Longrightarrow> b \<in> hl \<Longrightarrow> own p = {b} \<Longrightarrow> own_ok ns bl (hl - {b}) (f(t := p))"
  unfolding own_ok_def by (auto split: if_splits)

lemma own_pop:
  "own_ok ns bl hl f \<Longrightarrow> ns \<noteq> [] \<Longrightarrow> own p = {hd ns} \<Longrightarrow> own_ok (tl ns) bl hl (f(t := p))"
  unfolding own_ok_def by (cases ns) (auto split: if_splits)

lemma chain_tl: "chain nx p ns \<Longrightarrow> ns \<noteq> [] \<Longrightarrow> chain nx (nx p) (tl ns) \<and> hd ns = p"
  by (cases ns) auto

lemma own_push:
  "own_ok ns bl hl f \<Longrightarrow> b \<in> own (f t) \<Longrightarrow> own p = {} \<Longrightarrow> own_ok (b # ns) bl hl (f(t := p))"
  unfolding own_ok_def by (auto split: if_splits)

definition num_ok :: "int \<Rightarrow> int \<Rightarrow> (nat \<Rightarrow> pc) \<Rightarrow> bool" where
  "num_ok lc mc f \<longleftrightarrow>
     lc \<le> mc \<and>
     (\<forall>t. \<forall>n \<in> uniq (f t). n \<le> mc \<and> n \<noteq> lc) \<and>
     (\<forall>t. \<forall>c \<in> clone (f t). c \<le> mc) \<and>
     (\<forall>t u. t \<noteq> u \<longrightarrow> uniq (f t) \<inter> uniq (f u) = {}) \<and>
     (\<forall>t u. clone (f t) \<inter> uniq (f u) = {})"

definition inv_num :: "fl \<Rightarrow> bool" where
  "inv_num s \<longleftrightarrow> num_ok (lCount s) (m_lCount s) (pcs s)"

text \<open>
  A thread keeps its unique number and clones at most the present count; it takes a fresh
  unique number; or its unique number becomes the count of the top.
\<close>

lemma num_keep:
  assumes f: "num_ok lc mc f" and p: "uniq p \<subseteq> uniq (f t)" "clone p \<subseteq> insert lc (clone (f t))"
  shows "num_ok lc mc (f(t := p))"
proof -
  have u: "uniq ((f(t := p)) v) \<subseteq> uniq (f v)" for v using p by auto
  have c: "clone ((f(t := p)) v) \<subseteq> insert lc (clone (f v))" for v using p by auto
  have lc: "lc \<le> mc" "lc \<notin> uniq (f v)" for v using f by (auto simp: num_ok_def)
  show ?thesis unfolding num_ok_def
  proof (intro conjI allI ballI impI)
    fix v n assume "n \<in> uniq ((f(t := p)) v)"
    then have "n \<in> uniq (f v)" using u by blast
    then show "n \<le> mc" "n \<noteq> lc" using f by (auto simp: num_ok_def)
  next
    fix v n assume "n \<in> clone ((f(t := p)) v)"
    then have "n = lc \<or> n \<in> clone (f v)" using c by blast
    then show "n \<le> mc" using f by (auto simp: num_ok_def)
  next
    fix v w :: nat assume "v \<noteq> w"
    then have "uniq (f v) \<inter> uniq (f w) = {}" using f by (simp add: num_ok_def)
    then show "uniq ((f(t := p)) v) \<inter> uniq ((f(t := p)) w) = {}" using u [of v] u [of w] by blast
  next
    fix v w
    have "clone (f v) \<inter> uniq (f w) = {}" using f by (simp add: num_ok_def)
    then show "clone ((f(t := p)) v) \<inter> uniq ((f(t := p)) w) = {}"
      using u [of w] c [of v] lc(2) [of w] by blast
  qed (rule lc(1))
qed

lemma num_fresh:
  assumes f: "num_ok lc mc f" and p: "uniq p \<subseteq> {mc + 1}" "clone p = {}"
  shows "num_ok lc (mc + 1) (f(t := p))"
proof -
  have u: "uniq ((f(t := p)) v) \<subseteq> (if v = t then {mc + 1} else uniq (f v))" for v using p by auto
  have c: "clone ((f(t := p)) v) \<subseteq> clone (f v)" for v using p by auto
  have old: "n \<in> uniq (f v) \<or> n \<in> clone (f v) \<Longrightarrow> n \<le> mc" for n v using f by (auto simp: num_ok_def)
  show ?thesis unfolding num_ok_def
  proof (intro conjI allI ballI impI)
    show "lc \<le> mc + 1" using f by (simp add: num_ok_def)
    fix v n assume "n \<in> uniq ((f(t := p)) v)"
    then have "n = mc + 1 \<or> n \<in> uniq (f v)" using u [of v] by (auto split: if_splits)
    then have "n = mc + 1 \<or> n \<in> uniq (f v) \<and> n \<le> mc" using old [of n v] by blast
    then show "n \<le> mc + 1" "n \<noteq> lc" using f by (auto simp: num_ok_def)
  next
    fix v n assume "n \<in> clone ((f(t := p)) v)"
    then show "n \<le> mc + 1" using c [of v] old [of n v] by fastforce
  next
    fix v w :: nat assume "v \<noteq> w"
    then show "uniq ((f(t := p)) v) \<inter> uniq ((f(t := p)) w) = {}"
      using u [of v] u [of w] f old [of _ v] old [of _ w] by (fastforce simp: num_ok_def split: if_splits)
  next
    fix v w show "clone ((f(t := p)) v) \<inter> uniq ((f(t := p)) w) = {}"
      using u [of w] c [of v] f old [of _ v] by (fastforce simp: num_ok_def split: if_splits)
  qed
qed

lemma num_commit:
  assumes f: "num_ok lc mc f" and p: "uniq p = {}" "clone p = {}" and n: "n \<in> uniq (f t)"
  shows "num_ok n mc (f(t := p))"
  using assms unfolding num_ok_def
  by (auto simp: disjoint_iff)

fun rd :: "pc \<Rightarrow> fl \<Rightarrow> bool" where
  "rd (AllocInc m) s \<longleftrightarrow> m \<le> m_lMaxCount s"
| "rd (AllocReadNext n p c q) s \<longleftrightarrow> q \<noteq> 0 \<and> (lCount s = c \<longrightarrow> q = pTopNode s)"
| "rd (AllocCas n p c x) s \<longleftrightarrow> (lCount s = c \<longrightarrow> x = stpNextBlock s (pTopNode s))"
| "rd (FreeLink n b p c q) s \<longleftrightarrow> (lCount s = c \<longrightarrow> q = pTopNode s)"
| "rd (FreeCas n b p c) s \<longleftrightarrow> (lCount s = c \<longrightarrow> stpNextBlock s b = pTopNode s)"
| "rd Crashed s \<longleftrightarrow> False"
| "rd _ s \<longleftrightarrow> True"

definition inv_cnt :: "nat list \<Rightarrow> fl \<Rightarrow> bool" where
  "inv_cnt ns s \<longleftrightarrow>
     active_finite (pcs s) \<and> finite (held s) \<and>
     m_lUseCount s = int (card (held s)) + cnt in_use (pcs s) \<and>
     m_lMaxCount s = int (length ns) + int (card (held s)) + cnt owns_counted (pcs s) \<and>
     cnt popping (pcs s) \<le> int (length ns)"

definition fl_inv :: "nat list \<Rightarrow> fl \<Rightarrow> bool" where
  "fl_inv ns s \<longleftrightarrow> inv_own ns s \<and> inv_num s \<and> (\<forall>t. rd (pcs s t) s) \<and> inv_cnt ns s"

text \<open>The stack after a step: only a successful compare-and-swap changes it.\<close>

fun stack_after :: "pc \<Rightarrow> fl \<Rightarrow> nat list \<Rightarrow> nat list" where
  "stack_after (AllocCas n p c x) s ns = (if cas_ok p c s then tl ns else ns)"
| "stack_after (FreeCas n b p c) s ns = (if cas_ok p c s then b # ns else ns)"
| "stack_after _ s ns = ns"

lemma popping_stack:
  assumes "fl_inv ns s" and "popping (pcs s t)"
  shows "\<exists>ns'. ns = pTopNode s # ns' \<and> pTopNode s \<noteq> 0"
proof -
  from assms have "1 \<le> cnt popping (pcs s)" by (intro cnt_pos) (auto simp: fl_inv_def inv_cnt_def)
  with assms have "1 \<le> int (length ns)" by (auto simp: fl_inv_def inv_cnt_def)
  then show ?thesis using assms by (cases ns) (auto simp: fl_inv_def inv_own_def)
qed

text \<open>
  At most as many threads wait in \<open>popping\<close> as there are blocks: the thread that would be
  one too many has read a maximum below its own use count and takes a new block instead.
\<close>

lemma owns_le_in_use: "active_finite f \<Longrightarrow> cnt owns_counted f + cnt popping f \<le> cnt in_use f"
proof -
  assume f: "active_finite f"
  have "card ({t. owns_counted (f t)} \<union> {t. popping (f t)}) \<le> card {t. in_use (f t)}"
  proof (rule card_mono [OF finite_where [OF f]])
    show "{t. owns_counted (f t)} \<union> {t. popping (f t)} \<subseteq> {t. in_use (f t)}"
    proof
      fix t assume "t \<in> {t. owns_counted (f t)} \<union> {t. popping (f t)}"
      then show "t \<in> {t. in_use (f t)}" by (cases "f t") auto
    qed
  qed simp
  moreover have "card ({t. owns_counted (f t)} \<union> {t. popping (f t)}) =
      card {t. owns_counted (f t)} + card {t. popping (f t)}"
  proof (rule card_Un_disjoint)
    show "{t. owns_counted (f t)} \<inter> {t. popping (f t)} = {}"
    proof (rule ccontr)
      assume "{t. owns_counted (f t)} \<inter> {t. popping (f t)} \<noteq> {}"
      then obtain t where "owns_counted (f t)" "popping (f t)" by auto
      then show False by (cases "f t") auto
    qed
  qed (auto intro: finite_where [OF f])
  ultimately show ?thesis by (simp add: cnt_def)
qed

lemma step_cnt:
  assumes inv: "fl_inv ns s" and step: "fl_step t ch s = Some s'"
  shows "inv_cnt (stack_after (pcs s t) s ns) s'"
proof -
  have fin: "active_finite (pcs s)" "finite (held s)" using inv by (auto simp: fl_inv_def inv_cnt_def)
  have rd: "rd (pcs s t) s" using inv by (simp add: fl_inv_def)
  have own: "\<forall>a \<in> own (pcs s t). a \<notin> held s" using inv by (auto simp: fl_inv_def inv_own_def own_ok_def)
  have pop: "popping (pcs s t) \<Longrightarrow> 0 < length ns" using popping_stack [OF inv, of t] by auto
  note cu = cnt_upd [OF fin(1), of in_use] cnt_upd [OF fin(1), of owns_counted] cnt_upd [OF fin(1), of popping]
  note defs = inv_cnt_def fl_step_def goto_def Let_def cas_ok_def
  have c: "inv_cnt ns s" using inv by (simp add: fl_inv_def)
  show ?thesis
    using step c rd own pop fin owns_le_in_use [OF fin(1)]
    by (cases "pcs s t"; cases ch)
      (auto simp: defs cu active_finite_upd card_insert_if card_remove length_tail
        simp del: length_tl card_Diff_insert split: if_splits)
qed


lemma step_num:
  assumes inv: "fl_inv ns s" and step: "fl_step t ch s = Some s'"
  shows "inv_num s'"
proof -
  have n: "num_ok (lCount s) (m_lCount s) (pcs s)" using inv by (simp add: fl_inv_def inv_num_def)
  show ?thesis
    using step
    by (cases "pcs s t"; cases ch)
      (auto simp: inv_num_def fl_step_def goto_def Let_def cas_ok_def split: if_splits
        intro!: num_keep [OF n] num_fresh [OF n] num_commit [OF n])
qed


lemma step_own:
  assumes inv: "fl_inv ns s" and step: "fl_step t ch s = Some s'"
  shows "inv_own (stack_after (pcs s t) s ns) s'"
proof -
  have ch: "chain (stpNextBlock s) (pTopNode s) ns" and o: "own_ok ns (blocks s) (held s) (pcs s)"
    and rd: "rd (pcs s t) s"
    using inv by (auto simp: fl_inv_def inv_own_def)
  have pop: "popping (pcs s t) \<Longrightarrow> ns \<noteq> []" using popping_stack [OF inv] by blast
  have tl: "chain (stpNextBlock s) (stpNextBlock s (pTopNode s)) (tl ns)" "pTopNode s = hd ns" if "ns \<noteq> []"
    using chain_tl [OF ch that] by auto
  have link: "chain ((stpNextBlock s)(b := q)) (pTopNode s) ns" if "b \<in> own (pcs s t)" for b q
    using that ch o by (subst chain_frame) (auto simp: own_ok_def)
  have nz: "b \<in> own (pcs s t) \<Longrightarrow> b \<noteq> 0" for b using o unfolding own_ok_def by metis
  show ?thesis
    using step rd ch pop nz tl
    by (cases "pcs s t"; cases ch)
      (auto simp: inv_own_def fl_step_def goto_def Let_def cas_ok_def link split: if_splits
        intro!: own_keep [OF o] own_malloc [OF o] own_hand_out [OF o] own_take_back [OF o] own_push [OF o]
          own_pop [OF o])
qed


lemma rd_frame:
  assumes "rd p s" and "m_lMaxCount s \<le> m_lMaxCount s'"
    and "lCount s' \<notin> clone p \<or> lCount s' = lCount s \<and> pTopNode s' = pTopNode s \<and>
      stpNextBlock s' (pTopNode s) = stpNextBlock s (pTopNode s) \<and>
      (\<forall>a \<in> own p. stpNextBlock s' a = stpNextBlock s a)"
  shows "rd p s'"
  using assms by (cases p) auto

lemma step_frame:
  assumes inv: "fl_inv ns s" and step: "fl_step t ch s = Some s'" and u: "u \<noteq> t"
  shows "m_lMaxCount s \<le> m_lMaxCount s' \<and> pcs s' u = pcs s u \<and>
    (lCount s' \<in> uniq (pcs s t) \<or> lCount s' = lCount s \<and> pTopNode s' = pTopNode s \<and>
      stpNextBlock s' (pTopNode s) = stpNextBlock s (pTopNode s) \<and>
      (\<forall>a \<in> own (pcs s u). stpNextBlock s' a = stpNextBlock s a))"
proof -
  have o: "own_ok ns (blocks s) (held s) (pcs s)" and ch: "chain (stpNextBlock s) (pTopNode s) ns"
    using inv by (auto simp: fl_inv_def inv_own_def)
  have "pTopNode s = 0 \<or> pTopNode s \<in> set ns" using ch by (cases ns) auto
  then have top: "a \<in> own (pcs s t) \<Longrightarrow> pTopNode s \<noteq> a" for a using o unfolding own_ok_def by metis
  have other: "a \<in> own (pcs s t) \<Longrightarrow> a \<notin> own (pcs s u)" for a using o u unfolding own_ok_def by blast
  show ?thesis
    using step top other u
    by (cases "pcs s t"; cases ch)
      (auto simp: fl_step_def goto_def Let_def cas_ok_def split: if_splits)
qed

lemma step_rd:
  assumes inv: "fl_inv ns s" and step: "fl_step t ch s = Some s'"
  shows "rd (pcs s' u) s'"
proof (cases "u = t")
  case True
  have "rd (pcs s t) s" using inv by (simp add: fl_inv_def)
  moreover have "popping (pcs s t) \<Longrightarrow> pTopNode s \<noteq> 0" using popping_stack [OF inv] by blast
  ultimately show ?thesis
    using step True
    by (cases "pcs s t"; cases ch)
      (auto simp: fl_step_def goto_def Let_def cas_ok_def split: if_splits)
next
  case False
  have "clone (pcs s u) \<inter> uniq (pcs s t) = {}" "rd (pcs s u) s"
    using inv by (auto simp: fl_inv_def inv_num_def num_ok_def)
  with step_frame [OF inv step False] rd_frame [of "pcs s u" s s'] show ?thesis by auto
qed

lemma fl_inv_step:
  assumes "fl_inv ns s" and "fl_step t ch s = Some s'"
  shows "fl_inv (stack_after (pcs s t) s ns) s'"
  using step_own [OF assms] step_num [OF assms] step_rd [OF assms] step_cnt [OF assms]
  by (simp add: fl_inv_def)

lemma fl_inv_new:
  assumes "distinct addrs" and "0 \<notin> set addrs"
  shows "fl_inv (rev addrs) (fl_new addrs pn)"
proof -
  define s0 where "s0 = \<lparr>pTopNode = 0, lCount = 0, stpNextBlock = (\<lambda>_. 0), m_lMaxCount = int (length addrs),
        m_lUseCount = 0, m_lCount = 0, m_bUsingPlacementNew = pn,
        blocks = {}, constructed = {}, held = {}, pcs = (\<lambda>_. Idle)\<rparr>"
  have "chain (stpNextBlock (fold fl_push_new as s0)) (pTopNode (fold fl_push_new as s0)) (rev as) \<and>
      blocks (fold fl_push_new as s0) = set as \<and> pcs (fold fl_push_new as s0) = (\<lambda>_. Idle) \<and>
      held (fold fl_push_new as s0) = {} \<and> lCount (fold fl_push_new as s0) = 0 \<and>
      m_lCount (fold fl_push_new as s0) = 0 \<and> m_lUseCount (fold fl_push_new as s0) = 0 \<and>
      m_lMaxCount (fold fl_push_new as s0) = int (length addrs)"
    if "distinct as" "0 \<notin> set as" for as
    using that
  proof (induction as rule: rev_induct)
    case (snoc a as)
    then show ?case
      by (simp add: fl_push_new_def [of a "fold fl_push_new as s0"] chain_frame [unfolded fun_upd_def]
          chain_frame)
  qed (simp add: s0_def)
  from this [OF assms] assms show ?thesis
    by (simp add: fl_inv_def inv_own_def own_ok_def inv_num_def num_ok_def inv_cnt_def active_finite_def
        cnt_def fl_new_def s0_def [symmetric])
qed

lemma reachable_inv:
  assumes "fl_reachable addrs pn s" and "distinct addrs" and "0 \<notin> set addrs"
  shows "\<exists>ns. fl_inv ns s"
  using assms(1)
proof (induction rule: fl_reachable.induct)
  case start
  then show ?case using fl_inv_new [OF assms(2,3)] by blast
next
  case (step s t ch s')
  then show ?case using fl_inv_step by blast
qed

section \<open>Properties of the pool\<close>

text \<open>
  However the threads interleave, no thread ever follows the null top of an empty stack:
  a thread that decides to pop always finds a block, because the counters let in at most
  as many poppers as there are blocks.
\<close>

theorem fl_never_null:
  assumes "fl_reachable addrs pn s" and "distinct addrs" and "0 \<notin> set addrs"
  shows "pcs s t \<noteq> Crashed \<and> (popping (pcs s t) \<longrightarrow> pTopNode s \<noteq> 0)"
proof -
  from reachable_inv [OF assms] obtain ns where ns: "fl_inv ns s" by blast
  then have "rd (pcs s t) s" by (simp add: fl_inv_def)
  then show ?thesis using popping_stack [OF ns, of t] by (cases "pcs s t") auto
qed

fun fl_run :: "nat \<Rightarrow> choice list \<Rightarrow> fl \<Rightarrow> fl option" where
  "fl_run t [] s = Some s"
| "fl_run t (ch # chs) s = (case fl_step t ch s of None \<Rightarrow> None | Some s' \<Rightarrow> fl_run t chs s')"

lemma fl_run_reachable:
  "fl_reachable addrs pn s \<Longrightarrow> fl_run t chs s = Some s' \<Longrightarrow> fl_reachable addrs pn s'"
  by (induction chs arbitrary: s) (auto split: option.splits intro: fl_reachable.step)

theorem fl_never_null_witness:
  "\<exists>s. fl_run 4 [CallAlloc, Go, Go] (fl_new [10, 20] False) = Some s \<and>
     popping (pcs s 4) \<and> pTopNode s \<noteq> 0"
proof -
  obtain s where s: "fl_run 4 [CallAlloc, Go, Go] (fl_new [10, 20] False) = Some s" "popping (pcs s 4)"
    by (simp add: fl_new_def fl_push_new_def fl_step_def goto_def)
  have "fl_reachable [10, 20] False s" by (rule fl_run_reachable [OF fl_reachable.start s(1)])
  from fl_never_null [OF this, of 4] s show ?thesis by auto
qed

text \<open>
  C10. A block that Alloc hands out, popped or new, is held by no client, on no stack and in
  the hands of no other thread: no two clients ever share a block.
\<close>

theorem fl_alloc_exclusive:
  assumes "fl_reachable addrs pn s" and "distinct addrs" and "0 \<notin> set addrs"
    and "pcs s t = AllocPopped a \<or> pcs s t = AllocConstruct a" and "fl_step t Go s = Some s'"
  shows "held s' = insert a (held s) \<and> a \<notin> held s \<and> a \<noteq> 0 \<and>
    (\<forall>u. u \<noteq> t \<longrightarrow> a \<notin> own (pcs s u)) \<and>
    (\<exists>ns. chain (stpNextBlock s') (pTopNode s') ns \<and> a \<notin> set ns)"
proof -
  from reachable_inv [OF assms(1-3)] obtain ns where
    o: "own_ok ns (blocks s) (held s) (pcs s)" and ch: "chain (stpNextBlock s) (pTopNode s) ns"
    by (auto simp: fl_inv_def inv_own_def)
  have a: "a \<in> own (pcs s t)" using assms(4) by auto
  then have "a \<noteq> 0 \<and> a \<notin> held s \<and> a \<notin> set ns \<and> (\<forall>u. u \<noteq> t \<longrightarrow> a \<notin> own (pcs s u))"
    using o unfolding own_ok_def by metis
  with assms(4,5) ch show ?thesis by (auto simp: fl_step_def goto_def intro!: exI [of _ ns])
qed

theorem fl_alloc_exclusive_witness:
  "\<exists>s s'. fl_run 4 [CallAlloc, Go, Go, Go, Go, Go, Go, Go] (fl_new [10, 20] False) = Some s \<and>
     fl_step 4 Go s = Some s' \<and> held s' = {20} \<and> 20 \<notin> held s"
proof -
  obtain s where s: "fl_run 4 [CallAlloc, Go, Go, Go, Go, Go, Go, Go] (fl_new [10, 20] False) = Some s"
      "pcs s 4 = AllocPopped 20" "held s = {}"
    by (simp add: fl_new_def fl_push_new_def fl_step_def goto_def cas_ok_def)
  then obtain s' where s': "fl_step 4 Go s = Some s'" by (simp add: fl_step_def)
  have "fl_reachable [10, 20] False s" by (rule fl_run_reachable [OF fl_reachable.start s(1)])
  from fl_alloc_exclusive [OF this _ _ _ s', of 20] s s' show ?thesis by auto
qed

text \<open>
  C30. Seen from outside the pool is a stack of blocks, and a step changes it in one of two
  ways only: a thread pushes the block it is freeing, or takes the block on top. A
  compare-and-swap that succeeds never works on stale reads, although the top was read in
  three separate accesses and blocks are reused.
\<close>

theorem fl_step_push_pop:
  assumes "fl_reachable addrs pn s" and "distinct addrs" and "0 \<notin> set addrs"
    and "fl_step t ch s = Some s'"
  shows "\<exists>ns ns'. chain (stpNextBlock s) (pTopNode s) ns \<and> chain (stpNextBlock s') (pTopNode s') ns' \<and>
    (ns' = ns \<or> (\<exists>b. own (pcs s t) = {b} \<and> pcs s' t = FreeDestroy b \<and> ns' = b # ns) \<or>
     (\<exists>a. pcs s' t = AllocPopped a \<and> ns = a # ns'))"
proof -
  from reachable_inv [OF assms(1-3)] obtain ns where inv: "fl_inv ns s" by blast
  then have chains: "chain (stpNextBlock s) (pTopNode s) ns"
      "chain (stpNextBlock s') (pTopNode s') (stack_after (pcs s t) s ns)"
    using fl_inv_step [OF inv assms(4)] by (auto simp: fl_inv_def inv_own_def)
  have pop: "popping (pcs s t) \<Longrightarrow> \<exists>ns'. ns = pTopNode s # ns'" using popping_stack [OF inv] by blast
  have "stack_after (pcs s t) s ns = ns \<or>
      (\<exists>b. own (pcs s t) = {b} \<and> pcs s' t = FreeDestroy b \<and> stack_after (pcs s t) s ns = b # ns) \<or>
      (\<exists>a. pcs s' t = AllocPopped a \<and> ns = a # stack_after (pcs s t) s ns)"
    using assms(4) pop
    by (cases "pcs s t"; cases ch) (auto simp: fl_step_def goto_def cas_ok_def split: if_splits)
  with chains show ?thesis by blast
qed

theorem fl_step_push_pop_witness:
  "\<exists>s s' ns ns'. fl_run 4 [CallAlloc, Go, Go, Go, Go, Go, Go] (fl_new [10, 20] False) = Some s \<and>
     fl_step 4 Go s = Some s' \<and> chain (stpNextBlock s) (pTopNode s) ns \<and>
     chain (stpNextBlock s') (pTopNode s') ns'"
proof -
  obtain s s' where s: "fl_run 4 [CallAlloc, Go, Go, Go, Go, Go, Go] (fl_new [10, 20] False) = Some s"
      "fl_step 4 Go s = Some s'"
    by (simp add: fl_new_def fl_push_new_def fl_step_def goto_def cas_ok_def)
  have "fl_reachable [10, 20] False s" by (rule fl_run_reachable [OF fl_reachable.start s(1)])
  from fl_step_push_pop [OF this _ _ s(2)] s show ?thesis by auto
qed

definition fl_GetAllocCount :: "fl \<Rightarrow> int" where
  "fl_GetAllocCount s = m_lMaxCount s"

definition fl_GetUseCount :: "fl \<Rightarrow> int" where
  "fl_GetUseCount s = m_lUseCount s"

lemma cnt_idle: "(\<And>t. f t = Idle) \<Longrightarrow> \<not> P Idle \<Longrightarrow> cnt P f = 0"
  by (simp add: cnt_def)

text \<open>
  When no call is in progress the counters the monitor prints are exact:
  \<open>GetUseCount\<close> is the number of blocks clients hold and \<open>GetAllocCount\<close> adds the blocks on
  the stack.
\<close>

theorem fl_counters_exact:
  assumes "fl_reachable addrs pn s" and "distinct addrs" and "0 \<notin> set addrs" and "\<And>t. pcs s t = Idle"
  shows "fl_GetUseCount s = int (card (held s)) \<and>
    (\<exists>ns. chain (stpNextBlock s) (pTopNode s) ns \<and>
      fl_GetAllocCount s = int (length ns) + int (card (held s)))"
proof -
  from reachable_inv [OF assms(1-3)] obtain ns where "fl_inv ns s" by blast
  with cnt_idle [OF assms(4)] show ?thesis
    by (auto simp: fl_inv_def inv_cnt_def inv_own_def fl_GetUseCount_def fl_GetAllocCount_def)
qed

theorem fl_counters_exact_witness:
  "\<exists>s. fl_run 4 [CallAlloc, Go, Malloc 30, Go, Go] (fl_new [] False) = Some s \<and>
     fl_GetUseCount s = int (card (held s)) \<and> held s = {30}"
proof -
  obtain s where s: "fl_run 4 [CallAlloc, Go, Malloc 30, Go, Go] (fl_new [] False) = Some s"
      "\<And>t. pcs s t = Idle" "held s = {30}"
    by (simp add: fl_new_def fl_push_new_def fl_step_def goto_def)
  have "fl_reachable [] False s" by (rule fl_run_reachable [OF fl_reachable.start s(1)])
  from fl_counters_exact [OF this _ _ s(2)] s show ?thesis by auto
qed

section \<open>A call that runs alone\<close>

text \<open>
  \<open>Alloc\<close> and \<open>Free\<close> as functions: what a call does when no other thread interferes. \<open>a\<close> is
  the address \<open>malloc\<close> returns if it is called; the code does not test it for null.
\<close>

definition fl_Alloc :: "nat \<Rightarrow> fl \<Rightarrow> (nat \<times> fl) res" where
  "fl_Alloc a s =
     (let MaxCount = m_lMaxCount s; u = m_lUseCount s + 1
      in if MaxCount < u
         then if a = 0 then Inl NullPointer
              else Inr (a, s\<lparr>m_lUseCount := u, blocks := insert a (blocks s), m_lMaxCount := m_lMaxCount s + 1,
                             constructed := insert a (constructed s), held := insert a (held s)\<rparr>)
         else if pTopNode s = 0 then Inl NullPointer
              else Inr (pTopNode s,
                s\<lparr>m_lUseCount := u, m_lCount := m_lCount s + 1, lCount := m_lCount s + 1,
                  pTopNode := stpNextBlock s (pTopNode s),
                  constructed := (if m_bUsingPlacementNew s then insert (pTopNode s) (constructed s)
                                  else constructed s),
                  held := insert (pTopNode s) (held s)\<rparr>))"

definition fl_Free :: "nat \<Rightarrow> fl \<Rightarrow> fl" where
  "fl_Free b s =
     s\<lparr>m_lCount := m_lCount s + 1, stpNextBlock := (stpNextBlock s)(b := pTopNode s),
       pTopNode := b, lCount := m_lCount s + 1,
       constructed := (if m_bUsingPlacementNew s then constructed s - {b} else constructed s),
       m_lUseCount := m_lUseCount s - 1, held := held s - {b}\<rparr>"

lemma goto_Idle: "pcs s t = Idle \<Longrightarrow> (pcs s)(t := Idle) = pcs s"
  by (rule fun_upd_idem)

lemma fl_Alloc_run:
  assumes "fl_Alloc a s = Inr (p, s')" and "pcs s t = Idle" and "a \<notin> blocks s"
  shows "\<exists>chs. fl_run t chs s = Some s'"
proof (cases "m_lMaxCount s < m_lUseCount s + 1")
  case True
  then have "fl_run t [CallAlloc, Go, Malloc a, Go, Go] s = Some s'"
    using assms by (auto simp: fl_Alloc_def fl_step_def goto_def Let_def goto_Idle split: if_splits)
  then show ?thesis by blast
next
  case False
  then have "fl_run t [CallAlloc, Go, Go, Go, Go, Go, Go, Go, Go] s = Some s'"
    using assms by (auto simp: fl_Alloc_def fl_step_def goto_def Let_def goto_Idle cas_ok_def split: if_splits)
  then show ?thesis by blast
qed

lemma fl_Free_run:
  assumes "b \<in> held s" and "pcs s t = Idle"
  shows "\<exists>chs. fl_run t chs s = Some (fl_Free b s)"
proof -
  have "fl_run t [CallFree b, Go, Go, Go, Go, Go, Go, Go, Go] s = Some (fl_Free b s)"
    using assms by (auto simp: fl_Free_def fl_step_def goto_def goto_Idle cas_ok_def)
  then show ?thesis by blast
qed

text \<open>
  Alloc and Free, run without interference from any state other threads may have left,
  are runs of the step model: the functions the rest of the server is modelled with are
  the code's own steps.
\<close>

lemma fl_calls_are_runs:
  assumes "pcs s t = Idle"
  shows "(fl_Alloc a s = Inr (p, s1) \<and> a \<notin> blocks s \<longrightarrow> (\<exists>chs. fl_run t chs s = Some s1)) \<and>
    (b \<in> held s \<longrightarrow> (\<exists>chs. fl_run t chs s = Some (fl_Free b s)))"
  using fl_Alloc_run [OF _ assms] fl_Free_run [OF _ assms] by blast

section \<open>Object pools\<close>

text \<open>
  What the users of a pool rely on: \<open>alloc\<close> hands out an object that is not in use, \<open>free\<close>
  takes one back, and nothing else changes.
\<close>

locale object_pool =
  fixes inv :: "'s \<Rightarrow> bool"
    and live :: "'s \<Rightarrow> nat set"
    and mapped :: "'s \<Rightarrow> nat set"
    and alloc :: "nat \<Rightarrow> 's \<Rightarrow> (nat \<times> 's) res"
    and free :: "nat \<Rightarrow> 's \<Rightarrow> 's"
  assumes alloc_ok: "inv s \<Longrightarrow> a \<noteq> 0 \<Longrightarrow> a \<notin> mapped s \<Longrightarrow>
      \<exists>p s'. alloc a s = Inr (p, s') \<and> inv s' \<and> p \<noteq> 0 \<and> p \<notin> live s \<and>
        live s' = insert p (live s) \<and> mapped s' \<subseteq> insert a (mapped s)"
    and free_ok: "inv s \<Longrightarrow> p \<in> live s \<Longrightarrow>
      inv (free p s) \<and> live (free p s) = live s - {p} \<and> mapped (free p s) = mapped s"
    and live_mapped: "inv s \<Longrightarrow> live s \<subseteq> mapped s"
begin

text \<open>Taking an object and giving it back leaves the objects in use as they were.\<close>

lemma alloc_free:
  assumes "inv s" and "alloc a s = Inr (p, s')" and "a \<noteq> 0" and "a \<notin> mapped s"
  shows "live (free p s') = live s" and "inv (free p s')"
proof -
  from alloc_ok [OF assms(1,3,4)] assms(2) have s': "inv s'" "p \<notin> live s" "live s' = insert p (live s)"
    by auto
  with free_ok [of s' p] show "live (free p s') = live s" "inv (free p s')" by auto
qed

end

text \<open>The pool between calls: every thread is idle.\<close>

definition fl_quiet :: "fl \<Rightarrow> bool" where
  "fl_quiet s \<longleftrightarrow> (\<exists>ns. fl_inv ns s) \<and> (\<forall>t. pcs s t = Idle)"

lemma fl_inv_run: "fl_inv ns s \<Longrightarrow> fl_run t chs s = Some s' \<Longrightarrow> \<exists>ns'. fl_inv ns' s'"
  by (induction chs arbitrary: ns s) (auto split: option.splits dest: fl_inv_step)

interpretation fl_pool: object_pool fl_quiet held blocks fl_Alloc fl_Free
proof
  fix s a
  assume s: "fl_quiet s" and a: "a \<noteq> 0" "a \<notin> blocks s"
  then obtain ns where ns: "fl_inv ns s" and idle: "\<And>t. pcs s t = Idle" by (auto simp: fl_quiet_def)
  note own = ns [unfolded fl_inv_def inv_own_def own_ok_def]
  have use: "m_lUseCount s = int (card (held s))" "m_lMaxCount s = int (length ns) + int (card (held s))"
    using ns cnt_idle [OF idle] by (auto simp: fl_inv_def inv_cnt_def)
  then have "\<not> m_lMaxCount s < m_lUseCount s + 1 \<Longrightarrow> ns \<noteq> []" by auto
  then have top: "\<not> m_lMaxCount s < m_lUseCount s + 1 \<Longrightarrow> pTopNode s \<noteq> 0 \<and> pTopNode s \<in> set ns"
    using own by (cases ns) auto
  have new: "a \<notin> held s" and popped: "pTopNode s \<in> set ns \<Longrightarrow> pTopNode s \<notin> held s" using own a by auto
  obtain p s' where eq: "fl_Alloc a s = Inr (p, s')"
    using a top by (cases "m_lMaxCount s < m_lUseCount s + 1") (auto simp: fl_Alloc_def Let_def)
  with idle a fl_Alloc_run [OF eq, of 0] fl_inv_run [OF ns] have inv': "\<exists>ns'. fl_inv ns' s'" by blast
  have "p \<noteq> 0 \<and> p \<notin> held s \<and> held s' = insert p (held s) \<and> blocks s' \<subseteq> insert a (blocks s) \<and> pcs s' = pcs s"
    using eq a new popped top by (auto simp: fl_Alloc_def Let_def split: if_splits)
  with eq inv' idle show "\<exists>p s'. fl_Alloc a s = Inr (p, s') \<and> fl_quiet s' \<and> p \<noteq> 0 \<and> p \<notin> held s \<and>
      held s' = insert p (held s) \<and> blocks s' \<subseteq> insert a (blocks s)"
    by (auto simp: fl_quiet_def)
next
  fix s p
  assume s: "fl_quiet s" and p: "p \<in> held s"
  then obtain ns where ns: "fl_inv ns s" and idle: "\<And>t. pcs s t = Idle" by (auto simp: fl_quiet_def)
  from fl_Free_run [OF p idle] fl_inv_run [OF ns] have "\<exists>ns'. fl_inv ns' (fl_Free p s)" by blast
  with idle show "fl_quiet (fl_Free p s) \<and> held (fl_Free p s) = held s - {p} \<and> blocks (fl_Free p s) = blocks s"
    by (auto simp: fl_quiet_def fl_Free_def)
next
  fix s assume "fl_quiet s"
  then show "held s \<subseteq> blocks s" by (auto simp: fl_quiet_def fl_inv_def inv_own_def own_ok_def)
qed

lemma fl_quiet_new: "distinct addrs \<Longrightarrow> 0 \<notin> set addrs \<Longrightarrow> fl_quiet (fl_new addrs pn)"
proof -
  assume "distinct addrs" "0 \<notin> set addrs"
  then have "fl_inv (rev addrs) (fl_new addrs pn)" by (rule fl_inv_new)
  moreover have "pcs (fold fl_push_new as s) = pcs s" for as s
    by (induction as arbitrary: s) (auto simp: fl_push_new_def)
  ultimately show ?thesis by (auto simp: fl_quiet_def fl_new_def)
qed

end
