(* ===== verification/PacketPool.thy ===== *)
theory PacketPool
  imports Packet FreeList
begin

text \<open>
  Objects that live in a \<open>CLFFreeList\<close>: a pool is the free list with the objects in its blocks.
  The packets are reference counted (\<open>Alloc\<close>, \<open>AddRef\<close>, \<open>SubRef\<close> of CPacket.cpp) and go
  back to \<open>g_PacketPool\<close> when the last reference is dropped. The players of the chat server
  use the same pool with objects of another type.
\<close>

section \<open>A pool with its objects\<close>

record 'o pool =
  pl_list :: fl
  pl_objs :: "nat \<Rightarrow> 'o"

definition pool_new :: "'o \<Rightarrow> 'o pool" where
  "pool_new ctor = \<lparr>pl_list = fl_new [] False, pl_objs = (\<lambda>_. ctor)\<rparr>"

text \<open>
  \<open>ctor\<close> is the object \<open>DATA\<close>'s constructor makes: it runs in a block fresh from \<open>malloc\<close>, and
  in a reused one only when the pool was made for placement new.
\<close>

definition pool_Alloc :: "'o \<Rightarrow> nat \<Rightarrow> 'o pool \<Rightarrow> (nat \<times> 'o pool) res" where
  "pool_Alloc ctor a h =
     andThen (fl_Alloc a (pl_list h)) (\<lambda>(p, l).
       Inr (p, h\<lparr>pl_list := l,
         pl_objs := (if m_lMaxCount (pl_list h) < m_lUseCount (pl_list h) + 1 \<or> m_bUsingPlacementNew (pl_list h)
                     then (pl_objs h)(p := ctor) else pl_objs h)\<rparr>))"

definition pool_Free :: "nat \<Rightarrow> 'o pool \<Rightarrow> 'o pool" where
  "pool_Free p h = h\<lparr>pl_list := fl_Free p (pl_list h)\<rparr>"

definition pool_upd :: "nat \<Rightarrow> ('o \<Rightarrow> 'o) \<Rightarrow> 'o pool \<Rightarrow> 'o pool" where
  "pool_upd p f h = h\<lparr>pl_objs := (pl_objs h)(p := f (pl_objs h p))\<rparr>"

abbreviation pool_live :: "'o pool \<Rightarrow> nat set" where
  "pool_live h \<equiv> held (pl_list h)"

lemma pool_upd_simps [simp]:
  "pl_list (pool_upd p f h) = pl_list h"
  "pl_objs (pool_upd p f h) q = (if q = p then f (pl_objs h p) else pl_objs h q)"
  by (simp_all add: pool_upd_def)

lemma pool_Free_simps [simp]:
  "pl_objs (pool_Free p h) = pl_objs h"
  "pl_list (pool_Free p h) = fl_Free p (pl_list h)"
  by (simp_all add: pool_Free_def)

text \<open>
  A pool in order: its free list is, and every object ever constructed satisfies \<open>P\<close>, so that a
  reused block needs no construction.
\<close>

definition pool_ok :: "('o \<Rightarrow> bool) \<Rightarrow> 'o pool \<Rightarrow> bool" where
  "pool_ok P h \<longleftrightarrow> fl_quiet (pl_list h) \<and> (\<forall>p. P (pl_objs h p))"

lemma pool_ok_new: "P ctor \<Longrightarrow> pool_ok P (pool_new ctor)"
  using fl_quiet_new [of "[]" False] by (simp add: pool_ok_def pool_new_def)

lemma pool_ok_upd: "pool_ok P h \<Longrightarrow> P (f (pl_objs h p)) \<Longrightarrow> pool_ok P (pool_upd p f h)"
  by (simp add: pool_ok_def)

lemma pool_Alloc_ok:
  assumes "pool_ok P h" and "P ctor" and "a \<noteq> 0" and "a \<notin> blocks (pl_list h)"
  shows "\<exists>p h'. pool_Alloc ctor a h = Inr (p, h') \<and> pool_ok P h' \<and> p \<noteq> 0 \<and> p \<notin> pool_live h \<and>
    pool_live h' = insert p (pool_live h) \<and> blocks (pl_list h') \<subseteq> insert a (blocks (pl_list h)) \<and>
    (\<forall>q. q \<noteq> p \<longrightarrow> pl_objs h' q = pl_objs h q)"
proof -
  from fl_pool.alloc_ok [of "pl_list h" a] assms obtain p l
    where "fl_Alloc a (pl_list h) = Inr (p, l)" "fl_quiet l" "p \<noteq> 0" "p \<notin> pool_live h"
      "held l = insert p (pool_live h)" "blocks l \<subseteq> insert a (blocks (pl_list h))"
    by (auto simp: pool_ok_def)
  with assms show ?thesis by (auto simp: pool_Alloc_def pool_ok_def)
qed

lemma pool_Free_ok:
  assumes "pool_ok P h" and "p \<in> pool_live h"
  shows "pool_ok P (pool_Free p h)" and "pool_live (pool_Free p h) = pool_live h - {p}"
    and "blocks (pl_list (pool_Free p h)) = blocks (pl_list h)"
  using fl_pool.free_ok [of "pl_list h" p] assms by (simp_all add: pool_ok_def)

section \<open>Reference-counted packets\<close>

definition pkt_Alloc :: "nat \<Rightarrow> CPacket pool \<Rightarrow> (nat \<times> CPacket pool) res" where
  "pkt_Alloc a h =
     andThen (pool_Alloc pkt_new a h)
       (\<lambda>(msg, h1). Inr (msg, pool_upd msg (\<lambda>p. p\<lparr>m_lRefCount := 1\<rparr>) (pool_upd msg pkt_Clear h1)))"

definition pkt_AddRef :: "nat \<Rightarrow> CPacket pool \<Rightarrow> CPacket pool" where
  "pkt_AddRef p h = pool_upd p (\<lambda>x. x\<lparr>m_lRefCount := m_lRefCount x + 1\<rparr>) h"

definition pkt_SubRef :: "nat \<Rightarrow> CPacket pool \<Rightarrow> CPacket pool" where
  "pkt_SubRef p h =
     (let h1 = pool_upd p (\<lambda>x. x\<lparr>m_lRefCount := m_lRefCount x - 1\<rparr>) h
      in if m_lRefCount (pl_objs h1 p) = 0 then pool_Free p h1 else h1)"

text \<open>Every packet of the pool has its 512 bytes.\<close>

definition pkt_512 :: "CPacket \<Rightarrow> bool" where
  "pkt_512 p \<longleftrightarrow> m_iMaxSize p = 512 \<and> (\<exists>b. m_cpHeadPtr p = Some b \<and> length b = 512)"

lemma pkt_512_new: "pkt_512 pkt_new"
  by (simp add: pkt_512_def pkt_new_def eBUFFER_DEFAULT_def)

lemma pkt_512_simps [simp]:
  "pkt_512 (p\<lparr>m_lRefCount := n\<rparr>) = pkt_512 p"
  by (simp add: pkt_512_def)

lemma pkt_Clear_512:
  assumes "pkt_512 p"
  shows "pkt_512 (pkt_Clear p)" and "pkt_wf (pkt_Clear p)" and "pkt_list (pkt_Clear p) = []"
    and "pkt_room (pkt_Clear p) = 507" and "m_iFront (pkt_Clear p) = 0" and "\<not> m_bIsEncoded (pkt_Clear p)"
  using assms
  by (auto simp: pkt_512_def pkt_Clear_def pkt_wf_def pkt_buf_def pkt_list_def pkt_room_def
      eBUFFER_HEADER_SIZE_def MESSAGE_HEADER_LEN_def)

text \<open>
  The references that count: \<open>refs p\<close> is how many places hold packet \<open>p\<close>. Counted exactly, a
  packet is in use precisely when somebody holds it.
\<close>

definition refs_exact :: "(nat \<Rightarrow> nat) \<Rightarrow> CPacket pool \<Rightarrow> bool" where
  "refs_exact refs h \<longleftrightarrow> pool_ok pkt_512 h \<and>
     (\<forall>p. (p \<in> pool_live h \<longleftrightarrow> 0 < refs p) \<and> (p \<in> pool_live h \<longrightarrow> m_lRefCount (pl_objs h p) = int (refs p)))"

lemma refs_exact_Alloc:
  assumes "refs_exact refs h" and "a \<noteq> 0" and "a \<notin> blocks (pl_list h)"
  shows "\<exists>p h'. pkt_Alloc a h = Inr (p, h') \<and> refs p = 0 \<and> p \<noteq> 0 \<and> refs_exact (refs(p := 1)) h' \<and>
    pkt_wf (pl_objs h' p) \<and> pkt_list (pl_objs h' p) = [] \<and> pkt_room (pl_objs h' p) = 507 \<and>
    m_iFront (pl_objs h' p) = 0 \<and> \<not> m_bIsEncoded (pl_objs h' p)"
proof -
  have ok: "pool_ok pkt_512 h" using assms(1) by (simp add: refs_exact_def)
  from pool_Alloc_ok [OF ok pkt_512_new assms(2,3)] obtain p h1
    where h1: "pool_Alloc pkt_new a h = Inr (p, h1)" "pool_ok pkt_512 h1" "p \<noteq> 0" "p \<notin> pool_live h"
      "pool_live h1 = insert p (pool_live h)" "\<And>q. q \<noteq> p \<Longrightarrow> pl_objs h1 q = pl_objs h q"
    by blast
  let ?x = "pkt_Clear (pl_objs h1 p)"
  have c: "pkt_512 (pl_objs h1 p)" using h1(2) by (simp add: pool_ok_def)
  have "pkt_wf (?x\<lparr>m_lRefCount := 1\<rparr>) = pkt_wf ?x" "pkt_list (?x\<lparr>m_lRefCount := 1\<rparr>) = pkt_list ?x"
    "pkt_room (?x\<lparr>m_lRefCount := 1\<rparr>) = pkt_room ?x"
    by (simp_all add: pkt_wf_def pkt_list_def pkt_room_def pkt_buf_def)
  with h1 assms(1) pkt_Clear_512 [OF c] c show ?thesis
    by (auto simp: pkt_Alloc_def refs_exact_def pool_ok_def)
qed

lemma refs_exact_AddRef:
  "refs_exact refs h \<Longrightarrow> 0 < refs p \<Longrightarrow> refs_exact (refs(p := refs p + 1)) (pkt_AddRef p h)"
  by (auto simp: refs_exact_def pkt_AddRef_def pool_ok_def)

lemma refs_exact_SubRef:
  assumes "refs_exact refs h" and "0 < refs p"
  shows "refs_exact (refs(p := refs p - 1)) (pkt_SubRef p h)"
proof (cases "refs p = 1")
  case True
  let ?h = "pool_upd p (\<lambda>x. x\<lparr>m_lRefCount := m_lRefCount x - 1\<rparr>) h"
  have "pool_ok pkt_512 ?h" "p \<in> pool_live ?h"
    using assms by (auto simp: refs_exact_def pool_ok_def)
  from pool_Free_ok [OF this] True assms show ?thesis
    by (auto simp: refs_exact_def pkt_SubRef_def Let_def)
next
  case False
  with assms show ?thesis
    by (auto simp: refs_exact_def pkt_SubRef_def pool_ok_def Let_def)
qed

section \<open>Histories of references\<close>

text \<open>
  A history of calls by the code that shares packets: each call of \<open>AddRef\<close> and \<open>SubRef\<close> is made
  through a reference somebody holds. The run keeps who holds what beside the pool.
\<close>

datatype pkt_op = OpAlloc nat | OpAddRef nat | OpSubRef nat

fun pkt_run :: "pkt_op list \<Rightarrow> (nat \<Rightarrow> nat) \<times> CPacket pool \<Rightarrow> ((nat \<Rightarrow> nat) \<times> CPacket pool) res" where
  "pkt_run [] st = Inr st"
| "pkt_run (OpAlloc a # ops) (refs, h) =
     andThen (pkt_Alloc a h) (\<lambda>(p, h'). pkt_run ops (refs(p := refs p + 1), h'))"
| "pkt_run (OpAddRef p # ops) (refs, h) = pkt_run ops (refs(p := refs p + 1), pkt_AddRef p h)"
| "pkt_run (OpSubRef p # ops) (refs, h) = pkt_run ops (refs(p := refs p - 1), pkt_SubRef p h)"

text \<open>The addresses of \<open>malloc\<close> are new, and references are only used by their holders.\<close>

fun pkt_legal :: "pkt_op list \<Rightarrow> (nat \<Rightarrow> nat) \<times> CPacket pool \<Rightarrow> bool" where
  "pkt_legal [] st \<longleftrightarrow> True"
| "pkt_legal (OpAlloc a # ops) (refs, h) \<longleftrightarrow> a \<noteq> 0 \<and> a \<notin> blocks (pl_list h) \<and>
     (case pkt_Alloc a h of Inl _ \<Rightarrow> True | Inr (p, h') \<Rightarrow> pkt_legal ops (refs(p := refs p + 1), h'))"
| "pkt_legal (OpAddRef p # ops) (refs, h) \<longleftrightarrow> 0 < refs p \<and> pkt_legal ops (refs(p := refs p + 1), pkt_AddRef p h)"
| "pkt_legal (OpSubRef p # ops) (refs, h) \<longleftrightarrow> 0 < refs p \<and> pkt_legal ops (refs(p := refs p - 1), pkt_SubRef p h)"

lemma pkt_run_exact:
  "refs_exact refs h \<Longrightarrow> pkt_legal ops (refs, h) \<Longrightarrow>
   \<exists>refs' h'. pkt_run ops (refs, h) = Inr (refs', h') \<and> refs_exact refs' h'"
proof (induction ops arbitrary: refs h)
  case (Cons op ops)
  show ?case
  proof (cases op)
    case (OpAlloc a)
    with Cons.prems refs_exact_Alloc [of refs h a] obtain p h'
      where a: "pkt_Alloc a h = Inr (p, h')" "refs p = 0" "refs_exact (refs(p := 1)) h'" by auto
    then have legal: "pkt_legal ops (refs(p := 1), h')" using Cons.prems OpAlloc by simp
    have "pkt_run (op # ops) (refs, h) = pkt_run ops (refs(p := 1), h')" using OpAlloc a by simp
    then show ?thesis using Cons.IH [OF a(3) legal] by (simp only:)
  next
    case (OpAddRef p)
    with Cons.prems have "0 < refs p" and legal: "pkt_legal ops (refs(p := refs p + 1), pkt_AddRef p h)"
      by simp_all
    from refs_exact_AddRef [OF Cons.prems(1) this(1)] legal
    have "\<exists>refs' h'. pkt_run ops (refs(p := refs p + 1), pkt_AddRef p h) = Inr (refs', h') \<and> refs_exact refs' h'"
      by (rule Cons.IH)
    then show ?thesis by (simp only: OpAddRef pkt_run.simps)
  next
    case (OpSubRef p)
    with Cons.prems have "0 < refs p" and legal: "pkt_legal ops (refs(p := refs p - 1), pkt_SubRef p h)"
      by simp_all
    from refs_exact_SubRef [OF Cons.prems(1) this(1)] legal
    have "\<exists>refs' h'. pkt_run ops (refs(p := refs p - 1), pkt_SubRef p h) = Inr (refs', h') \<and> refs_exact refs' h'"
      by (rule Cons.IH)
    then show ?thesis by (simp only: OpSubRef pkt_run.simps)
  qed
qed simp

lemma refs_exact_new: "refs_exact (\<lambda>_. 0) (pool_new pkt_new)"
  using pool_ok_new [of pkt_512 pkt_new, OF pkt_512_new]
  by (simp add: refs_exact_def pool_new_def fl_new_def)

text \<open>
  C18. Reference counting of packets is exact: whatever references are taken and dropped by their
  holders, no call faults, a packet is out of the pool precisely while somebody holds it, its
  count is the number of holders, and every packet keeps its 512 bytes. In particular the last
  \<open>SubRef\<close> returns the packet and nobody is left with a packet that was returned.
\<close>

theorem packet_refcount_exact:
  assumes "pkt_legal ops ((\<lambda>_. 0), pool_new pkt_new)"
  shows "\<exists>refs h. pkt_run ops ((\<lambda>_. 0), pool_new pkt_new) = Inr (refs, h) \<and> pool_ok pkt_512 h \<and>
    (\<forall>p. (p \<in> pool_live h \<longleftrightarrow> 0 < refs p) \<and> (p \<in> pool_live h \<longrightarrow> m_lRefCount (pl_objs h p) = int (refs p)))"
  using pkt_run_exact [OF refs_exact_new assms] by (auto simp: refs_exact_def)

theorem packet_refcount_exact_witness:
  "\<exists>refs h. pkt_run [OpAlloc 8, OpAddRef 8, OpSubRef 8, OpSubRef 8] ((\<lambda>_. 0), pool_new pkt_new) = Inr (refs, h) \<and>
     8 \<notin> pool_live h"
proof -
  let ?ops = "[OpAlloc 8, OpAddRef 8, OpSubRef 8, OpSubRef 8]"
  have legal: "pkt_legal ?ops ((\<lambda>_. 0), pool_new pkt_new)"
    by (simp add: pkt_Alloc_def pool_Alloc_def pool_new_def fl_Alloc_def fl_new_def)
  from packet_refcount_exact [OF this] obtain refs h
    where r: "pkt_run ?ops ((\<lambda>_. 0), pool_new pkt_new) = Inr (refs, h)" "8 \<in> pool_live h \<longleftrightarrow> 0 < refs 8" by blast
  then have "refs 8 = 0"
    by (auto simp: pkt_Alloc_def pool_Alloc_def pool_new_def fl_Alloc_def fl_new_def)
  with r show ?thesis by auto
qed

end
