(* ===== verification/IocpServer.thy ===== *)
theory IocpServer
  imports RingBuffer PacketPool
begin

text \<open>
  The network server (IOCPServer.h, IOCPServer.cpp): sessions in an array of slots, the stack of
  free slots, posting and completing overlapped sends and receives, and the release of a
  session when its last I/O is done. The class is abstract: the virtual functions a subclass
  provides are arguments of the operations that call them, and the record of the server is
  extended by the subclass.

  A handler runs to its end; how handlers interleave on the locks is the subject of theory
  Locks. The operating system is the record \<open>os\<close>: what \<open>malloc\<close>, \<open>rand\<close>, \<open>GetTickCount64\<close>,
  \<open>WSASend\<close> and \<open>WSARecv\<close> return at the n-th call, the calls being counted by \<open>now\<close>. What the
  server asks of the network is the list \<open>os_calls\<close>. The lock-free queue of Boost is the
  record \<open>queue_ops\<close> of the two operations the server uses. Pointers to packets are their
  addresses in the packet pool; a session is named by its slot.
\<close>

section \<open>The environment\<close>

datatype io_result = IoDone | IoPending | IoError

record os =
  os_malloc :: "nat \<Rightarrow> nat"
  os_rand :: "nat \<Rightarrow> nat"
  os_tick :: "nat \<Rightarrow> UINT64"
  os_WSASend :: "nat \<Rightarrow> io_result"
  os_WSARecv :: "nat \<Rightarrow> io_result"

type_synonym SOCKET = UINT64

definition INVALID_SOCKET :: SOCKET where "INVALID_SOCKET = - 1"

datatype os_call =
    OsSend SOCKET "byte list list"
  | OsRecv SOCKET "(int \<times> int) list"
  | OsShutdown SOCKET
  | OsCancelIo SOCKET
  | OsLinger SOCKET
  | OsClose SOCKET
  | OsKeepAlive SOCKET

record ('x, 'q) queue_ops =
  q_new :: 'q
  q_push :: "'x \<Rightarrow> 'q \<Rightarrow> 'q \<times> bool"
  q_pop :: "'q \<Rightarrow> ('x \<times> 'q) option"

text \<open>
  What the Boost documentation promises of \<open>queue<T, capacity<n>>\<close>: first in, first out;
  \<open>push\<close> fails, changing nothing, when the queue is full; \<open>pop\<close> fails when it is empty.
  \<open>content\<close> is the queue as a list.
\<close>

definition queue_laws :: "nat \<Rightarrow> ('q \<Rightarrow> 'x list) \<Rightarrow> ('x, 'q) queue_ops \<Rightarrow> bool" where
  "queue_laws cap content Q \<longleftrightarrow>
     content (q_new Q) = [] \<and>
     (\<forall>q x. content (fst (q_push Q x q)) = (if length (content q) < cap then content q @ [x] else content q) \<and>
            snd (q_push Q x q) = (length (content q) < cap)) \<and>
     (\<forall>q. case content q of [] \<Rightarrow> q_pop Q q = None
                          | x # xs \<Rightarrow> (\<exists>q'. q_pop Q q = Some (x, q') \<and> content q' = xs))"

section \<open>Sessions\<close>

text \<open>
  The fields of \<open>Session\<close>. \<open>sendOverlap\<close> and \<open>recvOverlap\<close> say whether the operation of that
  OVERLAPPED is outstanding. \<open>clienr_addr\<close> is never filled in.
\<close>

record 'q Session =
  sock :: SOCKET
  sessionID :: UINT64
  index :: int
  isSendFlag :: bool
  sendCount :: int
  isReleased :: bool
  ioCount :: int
  sendBuf :: 'q
  completeSendBuf :: 'q
  recvBuf :: CRingBuffer
  sendOverlap :: bool
  recvOverlap :: bool
  lastRecvTime :: UINT64

record 'q IOCPServer =
  sessionArray :: "'q Session list"
  indexStack :: "int list"
  srv_sessionID :: UINT64
  maxClientCount :: int
  sessionCount :: int
  sendTPS :: UINT64
  recvTPS :: UINT64
  acceptTPS :: UINT64
  acceptCount :: UINT64
  packets :: "CPacket pool"
  os_calls :: "os_call list"
  now :: nat

type_synonym ('q, 'a) srv = "('q, 'a) IOCPServer_scheme"

text \<open>\<open>COMBINE_ID_INDEX\<close>, \<open>GET_SESSION_ID\<close> and \<open>GET_SESSION_INDEX\<close>.\<close>

definition COMBINE_ID_INDEX :: "UINT64 \<Rightarrow> UINT64 \<Rightarrow> UINT64" where
  "COMBINE_ID_INDEX ID INDEX = push_bit 48 ID OR INDEX"

definition GET_SESSION_ID :: "UINT64 \<Rightarrow> UINT64" where
  "GET_SESSION_ID ID = drop_bit 48 ID"

definition GET_SESSION_INDEX :: "UINT64 \<Rightarrow> UINT64" where
  "GET_SESSION_INDEX ID = ID AND 0xffff"

definition sess :: "('q, 'a) srv \<Rightarrow> nat \<Rightarrow> 'q Session" where
  "sess s i = sessionArray s ! i"

definition set_sess :: "nat \<Rightarrow> ('q Session \<Rightarrow> 'q Session) \<Rightarrow> ('q, 'a) srv \<Rightarrow> ('q, 'a) srv" where
  "set_sess i f s = s\<lparr>sessionArray := (sessionArray s)[i := f (sessionArray s ! i)]\<rparr>"

definition add_call :: "os_call \<Rightarrow> ('q, 'a) srv \<Rightarrow> ('q, 'a) srv" where
  "add_call c s = s\<lparr>os_calls := os_calls s @ [c]\<rparr>"

definition tick :: "('q, 'a) srv \<Rightarrow> ('q, 'a) srv" where
  "tick s = s\<lparr>now := now s + 1\<rparr>"

text \<open>An operation on one packet of the pool.\<close>

definition on_packet :: "nat \<Rightarrow> (CPacket \<Rightarrow> CPacket res) \<Rightarrow> ('q, 'a) srv \<Rightarrow> ('q, 'a) srv res" where
  "on_packet p f s = andThen (f (pl_objs (packets s) p)) (\<lambda>x. Inr (s\<lparr>packets := pool_upd p (\<lambda>_. x) (packets s)\<rparr>))"

text \<open>\<open>InterlockedIncrement\<close> and \<open>InterlockedExchange\<close> on the low half of a 64-bit counter.\<close>

definition low_increment :: "UINT64 \<Rightarrow> UINT64" where
  "low_increment c = (c AND 0xffffffff00000000) OR ((c + 1) AND 0xffffffff)"

definition low_clear :: "UINT64 \<Rightarrow> UINT64" where
  "low_clear c = c AND 0xffffffff00000000"

subsection \<open>Emptying a queue of packets\<close>

text \<open>
  \<open>while (queue.pop(packet)) packet->SubRef();\<close> \<open>checked\<close> says whether the loop tests the pointer
  for null. The loop is cut only by the queue.
\<close>

partial_function (option) drain_loop ::
  "(nat, 'q) queue_ops \<Rightarrow> bool \<Rightarrow> 'q \<Rightarrow> CPacket pool \<Rightarrow> ('q \<times> CPacket pool) res option" where
  "drain_loop Q checked q h =
     (case q_pop Q q of
        None \<Rightarrow> Some (Inr (q, h))
      | Some (p, q') \<Rightarrow>
          if p = 0 then (if checked then drain_loop Q checked q' h else Some (Inl NullPointer))
          else drain_loop Q checked q' (pkt_SubRef p h))"

definition returned :: "'b res option \<Rightarrow> 'b res" where
  "returned r = (case r of None \<Rightarrow> Inl NoReturn | Some x \<Rightarrow> x)"

definition drain_sendBuf :: "(nat, 'q) queue_ops \<Rightarrow> bool \<Rightarrow> nat \<Rightarrow> ('q, 'a) srv \<Rightarrow> ('q, 'a) srv res" where
  "drain_sendBuf Q checked i s =
     andThen (returned (drain_loop Q checked (sendBuf (sess s i)) (packets s)))
       (\<lambda>(q, h). Inr (set_sess i (\<lambda>x. x\<lparr>sendBuf := q\<rparr>) (s\<lparr>packets := h\<rparr>)))"

definition drain_completeSendBuf :: "(nat, 'q) queue_ops \<Rightarrow> bool \<Rightarrow> nat \<Rightarrow> ('q, 'a) srv \<Rightarrow> ('q, 'a) srv res" where
  "drain_completeSendBuf Q checked i s =
     andThen (returned (drain_loop Q checked (completeSendBuf (sess s i)) (packets s)))
       (\<lambda>(q, h). Inr (set_sess i (\<lambda>x. x\<lparr>completeSendBuf := q\<rparr>) (s\<lparr>packets := h\<rparr>)))"

definition Session_new :: "(nat, 'q) queue_ops \<Rightarrow> 'q Session" where
  "Session_new Q =
     \<lparr>sock = INVALID_SOCKET, sessionID = - 1, index = 0, isSendFlag = False, sendCount = 0,
      isReleased = False, ioCount = 0, sendBuf = q_new Q, completeSendBuf = q_new Q, recvBuf = rb_new,
      sendOverlap = False, recvOverlap = False, lastRecvTime = 0\<rparr>"

definition Session_Init :: "(nat, 'q) queue_ops \<Rightarrow> nat \<Rightarrow> ('q, 'a) srv \<Rightarrow> ('q, 'a) srv res" where
  "Session_Init Q i s =
     (let s1 = set_sess i (\<lambda>x. x\<lparr>sock := INVALID_SOCKET, sessionID := - 1, index := 0,
                                 isSendFlag := False, sendCount := 0, lastRecvTime := 0\<rparr>) s
      in andThen (drain_sendBuf Q False i s1) (\<lambda>s2.
         andThen (drain_completeSendBuf Q False i s2) (\<lambda>s3.
         Inr (set_sess i (\<lambda>x. x\<lparr>isReleased := False, ioCount := 0\<rparr>) s3))))"

section \<open>Slots\<close>

definition PushIndex :: "int \<Rightarrow> ('q, 'a) srv \<Rightarrow> ('q, 'a) srv" where
  "PushIndex idx s = s\<lparr>indexStack := idx # indexStack s\<rparr>"

definition PopIndex :: "('q, 'a) srv \<Rightarrow> (int \<times> ('q, 'a) srv) res" where
  "PopIndex s = (case indexStack s of [] \<Rightarrow> Inl EmptyContainer | idx # st \<Rightarrow> Inr (idx, s\<lparr>indexStack := st\<rparr>))"

definition CreateSession :: "os \<Rightarrow> SOCKET \<Rightarrow> ('q, 'a) srv \<Rightarrow> (nat \<times> ('q, 'a) srv) res" where
  "CreateSession W socket s =
     andThen (PopIndex s) (\<lambda>(idx, s1).
       if idx < 0 \<or> int (length (sessionArray s1)) \<le> idx then Inl OutOfBoundsWrite
       else
         let i = nat idx;
             s2 = add_call (OsKeepAlive socket) (s1\<lparr>srv_sessionID := srv_sessionID s1 + 1\<rparr>);
             s3 = set_sess i (\<lambda>x. x\<lparr>sessionID := COMBINE_ID_INDEX (srv_sessionID s2) (of_int idx),
                                    index := idx, sock := socket, recvBuf := rb_ClearBuffer (recvBuf x),
                                    lastRecvTime := os_tick W (now s2)\<rparr>) s2
         in Inr (i, tick s3\<lparr>sessionCount := sessionCount s3 + 1, acceptTPS := acceptTPS s3 + 1,
                            acceptCount := acceptCount s3 + 1\<rparr>))"

text \<open>\<open>leave\<close> is \<open>OnClientLeave\<close>.\<close>

type_synonym ('q, 'a) leave = "UINT64 \<Rightarrow> ('q, 'a) srv \<Rightarrow> ('q, 'a) srv res"

definition ReleaseSession ::
  "(nat, 'q) queue_ops \<Rightarrow> ('q, 'a) leave \<Rightarrow> nat \<Rightarrow> ('q, 'a) srv \<Rightarrow> ('q, 'a) srv res" where
  "ReleaseSession Q leave i s =
     andThen (leave (sessionID (sess s i)) s) (\<lambda>s1.
     andThen (drain_sendBuf Q True i s1) (\<lambda>s2.
     andThen (drain_completeSendBuf Q True i s2) (\<lambda>s3.
       let idx = index (sess s3 i);
           s4 = set_sess i (\<lambda>x. x\<lparr>recvBuf := rb_ClearBuffer (recvBuf x)\<rparr>) s3
       in andThen (Session_Init Q i s4) (\<lambda>s5.
            let s6 = PushIndex idx s5 in Inr (s6\<lparr>sessionCount := sessionCount s6 - 1\<rparr>)))))"

definition DisConnect ::
  "(nat, 'q) queue_ops \<Rightarrow> ('q, 'a) leave \<Rightarrow> nat \<Rightarrow> ('q, 'a) srv \<Rightarrow> ('q, 'a) srv res" where
  "DisConnect Q leave i s =
     (if isReleased (sess s i) then Inr s
      else
        let k = sock (sess s i);
            s1 = set_sess i (\<lambda>x. x\<lparr>isReleased := True\<rparr>) s;
            s2 = add_call (OsClose k) (add_call (OsLinger k) (add_call (OsCancelIo k) (add_call (OsShutdown k) s1)));
            s3 = set_sess i (\<lambda>x. x\<lparr>sock := INVALID_SOCKET\<rparr>) s2
        in if ioCount (sess s3 i) = 0 then ReleaseSession Q leave i s3 else Inr s3)"

text \<open>
  The decrement of \<open>ioCount\<close> that every user of a session ends with; \<open>always\<close> says whether the
  session is released at zero without a look at \<open>isReleased\<close>.
\<close>

definition io_done ::
  "(nat, 'q) queue_ops \<Rightarrow> ('q, 'a) leave \<Rightarrow> bool \<Rightarrow> nat \<Rightarrow> ('q, 'a) srv \<Rightarrow> ('q, 'a) srv res" where
  "io_done Q leave always i s =
     (let s1 = set_sess i (\<lambda>x. x\<lparr>ioCount := ioCount x - 1\<rparr>) s
      in if ioCount (sess s1 i) = 0 \<and> (always \<or> isReleased (sess s1 i))
         then ReleaseSession Q leave i s1 else Inr s1)"

definition SessionUnLock ::
  "(nat, 'q) queue_ops \<Rightarrow> ('q, 'a) leave \<Rightarrow> nat \<Rightarrow> ('q, 'a) srv \<Rightarrow> ('q, 'a) srv res" where
  "SessionUnLock Q leave i s = io_done Q leave True i s"

definition SessionLock ::
  "(nat, 'q) queue_ops \<Rightarrow> ('q, 'a) leave \<Rightarrow> UINT64 \<Rightarrow> ('q, 'a) srv \<Rightarrow> (nat option \<times> ('q, 'a) srv) res" where
  "SessionLock Q leave sid s =
     (let i = unat (GET_SESSION_INDEX sid)
      in if length (sessionArray s) \<le> i then Inl OutOfBoundsWrite
         else
           let s1 = set_sess i (\<lambda>x. x\<lparr>ioCount := ioCount x + 1\<rparr>) s
           in if sid \<noteq> sessionID (sess s1 i) \<or> isReleased (sess s1 i)
              then andThen (io_done Q leave True i s1) (\<lambda>s2. Inr (None, s2))
              else if sid \<noteq> sessionID (sess s1 i)
              then Inr (None, set_sess i (\<lambda>x. x\<lparr>ioCount := ioCount x - 1\<rparr>) s1)
              else if isReleased (sess s1 i)
              then andThen (io_done Q leave True i s1) (\<lambda>s2. Inr (None, s2))
              else Inr (Some i, s1))"

definition Disconnect ::
  "(nat, 'q) queue_ops \<Rightarrow> ('q, 'a) leave \<Rightarrow> UINT64 \<Rightarrow> ('q, 'a) srv \<Rightarrow> ('q, 'a) srv res" where
  "Disconnect Q leave sid s =
     andThen (SessionLock Q leave sid s) (\<lambda>(r, s1).
       case r of None \<Rightarrow> Inr s1
       | Some i \<Rightarrow> andThen (DisConnect Q leave i s1) (SessionUnLock Q leave i))"

section \<open>Sending\<close>

text \<open>The two WSABUFs of a packet: its header and its payload.\<close>

definition packet_bufs :: "CPacket \<Rightarrow> byte list list" where
  "packet_bufs p = [take (nat MESSAGE_HEADER_LEN) (pkt_buf p),
     take (nat (pkt_GetDataSize p)) (drop (nat eBUFFER_HEADER_SIZE) (pkt_buf p))]"

text \<open>
  The loop of \<open>PostSend\<close>: it moves packets from \<open>sendBuf\<close> to \<open>completeSendBuf\<close> and fills the
  array of 200 buffers. The result of the push is ignored.
\<close>

partial_function (option) gather_loop ::
  "(nat, 'q) queue_ops \<Rightarrow> CPacket pool \<Rightarrow> int \<Rightarrow> byte list list \<Rightarrow> 'q \<Rightarrow> 'q \<Rightarrow> (int \<times> byte list list \<times> 'q \<times> 'q) option" where
  "gather_loop Q h pktCount wBuf q cq =
     (if pktCount < 100 \<and> length wBuf + 2 \<le> 200
      then case q_pop Q q of
          None \<Rightarrow> Some (pktCount, wBuf, q, cq)
        | Some (p, q') \<Rightarrow>
            if p = 0 then gather_loop Q h pktCount wBuf q' cq
            else gather_loop Q h (pktCount + 1) (wBuf @ packet_bufs (pl_objs h p)) q' (fst (q_push Q p cq))
      else Some (pktCount, wBuf, q, cq))"

definition PostSend ::
  "os \<Rightarrow> (nat, 'q) queue_ops \<Rightarrow> ('q, 'a) leave \<Rightarrow> nat \<Rightarrow> ('q, 'a) srv \<Rightarrow> (bool \<times> ('q, 'a) srv) res" where
  "PostSend W Q leave i s =
     (if isSendFlag (sess s i) then Inr (False, s)
      else
        let s1 = set_sess i (\<lambda>x. x\<lparr>isSendFlag := True\<rparr>) s
        in case gather_loop Q (packets s1) 0 [] (sendBuf (sess s1 i)) (completeSendBuf (sess s1 i)) of
            None \<Rightarrow> Inl NoReturn
          | Some (pktCount, wBuf, q, cq) \<Rightarrow>
              let s2 = set_sess i (\<lambda>x. x\<lparr>sendBuf := q, completeSendBuf := cq\<rparr>) s1
              in if pktCount = 0 then Inr (False, set_sess i (\<lambda>x. x\<lparr>isSendFlag := False\<rparr>) s2)
                 else
                   let s3 = set_sess i (\<lambda>x. x\<lparr>sendCount := pktCount, ioCount := ioCount x + 1\<rparr>) s2;
                       s4 = tick (add_call (OsSend (sock (sess s3 i)) wBuf) s3)
                   in if os_WSASend W (now s3) = IoError
                      then
                        let s5 = set_sess i (\<lambda>x. x\<lparr>ioCount := ioCount x - 1\<rparr>) s4
                        in if ioCount (sess s5 i) = 0
                           then andThen (ReleaseSession Q leave i s5) (\<lambda>s6. Inr (False, s6))
                           else Inr (True, s5)
                      else Inr (True, set_sess i (\<lambda>x. x\<lparr>sendOverlap := True\<rparr>) s4))"

definition SendPacket ::
  "os \<Rightarrow> (nat, 'q) queue_ops \<Rightarrow> ('q, 'a) leave \<Rightarrow> UINT64 \<Rightarrow> nat \<Rightarrow> ('q, 'a) srv \<Rightarrow> ('q, 'a) srv res" where
  "SendPacket W Q leave sid p s =
     andThen (SessionLock Q leave sid s) (\<lambda>(r, s1).
       case r of None \<Rightarrow> Inr s1
       | Some i \<Rightarrow>
           andThen (on_packet p (pkt_SetEncodingCode (os_rand W (now s1))) (s1\<lparr>packets := pkt_AddRef p (packets s1)\<rparr>)) (\<lambda>s2.
             let s3 = set_sess i (\<lambda>x. x\<lparr>sendBuf := fst (q_push Q p (sendBuf x))\<rparr>) (tick s2)
             in andThen (if isReleased (sess s3 i) then Inr s3
                         else andThen (PostSend W Q leave i s3) (\<lambda>(b, s4). Inr s4))
                  (SessionUnLock Q leave i)))"

text \<open>The loop of \<open>SendComplete\<close> over the packets of the send that is done.\<close>

fun complete_loop ::
  "(nat, 'q) queue_ops \<Rightarrow> ('q, 'a) leave \<Rightarrow> nat \<Rightarrow> nat \<Rightarrow> ('q, 'a) srv \<Rightarrow> ('q, 'a) srv res" where
  "complete_loop Q leave i 0 s = Inr s"
| "complete_loop Q leave i (Suc k) s =
     (case q_pop Q (completeSendBuf (sess s i)) of
        None \<Rightarrow> DisConnect Q leave i s
      | Some (p, q) \<Rightarrow>
          let s1 = set_sess i (\<lambda>x. x\<lparr>completeSendBuf := q\<rparr>) s
          in if p = 0 then DisConnect Q leave i s1
             else complete_loop Q leave i k
               (s1\<lparr>packets := pkt_SubRef p (packets s1), sendTPS := low_increment (sendTPS s1)\<rparr>))"

definition SendComplete ::
  "os \<Rightarrow> (nat, 'q) queue_ops \<Rightarrow> ('q, 'a) leave \<Rightarrow> nat \<Rightarrow> nat \<Rightarrow> ('q, 'a) srv \<Rightarrow> ('q, 'a) srv res" where
  "SendComplete W Q leave i transferred s =
     andThen (if transferred = 0 then DisConnect Q leave i s else Inr s) (\<lambda>s1.
       let cnt = sendCount (sess s1 i)
       in andThen (complete_loop Q leave i (nat cnt) (set_sess i (\<lambda>x. x\<lparr>sendCount := 0\<rparr>) s1)) (\<lambda>s2.
            let s3 = set_sess i (\<lambda>x. x\<lparr>isSendFlag := False\<rparr>) s2
            in if isReleased (sess s3 i) then Inr s3
               else andThen (PostSend W Q leave i s3) (\<lambda>(b, s4). Inr s4)))"

section \<open>Receiving\<close>

definition PostRecv ::
  "os \<Rightarrow> (nat, 'q) queue_ops \<Rightarrow> ('q, 'a) leave \<Rightarrow> nat \<Rightarrow> ('q, 'a) srv \<Rightarrow> (bool \<times> ('q, 'a) srv) res" where
  "PostRecv W Q leave i s =
     (if isReleased (sess s i) then Inr (False, s)
      else
        let s1 = set_sess i (\<lambda>x. x\<lparr>ioCount := ioCount x + 1\<rparr>) s;
            s2 = tick (add_call (OsRecv (sock (sess s1 i)) (recv_regions (recvBuf (sess s1 i)))) s1)
        in if os_WSARecv W (now s1) = IoError
           then
             let s3 = set_sess i (\<lambda>x. x\<lparr>ioCount := ioCount x - 1\<rparr>) s2
             in andThen (if ioCount (sess s3 i) = 0 then ReleaseSession Q leave i s3 else Inr s3) (\<lambda>s4.
                  andThen (DisConnect Q leave i s4) (\<lambda>s5. Inr (False, s5)))
           else Inr (True, set_sess i (\<lambda>x. x\<lparr>recvOverlap := True\<rparr>) s2))"

text \<open>
  One turn of the loop of \<open>RecvComplete\<close> up to the call of \<open>OnRecv\<close>: wait for more bytes, drop
  the connection, or deliver a packet.
\<close>

datatype recv_outcome = NeedMore | Refuse | Deliver nat

text \<open>\<open>Dequeue\<close> into the payload of packet \<open>p\<close>; it returns how many bytes it took.\<close>

definition dequeue_into :: "int \<Rightarrow> CRingBuffer \<Rightarrow> CPacket \<Rightarrow> (int \<times> CRingBuffer \<times> CPacket) res" where
  "dequeue_into len rb p =
     (case m_cpHeadPtr p of
        None \<Rightarrow> Inl NullPointer
      | Some b \<Rightarrow> andThen (rb_Dequeue (drop (nat eBUFFER_HEADER_SIZE) b) len rb)
          (\<lambda>(rb', d, k). Inr (k, rb', p\<lparr>m_cpHeadPtr := Some (take (nat eBUFFER_HEADER_SIZE) b @ d)\<rparr>)))"

definition recv_step :: "os \<Rightarrow> nat \<Rightarrow> ('q, 'a) srv \<Rightarrow> (recv_outcome \<times> ('q, 'a) srv) res" where
  "recv_step W i s =
     (let rb = recvBuf (sess s i); qSize = rb_GetUseSize rb
      in if 5 > qSize then Inr (NeedMore, s)
         else andThen (rb_Peek (replicate 5 0) 5 rb) (\<lambda>(hb, k).
           let stHeader = header_of hb; len = int (unat (hd_len stHeader))
           in if hd_code stHeader \<noteq> PACKET_CODE then Inr (Refuse, s)
              else if len = 0 then Inr (Refuse, s)
              else if MESSAGE_HEADER_LEN + len > qSize then Inr (NeedMore, s)
              else
                andThen (rb_MoveFront 5 rb) (\<lambda>(rb1, f).
                andThen (pkt_Alloc (os_malloc W (now s)) (packets s)) (\<lambda>(p, h1).
                  let s1 = tick (set_sess i (\<lambda>x. x\<lparr>recvBuf := rb1\<rparr>) (s\<lparr>packets := pool_upd p pkt_Clear h1\<rparr>))
                  in andThen (on_packet p (pkt_SetMessageHeader hb MESSAGE_HEADER_LEN) s1) (\<lambda>s2.
                     andThen (dequeue_into len rb1 (pl_objs (packets s2) p)) (\<lambda>(got, rb2, x).
                       let s3 = set_sess i (\<lambda>y. y\<lparr>recvBuf := rb2\<rparr>) (s2\<lparr>packets := pool_upd p (\<lambda>_. x) (packets s2)\<rparr>)
                       in if len \<noteq> got then Inr (Refuse, s3)
                          else
                            andThen (pkt_SetDecodingCode (fst (pkt_MoveWritePos len x))) (\<lambda>(ok, y).
                              let s4 = s3\<lparr>packets := pool_upd p (\<lambda>_. y) (packets s3)\<rparr>
                              in if \<not> ok then Inr (Refuse, s4\<lparr>packets := pkt_SubRef p (packets s4)\<rparr>)
                                 else Inr (Deliver p, s4\<lparr>recvTPS := low_increment (recvTPS s4)\<rparr>))))))))"

text \<open>\<open>recv\<close> is \<open>OnRecv\<close>.\<close>

type_synonym ('q, 'a) recv = "UINT64 \<Rightarrow> nat \<Rightarrow> ('q, 'a) srv \<Rightarrow> ('q, 'a) srv res"

text \<open>The loop ends with whether the connection goes on.\<close>

partial_function (option) recv_loop ::
  "os \<Rightarrow> (nat, 'q) queue_ops \<Rightarrow> ('q, 'a) leave \<Rightarrow> ('q, 'a) recv \<Rightarrow> nat \<Rightarrow> ('q, 'a) srv \<Rightarrow> (bool \<times> ('q, 'a) srv) res option" where
  "recv_loop W Q leave recv i s =
     (case recv_step W i s of
        Inl e \<Rightarrow> Some (Inl e)
      | Inr (r, s1) \<Rightarrow>
          (case r of
             NeedMore \<Rightarrow> Some (Inr (True, s1))
           | Refuse \<Rightarrow> Some (andThen (DisConnect Q leave i s1) (\<lambda>s2. Inr (False, s2)))
           | Deliver p \<Rightarrow>
               (case recv (sessionID (sess s1 i)) p s1 of
                  Inl e \<Rightarrow> Some (Inl e)
                | Inr s2 \<Rightarrow> recv_loop W Q leave recv i (s2\<lparr>packets := pkt_SubRef p (packets s2)\<rparr>))))"

definition RecvComplete ::
  "os \<Rightarrow> (nat, 'q) queue_ops \<Rightarrow> ('q, 'a) leave \<Rightarrow> ('q, 'a) recv \<Rightarrow> nat \<Rightarrow> nat \<Rightarrow> ('q, 'a) srv \<Rightarrow> ('q, 'a) srv res" where
  "RecvComplete W Q leave recv i transferred s =
     (if transferred = 0 then DisConnect Q leave i s
      else andThen (rb_MoveRear (int transferred) (recvBuf (sess s i))) (\<lambda>(rb, r).
        let s1 = tick (set_sess i (\<lambda>x. x\<lparr>lastRecvTime := os_tick W (now s), recvBuf := rb\<rparr>) s)
        in andThen (returned (recv_loop W Q leave recv i s1)) (\<lambda>(go, s2).
             if \<not> go then Inr s2
             else if isReleased (sess s2 i) then Inr s2
             else andThen (PostRecv W Q leave i s2) (\<lambda>(b, s3). Inr s3))))"

section \<open>The threads\<close>

text \<open>
  One turn of \<open>WorkerThread\<close>: a receive that put \<open>bytes\<close> into the regions \<open>PostRecv\<close> gave, or a
  send of \<open>n\<close> bytes, is done for the session in slot \<open>i\<close>.
\<close>

datatype completion = RecvDone "byte list" | SendDone nat

definition worker_step ::
  "os \<Rightarrow> (nat, 'q) queue_ops \<Rightarrow> ('q, 'a) leave \<Rightarrow> ('q, 'a) recv \<Rightarrow> nat \<Rightarrow> completion \<Rightarrow> ('q, 'a) srv \<Rightarrow> ('q, 'a) srv res" where
  "worker_step W Q leave recv i c s =
     andThen
       (case c of
          RecvDone bytes \<Rightarrow>
            andThen (scatter (recv_regions (recvBuf (sess s i))) bytes (rb_data (recvBuf (sess s i)))) (\<lambda>d.
              RecvComplete W Q leave recv i (length bytes)
                (set_sess i (\<lambda>x. x\<lparr>recvOverlap := False, recvBuf := (recvBuf x)\<lparr>rb_data := d\<rparr>\<rparr>) s))
        | SendDone n \<Rightarrow> SendComplete W Q leave i n (set_sess i (\<lambda>x. x\<lparr>sendOverlap := False\<rparr>) s))
       (io_done Q leave False i)"

text \<open>
  One turn of \<open>AcceptThread\<close> for the socket \<open>accept\<close> returned: \<open>request\<close> is
  \<open>OnConnectionRequest\<close> of its address, \<open>join\<close> is \<open>OnClientJoin\<close>.
\<close>

definition accept_step ::
  "os \<Rightarrow> (nat, 'q) queue_ops \<Rightarrow> ('q, 'a) leave \<Rightarrow> (UINT64 \<Rightarrow> ('q, 'a) srv \<Rightarrow> ('q, 'a) srv res) \<Rightarrow> bool \<Rightarrow> SOCKET \<Rightarrow>
   ('q, 'a) srv \<Rightarrow> ('q, 'a) srv res" where
  "accept_step W Q leave join request socket s =
     (if sessionCount s \<ge> maxClientCount s then Inr (add_call (OsClose socket) s)
      else if request
      then andThen (CreateSession W socket s) (\<lambda>(i, s1).
           andThen (join (sessionID (sess s1 i)) s1) (\<lambda>s2.
           andThen (PostRecv W Q leave i s2) (\<lambda>(b, s3). Inr s3)))
      else Inr (add_call (OsClose socket) s))"

text \<open>\<open>MonitorThread\<close> clears the low halves of the counters it has printed.\<close>

definition monitor_step :: "('q, 'a) srv \<Rightarrow> ('q, 'a) srv" where
  "monitor_step s = s\<lparr>recvTPS := low_clear (recvTPS s), sendTPS := low_clear (sendTPS s), acceptTPS := low_clear (acceptTPS s)\<rparr>"

text \<open>
  \<open>Start\<close>, from the array of sessions on: \<open>steps\<close> are the outcomes of the Winsock calls before
  it, each of which ends the function when it fails.
\<close>

definition Start :: "(nat, 'q) queue_ops \<Rightarrow> bool list \<Rightarrow> nat \<Rightarrow> ('q, 'a) srv \<Rightarrow> bool \<times> ('q, 'a) srv" where
  "Start Q steps maxUserCount s =
     (if \<not> list_all id steps then (False, s)
      else (True, fold (\<lambda>i s. s\<lparr>indexStack := int i # indexStack s\<rparr>) (rev [0..<maxUserCount])
                    (s\<lparr>maxClientCount := int maxUserCount, sessionArray := replicate maxUserCount (Session_new Q),
                       sessionCount := 0, sendTPS := 0, recvTPS := 0, acceptTPS := 0, acceptCount := 0\<rparr>)))"

text \<open>\<open>Stop\<close>, after its threads have ended.\<close>

fun stop_loop :: "(nat, 'q) queue_ops \<Rightarrow> ('q, 'a) leave \<Rightarrow> nat list \<Rightarrow> ('q, 'a) srv \<Rightarrow> ('q, 'a) srv res" where
  "stop_loop Q leave [] s = Inr s"
| "stop_loop Q leave (i # is) s =
     andThen (if sock (sess s i) \<noteq> INVALID_SOCKET then DisConnect Q leave i s else Inr s) (\<lambda>s1.
     andThen (drain_sendBuf Q True i s1) (\<lambda>s2.
     andThen (drain_completeSendBuf Q True i s2) (\<lambda>s3.
       stop_loop Q leave is (set_sess i (\<lambda>x. x\<lparr>recvBuf := rb_ClearBuffer (recvBuf x)\<rparr>) s3))))"

definition Stop :: "(nat, 'q) queue_ops \<Rightarrow> ('q, 'a) leave \<Rightarrow> ('q, 'a) srv \<Rightarrow> ('q, 'a) srv res" where
  "Stop Q leave s =
     andThen (stop_loop Q leave [0..<nat (maxClientCount s)] s) (\<lambda>s1.
       Inr (s1\<lparr>sessionArray := [], sessionCount := 0, sendTPS := 0, recvTPS := 0, acceptTPS := 0, acceptCount := 0\<rparr>))"

section \<open>Session identifiers\<close>

lemma unat_low16: "unat (take_bit 16 w) = unat w mod 65536" for w :: UINT64
proof -
  have "unat (take_bit 16 w) = take_bit 16 (unat w)" by (rule unsigned_take_bit_eq)
  then show ?thesis by (simp only: take_bit_eq_mod) simp
qed

lemma combine_bits:
  assumes "unat idx < 65536"
  shows "GET_SESSION_INDEX (COMBINE_ID_INDEX c idx) = idx"
    and "GET_SESSION_ID (COMBINE_ID_INDEX c idx) = take_bit 16 c"
proof -
  have idx: "take_bit 16 idx = idx"
    using assms unat_low16 [of idx] by (metis mod_less unsigned_word_eqI)
  then have hi: "\<not> bit idx n" if "16 \<le> n" for n
    using that by (metis bit_take_bit_iff not_le)
  have mask: "(0xffff :: UINT64) = mask 16" by (simp add: mask_eq_exp_minus_1)
  show "GET_SESSION_INDEX (COMBINE_ID_INDEX c idx) = idx"
    unfolding GET_SESSION_INDEX_def COMBINE_ID_INDEX_def mask
    by (rule bit_word_eqI) (use hi in \<open>auto simp: bit_simps not_le [symmetric]\<close>)
  show "GET_SESSION_ID (COMBINE_ID_INDEX c idx) = take_bit 16 c"
    unfolding GET_SESSION_ID_def COMBINE_ID_INDEX_def
    by (rule bit_word_eqI) (use hi in \<open>auto simp: bit_simps\<close>)
qed

text \<open>
  C31. Session ids, for slots below 65536. A session id holds its slot and the low 16 bits of the accept counter: both are read back
  by \<open>GET_SESSION_INDEX\<close> and \<open>GET_SESSION_ID\<close>, and two ids are equal exactly when the slots are
  equal and the counters differ by a multiple of 65536.
\<close>

theorem session_id_roundtrip:
  assumes "unat idx < 65536" and "unat idx' < 65536"
  shows "GET_SESSION_INDEX (COMBINE_ID_INDEX c idx) = idx \<and>
    unat (GET_SESSION_ID (COMBINE_ID_INDEX c idx)) = unat c mod 65536 \<and>
    (COMBINE_ID_INDEX c idx = COMBINE_ID_INDEX c' idx' \<longleftrightarrow> idx = idx' \<and> unat c mod 65536 = unat c' mod 65536)"
proof -
  note t = unat_low16
  have "COMBINE_ID_INDEX c idx = COMBINE_ID_INDEX c' idx" if "take_bit 16 c = take_bit 16 c'"
  proof -
    have "push_bit 48 c = push_bit 48 c'"
    proof (rule bit_word_eqI)
      fix n assume "n < LENGTH(64)"
      then show "bit (push_bit 48 c) n \<longleftrightarrow> bit (push_bit 48 c') n"
        using arg_cong [OF that, of "\<lambda>w. bit w (n - 48)"] by (auto simp: bit_simps)
    qed
    then show ?thesis by (simp add: COMBINE_ID_INDEX_def)
  qed
  moreover have "take_bit 16 c = take_bit 16 c' \<longleftrightarrow> unat c mod 65536 = unat c' mod 65536"
    using t by (metis unsigned_word_eqI)
  ultimately show ?thesis using combine_bits [OF assms(1)] combine_bits [OF assms(2)] t by metis
qed

theorem session_id_roundtrip_witness:
  "GET_SESSION_INDEX (COMBINE_ID_INDEX 7 3) = 3 \<and> COMBINE_ID_INDEX 65543 3 = COMBINE_ID_INDEX 7 3"
  using session_id_roundtrip [of 3 3 7 65543] session_id_roundtrip [of 3 3 65543 7] by simp

section \<open>Frame lemmas\<close>

lemma sess_set_sess [simp]:
  "i < length (sessionArray s) \<Longrightarrow> sess (set_sess i f s) j = (if j = i then f (sess s i) else sess s j)"
  by (simp add: sess_def set_sess_def)

lemma set_sess_simps [simp]:
  "length (sessionArray (set_sess i f s)) = length (sessionArray s)"
  "indexStack (set_sess i f s) = indexStack s"
  "srv_sessionID (set_sess i f s) = srv_sessionID s"
  "maxClientCount (set_sess i f s) = maxClientCount s"
  "sessionCount (set_sess i f s) = sessionCount s"
  "sendTPS (set_sess i f s) = sendTPS s"
  "recvTPS (set_sess i f s) = recvTPS s"
  "acceptTPS (set_sess i f s) = acceptTPS s"
  "acceptCount (set_sess i f s) = acceptCount s"
  "packets (set_sess i f s) = packets s"
  "os_calls (set_sess i f s) = os_calls s"
  "now (set_sess i f s) = now s"
  "IOCPServer.more (set_sess i f s) = IOCPServer.more s"
  by (simp_all add: set_sess_def)

lemma add_call_simps [simp]:
  "sessionArray (add_call c s) = sessionArray s"
  "sess (add_call c s) i = sess s i"
  "indexStack (add_call c s) = indexStack s"
  "sessionCount (add_call c s) = sessionCount s"
  "maxClientCount (add_call c s) = maxClientCount s"
  "packets (add_call c s) = packets s"
  "os_calls (add_call c s) = os_calls s @ [c]"
  "now (add_call c s) = now s"
  "srv_sessionID (add_call c s) = srv_sessionID s"
  "IOCPServer.more (add_call c s) = IOCPServer.more s"
  by (simp_all add: add_call_def sess_def)

lemma tick_simps [simp]:
  "sessionArray (tick s) = sessionArray s"
  "sess (tick s) i = sess s i"
  "indexStack (tick s) = indexStack s"
  "sessionCount (tick s) = sessionCount s"
  "maxClientCount (tick s) = maxClientCount s"
  "packets (tick s) = packets s"
  "os_calls (tick s) = os_calls s"
  "now (tick s) = now s + 1"
  "srv_sessionID (tick s) = srv_sessionID s"
  "IOCPServer.more (tick s) = IOCPServer.more s"
  by (simp_all add: tick_def sess_def)

lemma sess_packets [simp]: "sess (s\<lparr>packets := h\<rparr>) i = sess s i"
  "sess (s\<lparr>recvTPS := r\<rparr>) i = sess s i" "sess (s\<lparr>sendTPS := t\<rparr>) i = sess s i"
  "sess (s\<lparr>sessionCount := n\<rparr>) i = sess s i" "sess (s\<lparr>indexStack := st\<rparr>) i = sess s i"
  by (simp_all add: sess_def)

section \<open>Queues\<close>

lemma queue_push:
  assumes "queue_laws cap content Q"
  shows "content (fst (q_push Q x q)) = (if length (content q) < cap then content q @ [x] else content q)"
  using assms by (simp add: queue_laws_def)

lemma queue_pop_Nil: "queue_laws cap content Q \<Longrightarrow> content q = [] \<Longrightarrow> q_pop Q q = None"
proof -
  assume "queue_laws cap content Q" and c: "content q = []"
  then have "case content q of [] \<Rightarrow> q_pop Q q = None | x # xs \<Rightarrow> (\<exists>q'. q_pop Q q = Some (x, q') \<and> content q' = xs)"
    unfolding queue_laws_def by blast
  with c show ?thesis by simp
qed

lemma queue_pop_Cons:
  "queue_laws cap content Q \<Longrightarrow> content q = x # xs \<Longrightarrow> \<exists>q'. q_pop Q q = Some (x, q') \<and> content q' = xs"
proof -
  assume "queue_laws cap content Q" and c: "content q = x # xs"
  then have "case content q of [] \<Rightarrow> q_pop Q q = None | x # xs \<Rightarrow> (\<exists>q'. q_pop Q q = Some (x, q') \<and> content q' = xs)"
    unfolding queue_laws_def by blast
  with c show ?thesis by simp
qed

text \<open>Emptying a queue ends and drops one reference for each packet in it.\<close>

lemma drain_loop_ends:
  assumes Q: "queue_laws cap content Q"
  shows "0 \<notin> set (content q) \<Longrightarrow>
    \<exists>q'. drain_loop Q checked q h = Some (Inr (q', fold pkt_SubRef (content q) h)) \<and> content q' = []"
proof (induction "content q" arbitrary: q h)
  case Nil
  then show ?case using queue_pop_Nil [OF Q, of q] by (subst drain_loop.simps) auto
next
  case (Cons p ps)
  from queue_pop_Cons [OF Q Cons.hyps(2) [symmetric]] obtain q1
    where q1: "q_pop Q q = Some (p, q1)" "content q1 = ps" by blast
  from Cons.hyps(1) [of q1 "pkt_SubRef p h"] q1 Cons.prems Cons.hyps(2) [symmetric] obtain q'
    where "drain_loop Q checked q1 (pkt_SubRef p h) = Some (Inr (q', fold pkt_SubRef ps (pkt_SubRef p h)))"
      "content q' = []" by auto
  with q1 Cons.prems Cons.hyps(2) [symmetric] show ?case by (subst drain_loop.simps) auto
qed

lemma returned_Some [simp]: "returned (Some r) = r" and returned_None [simp]: "returned None = Inl NoReturn"
  by (simp_all add: returned_def)

text \<open>The laws can hold: a list with a bound is such a queue.\<close>

definition list_queue :: "nat \<Rightarrow> ('x, 'x list) queue_ops" where
  "list_queue cap =
     \<lparr>q_new = [],
      q_push = (\<lambda>x q. if length q < cap then (q @ [x], True) else (q, False)),
      q_pop = (\<lambda>q. case q of [] \<Rightarrow> None | x # xs \<Rightarrow> Some (x, xs))\<rparr>"

lemma queue_laws_list: "queue_laws cap (\<lambda>q. q) (list_queue cap)"
  by (auto simp: queue_laws_def list_queue_def split: list.splits)

end
