(* ===== verification/Framing.thy ===== *)
theory Framing
  imports IocpServer
begin

text \<open>
  The framing of the byte stream: what the loop of \<open>RecvComplete\<close> (IOCPServer.cpp) makes of the
  bytes in the receive ring. The reference is a function on lists of bytes; the loop delivers
  what the reference parses, however the stream was cut into receives.
\<close>

section \<open>Receiving one packet\<close>

lemma pkt_header_received:
  assumes "pkt_512 x" and "length hb = 5"
  shows "\<exists>b. pkt_SetMessageHeader hb MESSAGE_HEADER_LEN (pkt_Clear x) =
      Inr ((pkt_Clear x)\<lparr>m_cpHeadPtr := Some (hb @ b)\<rparr>) \<and> length b = 507"
proof -
  from assms(1) obtain b where b: "m_cpHeadPtr x = Some b" "length b = 512" "m_iMaxSize x = 512"
    by (auto simp: pkt_512_def)
  then have "pkt_SetMessageHeader hb MESSAGE_HEADER_LEN (pkt_Clear x) =
      Inr ((pkt_Clear x)\<lparr>m_cpHeadPtr := Some (mem_write (replicate 512 0) 0 hb)\<rparr>)"
    using assms(2)
    by (simp add: pkt_SetMessageHeader_def pkt_Clear_def MESSAGE_HEADER_LEN_def mem_simps mem_write_def)
  then show ?thesis using assms(2) by (auto simp: mem_write_def)
qed

text \<open>The bytes behind a header go from the ring into the payload when they fit in it.\<close>

lemma dequeue_into_ok:
  assumes wf: "rb_wf rb" and rb: "rb_list rb = xs @ rest" and x: "m_cpHeadPtr x = Some (hb @ b)"
    and len: "length hb = 5" "length xs \<le> length b" "length b = 507"
  shows "\<exists>rb'. dequeue_into (int (length xs)) rb x =
      Inr (int (length xs), rb', x\<lparr>m_cpHeadPtr := Some (hb @ xs @ drop (length xs) b)\<rparr>) \<and>
    rb_wf rb' \<and> rb_list rb' = rest"
proof -
  from rb_Dequeue_ok [OF wf, of "int (length xs)" "length xs" b] rb len
  obtain rb' where "rb_Dequeue b (int (length xs)) rb = Inr (rb', mem_write b 0 xs, int (length xs))"
      "rb_wf rb'" "rb_list rb' = rest" by auto
  with x len show ?thesis
    by (simp add: dequeue_into_def eBUFFER_HEADER_SIZE_def MESSAGE_HEADER_LEN_def mem_write_def)
qed

lemma memcpy_s_overflow:
  assumes "0 < n" and "n \<le> destsz" and "destsz < 2 ^ 63" and "n \<le> int (length src)"
    and "int (length dst) < off + n"
  shows "memcpy_s dst off destsz src n = Inl OutOfBoundsWrite"
  using assms by (simp add: memcpy_s_def memcpy_overflow)

lemma rb_copy_out_overflow:
  assumes wf: "rb_wf rb" and iSize: "iSize < 2 ^ 31"
    and k: "int k = min iSize (int (length (rb_list rb)))" and dest: "length chpDest < k"
  shows "rb_copy_out chpDest iSize rb = Inl OutOfBoundsWrite"
proof -
  from wf obtain f r n where eq: "iFrontPos rb = int f" "iRearPos rb = int r"
      "iBufSize rb = int n" "length (rb_data rb) = n" and lt: "f < n" "r < n" "0 < n" "n \<le> 2 ^ 30"
    by (rule rb_wf_nats)
  have "k \<le> length (ring_seg f r (rb_data rb))" using k eq by (simp add: rb_list_def)
  then have kn: "k < n" using lt eq by (auto simp: length_ring_seg split: if_splits)
  have rs: "(if rb_GetUseSize rb < iSize then rb_GetUseSize rb else iSize) = int k"
    using k by (simp add: rb_GetUseSize_length [OF wf] min_def split: if_splits)
  have ks: "int k \<le> iSize" using k by simp
  consider "f + k \<le> n" | "n < f + k" "length chpDest < n - f" | "n < f + k" "n - f \<le> length chpDest"
    by linarith
  then show ?thesis
    using eq lt ks iSize dest kn
    by cases (simp_all add: rb_copy_out_def rs Let_def memcpy_s_ok memcpy_s_overflow)
qed

text \<open>A length the payload has no room for makes the copy leave the packet's memory.\<close>

lemma dequeue_into_overflow:
  assumes wf: "rb_wf rb" and rb: "rb_list rb = xs @ rest" and x: "m_cpHeadPtr x = Some (hb @ b)"
    and len: "length hb = 5" "length b < length xs"
  shows "dequeue_into (int (length xs)) rb x = Inl OutOfBoundsWrite"
proof -
  have "int (length xs) < 2 ^ 31" using rb_use_bound [OF wf] rb wf by (simp add: rb_wf_def)
  then have "rb_copy_out b (int (length xs)) rb = Inl OutOfBoundsWrite"
    using rb len by (intro rb_copy_out_overflow [OF wf]) auto
  with x len show ?thesis
    by (simp add: dequeue_into_def rb_Dequeue_def eBUFFER_HEADER_SIZE_def MESSAGE_HEADER_LEN_def)
qed

section \<open>The reference parser\<close>

datatype parsed = Wait | Bad | Overrun | Got "byte list" "byte list"

text \<open>
  One packet at the head of the stream. \<open>Overrun\<close>: the header announces more than the 507 bytes
  of payload a packet has; the code does not test this.
\<close>

definition parse1 :: "byte list \<Rightarrow> parsed" where
  "parse1 bs =
     (if length bs < 5 then Wait
      else
        let h = header_of bs; len = unat (hd_len h)
        in if hd_code h \<noteq> PACKET_CODE \<or> len = 0 then Bad
           else if length bs < 5 + len then Wait
           else if 507 < len then Overrun
           else
             let d = decode_ref (hd_randKey h) 0 0 0 (take len (drop 5 bs))
             in if hd_checkSum h = sum_list d then Got d (drop (5 + len) bs) else Bad)"

lemma parse1_Got_shorter: "parse1 bs = Got d rest \<Longrightarrow> length rest < length bs"
  by (auto simp: parse1_def Let_def split: if_splits)

datatype parse_end = Waiting "byte list" | Refused | Overrunning

function parse :: "byte list \<Rightarrow> byte list list \<times> parse_end" where
  "parse bs =
     (case parse1 bs of
        Wait \<Rightarrow> ([], Waiting bs)
      | Bad \<Rightarrow> ([], Refused)
      | Overrun \<Rightarrow> ([], Overrunning)
      | Got d rest \<Rightarrow> (case parse rest of (ds, e) \<Rightarrow> (d # ds, e)))"
  by pat_completeness auto
termination
  by (relation "measure length") (auto dest: parse1_Got_shorter)

declare parse.simps [simp del]

lemma parse1_frame:
  assumes "xs \<noteq> []" and "length xs \<le> 507"
  shows "parse1 (frame key xs @ rest) = Got xs rest"
proof -
  let ?h = "\<lparr>hd_code = PACKET_CODE, hd_len = of_nat (length xs), hd_randKey = key, hd_checkSum = sum_list xs\<rparr>"
  have h: "header_of (frame key xs @ rest) = ?h"
    unfolding frame_def append_assoc by (rule header_of_bytes)
  have "unat (of_nat (length xs) :: WORD) = length xs"
    using assms(2) by (simp add: unat_of_nat take_bit_eq_mod)
  moreover have "drop 5 (frame key xs @ rest) = encode_ref key 0 0 0 xs @ rest" by (simp add: frame_def)
  moreover have "drop (5 + length xs) (frame key xs @ rest) = rest" by (simp add: frame_def)
  ultimately show ?thesis
    using assms by (simp add: parse1_def h Let_def decode_encode_ref)
qed

lemma parse_frames:
  assumes "\<And>k x. (k, x) \<in> set fs \<Longrightarrow> x \<noteq> [] \<and> length x \<le> 507"
  shows "parse (concat (map (\<lambda>(k, x). frame k x) fs) @ rest) = (map snd fs @ fst (parse rest), snd (parse rest))"
  using assms
proof (induction fs)
  case (Cons f fs)
  obtain k x where f: "f = (k, x)" by (cases f)
  with Cons.prems have "x \<noteq> []" "length x \<le> 507" by auto
  note p = parse1_frame [OF this]
  have "parse (concat (map (\<lambda>(k, x). frame k x) fs) @ rest) = (map snd fs @ fst (parse rest), snd (parse rest))"
    using Cons by auto
  then show ?case using f by (subst parse.simps) (simp add: p)
qed simp

subsection \<open>Cutting the stream\<close>

lemma header_of_append: "5 \<le> length bs \<Longrightarrow> header_of (bs @ cs) = header_of bs"
  by (cases bs) (simp_all add: header_of_def nth_append)

lemma parse1_append:
  assumes "parse1 bs \<noteq> Wait"
  shows "parse1 (bs @ cs) = (case parse1 bs of Got d rest \<Rightarrow> Got d (rest @ cs) | r \<Rightarrow> r)"
proof -
  have "5 \<le> length bs" using assms by (simp add: parse1_def split: if_splits)
  with assms header_of_append [OF this, of cs] show ?thesis
    by (auto simp: parse1_def Let_def not_less not_le split: if_splits)
qed

lemma parse_append:
  "parse (bs @ cs) =
     (case parse bs of
        (ds, Waiting r) \<Rightarrow> (case parse (r @ cs) of (ds', e) \<Rightarrow> (ds @ ds', e))
      | (ds, e) \<Rightarrow> (ds, e))"
proof (induction bs rule: parse.induct)
  case (1 bs)
  show ?case
  proof (cases "parse1 bs")
    case Wait
    then show ?thesis by (subst (2) parse.simps) simp
  next
    case (Got d rest)
    have "parse (bs @ cs) = (case parse (rest @ cs) of (ds, e) \<Rightarrow> (d # ds, e))"
      using parse1_append [of bs cs] Got by (subst parse.simps) simp
    moreover have "parse bs = (case parse rest of (ds, e) \<Rightarrow> (d # ds, e))"
      using Got by (subst parse.simps) simp
    ultimately show ?thesis using 1 [OF Got] by (auto split: prod.splits parse_end.splits)
  qed (use parse1_append [of bs cs] parse.simps [of "bs @ cs"] parse.simps [of bs] in auto)
qed

section \<open>The loop implements the parser\<close>

text \<open>
  What the receive path relies on: \<open>malloc\<close> returns a new block each time and never null, and the
  packet pool is in order.
\<close>

definition malloc_laws :: "os \<Rightarrow> bool" where
  "malloc_laws W \<longleftrightarrow> inj (os_malloc W) \<and> (\<forall>n. os_malloc W n \<noteq> 0)"

definition net_ok :: "os \<Rightarrow> ('q, 'a) srv \<Rightarrow> bool" where
  "net_ok W s \<longleftrightarrow> pool_ok pkt_512 (packets s) \<and> blocks (pl_list (packets s)) \<subseteq> os_malloc W ` {..<now s}"

lemma malloc_fresh:
  assumes "malloc_laws W" and "net_ok W s"
  shows "os_malloc W (now s) \<noteq> 0" and "os_malloc W (now s) \<notin> blocks (pl_list (packets s))"
proof -
  have "os_malloc W (now s) \<notin> os_malloc W ` {..<now s}"
    using assms(1) by (auto simp: malloc_laws_def dest: injD)
  with assms show "os_malloc W (now s) \<noteq> 0" "os_malloc W (now s) \<notin> blocks (pl_list (packets s))"
    by (auto simp: malloc_laws_def net_ok_def)
qed

text \<open>A packet just received: its unread bytes are the decoded payload.\<close>

lemma decode_received:
  assumes x: "pkt_512 x" and hb: "length hb = 5" and xs: "length xs \<le> 507" and b: "length b = 507"
    and code: "hd_code (header_of hb) = PACKET_CODE" and ne: "xs \<noteq> []"
  shows "\<exists>y. pkt_SetDecodingCode (fst (pkt_MoveWritePos (int (length xs))
        ((pkt_Clear x)\<lparr>m_cpHeadPtr := Some (hb @ xs @ drop (length xs) b)\<rparr>))) =
      Inr (hd_checkSum (header_of hb) = sum_list (decode_ref (hd_randKey (header_of hb)) 0 0 0 xs), y) \<and>
    pkt_512 y \<and> pkt_wf y \<and> m_iFront y = 0 \<and> \<not> m_bIsEncoded y \<and> m_lRefCount y = m_lRefCount x \<and>
    pkt_list y = decode_ref (hd_randKey (header_of hb)) 0 0 0 xs"
proof -
  let ?b = "hb @ xs @ drop (length xs) b"
  define z where "z = fst (pkt_MoveWritePos (int (length xs)) ((pkt_Clear x)\<lparr>m_cpHeadPtr := Some ?b\<rparr>))"
  have z: "z = (pkt_Clear x)\<lparr>m_cpHeadPtr := Some ?b, m_iRear := int (length xs), m_iUsingSize := int (length xs)\<rparr>"
    using x xs ne by (auto simp: z_def pkt_MoveWritePos_def pkt_GetFreeSize_def pkt_Clear_def pkt_512_def Let_def)
  have wf: "pkt_wf z" and front: "m_iFront z = 0" and buf: "pkt_buf z = ?b" and list: "pkt_list z = xs"
    using x xs hb b
    by (auto simp: z pkt_wf_def pkt_buf_def pkt_list_def pkt_Clear_def pkt_512_def
        eBUFFER_HEADER_SIZE_def MESSAGE_HEADER_LEN_def)
  have h: "header_of (pkt_buf z) = header_of hb" unfolding buf using hb by (simp add: header_of_append)
  from pkt_decode_ok [OF wf front refl] code h list obtain y
    where y: "pkt_SetDecodingCode z =
        Inr (hd_checkSum (header_of hb) = sum_list (decode_ref (hd_randKey (header_of hb)) 0 0 0 xs), y)"
      "pkt_wf y" "m_iFront y = 0" "pkt_list y = decode_ref (hd_randKey (header_of hb)) 0 0 0 xs"
      "m_lRefCount y = m_lRefCount z" "m_bIsEncoded y = m_bIsEncoded z" by auto
  have "m_iMaxSize y = m_iMaxSize z"
    using y(1) by (auto simp: pkt_SetDecodingCode_def payload_write_def andThen_eq_Inr Let_def
        split: option.splits if_splits)
  then have "pkt_512 y" using y(2) x by (auto simp: pkt_512_def pkt_wf_def pkt_buf_def z pkt_Clear_def)
  with y show ?thesis unfolding z_def [symmetric] by (simp add: z pkt_Clear_def)
qed

lemma pkt_Alloc_ok:
  assumes "pool_ok pkt_512 h" and "a \<noteq> 0" and "a \<notin> blocks (pl_list h)"
  shows "\<exists>p h'. pkt_Alloc a h = Inr (p, h') \<and> pool_ok pkt_512 h' \<and> p \<notin> pool_live h \<and>
    pool_live h' = insert p (pool_live h) \<and> blocks (pl_list h') \<subseteq> insert a (blocks (pl_list h)) \<and>
    m_lRefCount (pl_objs h' p) = 1 \<and> (\<forall>q. q \<noteq> p \<longrightarrow> pl_objs h' q = pl_objs h q)"
proof -
  from pool_Alloc_ok [OF assms(1) pkt_512_new assms(2,3)] obtain p h1
    where h1: "pool_Alloc pkt_new a h = Inr (p, h1)" "pool_ok pkt_512 h1" "p \<notin> pool_live h"
      "pool_live h1 = insert p (pool_live h)" "blocks (pl_list h1) \<subseteq> insert a (blocks (pl_list h))"
      "\<And>q. q \<noteq> p \<Longrightarrow> pl_objs h1 q = pl_objs h q" by blast
  from h1(2) have "pkt_512 (pkt_Clear (pl_objs h1 p))" by (simp add: pool_ok_def pkt_Clear_512)
  with h1(2) have "pool_ok pkt_512 (pool_upd p (\<lambda>p. p\<lparr>m_lRefCount := 1\<rparr>) (pool_upd p pkt_Clear h1))"
    by (intro pool_ok_upd) auto
  with h1 show ?thesis by (simp add: pkt_Alloc_def)
qed

text \<open>What is the same after a packet has been taken from the ring of session \<open>i\<close>.\<close>

definition recv_frame :: "nat \<Rightarrow> nat \<Rightarrow> ('q, 'a) srv \<Rightarrow> ('q, 'a) srv \<Rightarrow> bool" where
  "recv_frame i p s s1 \<longleftrightarrow>
     p \<notin> pool_live (packets s) \<and> pool_live (packets s1) = insert p (pool_live (packets s)) \<and>
     (\<forall>q. q \<noteq> p \<longrightarrow> pl_objs (packets s1) q = pl_objs (packets s) q) \<and>
     m_lRefCount (pl_objs (packets s1) p) = 1 \<and>
     length (sessionArray s1) = length (sessionArray s) \<and> (\<forall>j. j \<noteq> i \<longrightarrow> sess s1 j = sess s j) \<and>
     sess s1 i = (sess s i)\<lparr>recvBuf := recvBuf (sess s1 i)\<rparr> \<and>
     indexStack s1 = indexStack s \<and> sessionCount s1 = sessionCount s \<and> os_calls s1 = os_calls s \<and>
     IOCPServer.more s1 = IOCPServer.more s"

lemma recv_step_head:
  assumes wf: "rb_wf (recvBuf (sess s i))" and bs: "bs = rb_list (recvBuf (sess s i))"
    and long: "5 \<le> length bs"
  shows "rb_GetUseSize (recvBuf (sess s i)) = int (length bs)"
    and "rb_Peek (replicate 5 0) 5 (recvBuf (sess s i)) = Inr (take 5 bs, 5)"
    and "header_of (take 5 bs) = header_of bs"
proof -
  show "rb_GetUseSize (recvBuf (sess s i)) = int (length bs)"
    using rb_GetUseSize_length [OF wf] bs by simp
  show "rb_Peek (replicate 5 0) 5 (recvBuf (sess s i)) = Inr (take 5 bs, 5)"
    using rb_Peek_ok [OF wf, of 5 5 "replicate 5 0"] bs long
    by (simp add: mem_write_def)
  show "header_of (take 5 bs) = header_of bs"
    using header_of_append [of "take 5 bs" "drop 5 bs"] long by simp
qed

lemma recv_step_short:
  assumes wf: "rb_wf (recvBuf (sess s i))" and bs: "bs = rb_list (recvBuf (sess s i))"
  shows "parse1 bs = Wait \<Longrightarrow> recv_step W i s = Inr (NeedMore, s)"
    and "5 \<le> length bs \<Longrightarrow> hd_code (header_of bs) \<noteq> PACKET_CODE \<or> unat (hd_len (header_of bs)) = 0 \<Longrightarrow>
      recv_step W i s = Inr (Refuse, s)"
proof -
  show "recv_step W i s = Inr (Refuse, s)"
    if "5 \<le> length bs" "hd_code (header_of bs) \<noteq> PACKET_CODE \<or> unat (hd_len (header_of bs)) = 0"
  proof -
    have "hd_code (header_of bs) \<noteq> PACKET_CODE \<or> uint (hd_len (header_of bs)) = 0"
      using that(2) by (auto simp: unat_eq_0)
    with recv_step_head [OF wf bs that(1)] that(1) show ?thesis by (auto simp: recv_step_def Let_def)
  qed
  show "recv_step W i s = Inr (NeedMore, s)" if "parse1 bs = Wait"
  proof (cases "length bs < 5")
    case True
    then show ?thesis using rb_GetUseSize_length [OF wf] bs by (simp add: recv_step_def)
  next
    case False
    with that have "length bs < 5 + unat (hd_len (header_of bs))" "hd_code (header_of bs) = PACKET_CODE"
      "unat (hd_len (header_of bs)) \<noteq> 0"
      by (auto simp: parse1_def Let_def split: if_splits)
    moreover from this have "int (length bs) < 5 + uint (hd_len (header_of bs))"
      "uint (hd_len (header_of bs)) \<noteq> 0"
      by (metis of_nat_less_iff of_nat_add of_nat_numeral uint_nat, metis of_nat_0_eq_iff uint_nat)
    ultimately show ?thesis using recv_step_head [OF wf bs] False
      by (auto simp: recv_step_def Let_def MESSAGE_HEADER_LEN_def)
  qed
qed

text \<open>
  The turn for a packet that has arrived completely: \<open>n\<close> is the length its header announces.
\<close>

lemma recv_step_full:
  assumes W: "malloc_laws W" and ok: "net_ok W s" and i: "i < length (sessionArray s)"
    and wf: "rb_wf (recvBuf (sess s i))" and bs: "bs = rb_list (recvBuf (sess s i))"
    and h: "h = header_of bs" "hd_code h = PACKET_CODE" and n: "n = unat (hd_len h)" "0 < n"
    and len: "5 + n \<le> length bs"
  shows "507 < n \<Longrightarrow> recv_step W i s = Inl OutOfBoundsWrite"
    and "n \<le> 507 \<Longrightarrow> d = decode_ref (hd_randKey h) 0 0 0 (take n (drop 5 bs)) \<Longrightarrow>
      \<exists>p s1. recv_step W i s =
          Inr (if hd_checkSum h = sum_list d then (Deliver p, s1)
               else (Refuse, s1\<lparr>packets := pkt_SubRef p (packets s1)\<rparr>)) \<and>
        recv_frame i p s s1 \<and> net_ok W s1 \<and> rb_wf (recvBuf (sess s1 i)) \<and>
        rb_list (recvBuf (sess s1 i)) = drop (5 + n) bs \<and> pkt_wf (pl_objs (packets s1) p) \<and>
        pkt_list (pl_objs (packets s1) p) = d \<and> m_iFront (pl_objs (packets s1) p) = 0 \<and>
        \<not> m_bIsEncoded (pl_objs (packets s1) p)"
proof -
  define rb where "rb = recvBuf (sess s i)"
  define hb where "hb = take 5 bs"
  define xs where "xs = take n (drop 5 bs)"
  have u: "uint (hd_len h) = int n" using n by simp
  have hb: "length hb = 5" "header_of hb = h" using len h header_of_append [of hb "drop 5 bs"]
    by (simp_all add: hb_def)
  have xs: "length xs = n" "xs \<noteq> []" using len n by (auto simp: xs_def)
  note head = recv_step_head [OF wf bs, folded rb_def hb_def]
  have use: "rb_GetUseSize rb = int (length bs)" and peek: "rb_Peek (replicate 5 0) 5 rb = Inr (hb, 5)"
    using head len by simp_all
  from rb_MoveFront_ok [OF wf, of 5, folded rb_def] bs obtain rb1
    where rb1: "rb_MoveFront 5 rb = Inr (rb1, iFrontPos rb1)" "rb_wf rb1" "rb_list rb1 = xs @ drop (5 + n) bs"
    by (auto simp: rb_def xs_def drop_drop [symmetric] add.commute simp del: drop_drop)
  from ok have "pool_ok pkt_512 (packets s)" by (simp add: net_ok_def)
  from pkt_Alloc_ok [OF this malloc_fresh [OF W ok]] obtain p h1
    where h1: "pkt_Alloc (os_malloc W (now s)) (packets s) = Inr (p, h1)" "pool_ok pkt_512 h1"
      "p \<notin> pool_live (packets s)" "pool_live h1 = insert p (pool_live (packets s))"
      "blocks (pl_list h1) \<subseteq> insert (os_malloc W (now s)) (blocks (pl_list (packets s)))"
      "m_lRefCount (pl_objs h1 p) = 1" "\<And>q. q \<noteq> p \<Longrightarrow> pl_objs h1 q = pl_objs (packets s) q"
    by blast
  define x where "x = pl_objs h1 p"
  have x: "pkt_512 x" using h1(2) by (simp add: pool_ok_def x_def)
  from pkt_header_received [OF x hb(1)] obtain b
    where b: "pkt_SetMessageHeader hb MESSAGE_HEADER_LEN (pkt_Clear x) =
        Inr ((pkt_Clear x)\<lparr>m_cpHeadPtr := Some (hb @ b)\<rparr>)" "length b = 507" by blast
  let ?c = "(pkt_Clear x)\<lparr>m_cpHeadPtr := Some (hb @ b)\<rparr>"
  define s1 where "s1 = tick (set_sess i (\<lambda>x. x\<lparr>recvBuf := rb1\<rparr>) (s\<lparr>packets := pool_upd p pkt_Clear h1\<rparr>))"
  define s2 where "s2 = s1\<lparr>packets := pool_upd p (\<lambda>_. ?c) (packets s1)\<rparr>"
  have s2: "on_packet p (pkt_SetMessageHeader hb MESSAGE_HEADER_LEN) s1 = Inr s2" "pl_objs (packets s2) p = ?c"
    by (simp_all add: on_packet_def s1_def s2_def x_def [symmetric] b)
  have m: "\<not> MESSAGE_HEADER_LEN + int n > int (length bs)" using len by (simp add: MESSAGE_HEADER_LEN_def)
  have step: "recv_step W i s = andThen (dequeue_into (int n) rb1 ?c) (\<lambda>(got, rb2, x).
      let s3 = set_sess i (\<lambda>y. y\<lparr>recvBuf := rb2\<rparr>) (s2\<lparr>packets := pool_upd p (\<lambda>_. x) (packets s2)\<rparr>)
      in if int n \<noteq> got then Inr (Refuse, s3)
         else andThen (pkt_SetDecodingCode (fst (pkt_MoveWritePos (int n) x))) (\<lambda>(ok, y).
           let s4 = s3\<lparr>packets := pool_upd p (\<lambda>_. y) (packets s3)\<rparr>
           in if \<not> ok then Inr (Refuse, s4\<lparr>packets := pkt_SubRef p (packets s4)\<rparr>)
              else Inr (Deliver p, s4\<lparr>recvTPS := low_increment (recvTPS s4)\<rparr>)))"
    using n(2) len m h(2) s2
    by (simp add: recv_step_def Let_def rb_def [symmetric] use peek hb(2) u rb1(1) h1(1) s1_def [symmetric]
        cong del: if_weak_cong)
  show "recv_step W i s = Inl OutOfBoundsWrite" if "507 < n"
    using dequeue_into_overflow [OF rb1(2,3), of ?c hb b] hb b xs that by (simp add: step)
  show "\<exists>p s1. recv_step W i s =
          Inr (if hd_checkSum h = sum_list d then (Deliver p, s1)
               else (Refuse, s1\<lparr>packets := pkt_SubRef p (packets s1)\<rparr>)) \<and>
        recv_frame i p s s1 \<and> net_ok W s1 \<and> rb_wf (recvBuf (sess s1 i)) \<and>
        rb_list (recvBuf (sess s1 i)) = drop (5 + n) bs \<and> pkt_wf (pl_objs (packets s1) p) \<and>
        pkt_list (pl_objs (packets s1) p) = d \<and> m_iFront (pl_objs (packets s1) p) = 0 \<and>
        \<not> m_bIsEncoded (pl_objs (packets s1) p)"
    if small: "n \<le> 507" and d: "d = decode_ref (hd_randKey h) 0 0 0 (take n (drop 5 bs))"
  proof -
    from dequeue_into_ok [OF rb1(2,3), of ?c hb b] hb b xs small obtain rb2
      where rb2: "dequeue_into (int n) rb1 ?c =
          Inr (int n, rb2, ?c\<lparr>m_cpHeadPtr := Some (hb @ xs @ drop n b)\<rparr>)"
        "rb_wf rb2" "rb_list rb2 = drop (5 + n) bs" by auto
    from decode_received [OF x hb(1), of xs b] hb h xs b small obtain y
      where y: "pkt_SetDecodingCode (fst (pkt_MoveWritePos (int n)
            ((pkt_Clear x)\<lparr>m_cpHeadPtr := Some (hb @ xs @ drop n b)\<rparr>))) = Inr (hd_checkSum h = sum_list d, y)"
        "pkt_512 y" "pkt_wf y" "m_iFront y = 0" "\<not> m_bIsEncoded y" "m_lRefCount y = 1" "pkt_list y = d"
      using d h1(6) by (auto simp: xs_def x_def)
    define s3 where "s3 = set_sess i (\<lambda>y. y\<lparr>recvBuf := rb2\<rparr>)
      (s2\<lparr>packets := pool_upd p (\<lambda>_. ?c\<lparr>m_cpHeadPtr := Some (hb @ xs @ drop n b)\<rparr>) (packets s2)\<rparr>)"
    define s4 where "s4 = s3\<lparr>packets := pool_upd p (\<lambda>_. y) (packets s3)\<rparr>"
    define s5 where "s5 = (if hd_checkSum h = sum_list d then s4\<lparr>recvTPS := low_increment (recvTPS s4)\<rparr> else s4)"
    have eq: "recv_step W i s = Inr (if hd_checkSum h = sum_list d then (Deliver p, s5)
        else (Refuse, s5\<lparr>packets := pkt_SubRef p (packets s5)\<rparr>))"
      using y(1) by (simp add: step rb2(1) s5_def s4_def s3_def)
    have objs: "pl_objs (packets s5) p = y" "\<And>q. q \<noteq> p \<Longrightarrow> pl_objs (packets s5) q = pl_objs (packets s) q"
      "pl_list (packets s5) = pl_list h1"
      using h1(7) by (simp_all add: s5_def s4_def s3_def s2_def s1_def)
    have "pl_objs (packets s5) q = pl_objs h1 q" if "q \<noteq> p" for q using objs(2) h1(7) that by simp
    then have "pool_ok pkt_512 (packets s5)"
      using h1(2) y(2) objs(1,3) unfolding pool_ok_def by metis
    moreover have "now s5 = now s + 1" by (simp add: s5_def s4_def s3_def s2_def s1_def)
    ultimately have net: "net_ok W s5"
      using ok h1(5) by (auto simp: net_ok_def objs lessThan_Suc)
    have sess: "sess s5 j = (if j = i then (sess s i)\<lparr>recvBuf := rb2\<rparr> else sess s j)" for j
      using i by (simp add: s5_def s4_def s3_def s2_def s1_def)
    have "recv_frame i p s s5"
      using h1 y objs sess
      by (simp add: recv_frame_def) (simp add: s5_def s4_def s3_def s2_def s1_def)
    with eq net sess rb2 y objs show ?thesis by (intro exI [of _ p] exI [of _ s5]) simp
  qed
qed

text \<open>
  C20. One turn of the receive loop implements the parser on the bytes of the ring, in a server
  whose packet pool is in order: with an incomplete packet nothing changes; a wrong code, an
  empty packet or a wrong checksum refuses the connection; a complete packet of at most 507
  bytes is delivered decoded, in a packet nobody else holds, and its bytes leave the ring; an
  announced length above 507 makes the copy overrun the packet's memory.
\<close>

theorem recv_step_parses:
  assumes "malloc_laws W" and "net_ok W s" and "i < length (sessionArray s)" and "rb_wf (recvBuf (sess s i))"
  shows "case parse1 (rb_list (recvBuf (sess s i))) of
      Wait \<Rightarrow> recv_step W i s = Inr (NeedMore, s)
    | Bad \<Rightarrow> (\<exists>s1. recv_step W i s = Inr (Refuse, s1))
    | Overrun \<Rightarrow> recv_step W i s = Inl OutOfBoundsWrite
    | Got d rest \<Rightarrow> (\<exists>p s1. recv_step W i s = Inr (Deliver p, s1) \<and> recv_frame i p s s1 \<and> net_ok W s1 \<and>
        rb_wf (recvBuf (sess s1 i)) \<and> rb_list (recvBuf (sess s1 i)) = rest \<and>
        pkt_wf (pl_objs (packets s1) p) \<and> pkt_list (pl_objs (packets s1) p) = d \<and>
        m_iFront (pl_objs (packets s1) p) = 0 \<and> \<not> m_bIsEncoded (pl_objs (packets s1) p))"
proof -
  define bs where "bs = rb_list (recvBuf (sess s i))"
  define h where "h = header_of bs"
  define n where "n = unat (hd_len h)"
  define d where "d = decode_ref (hd_randKey h) 0 0 0 (take n (drop 5 bs))"
  note short = recv_step_short [OF assms(4) bs_def]
  show ?thesis
  proof (cases "parse1 bs = Wait \<or> hd_code h \<noteq> PACKET_CODE \<or> n = 0")
    case True
    then show ?thesis using short
      by (auto simp: bs_def [symmetric] h_def [symmetric] n_def [symmetric] parse1_def Let_def)
  next
    case False
    then have len: "5 + n \<le> length bs" "5 \<le> length bs" and ok: "hd_code h = PACKET_CODE" "0 < n"
      by (auto simp: parse1_def Let_def h_def n_def split: if_splits)
    note full = recv_step_full [OF assms bs_def h_def ok(1) n_def ok(2) len(1)]
    show ?thesis
    proof (cases "507 < n")
      case True
      then have "parse1 bs = Overrun" using len ok by (auto simp: parse1_def Let_def h_def n_def)
      with full(1) [OF True] show ?thesis by (simp add: bs_def)
    next
      case False
      then have p: "parse1 bs = (if hd_checkSum h = sum_list d then Got d (drop (5 + n) bs) else Bad)"
        using len ok by (auto simp: parse1_def Let_def h_def n_def d_def)
      from False have "n \<le> 507" by simp
      from full(2) [OF this d_def] p show ?thesis unfolding bs_def [symmetric]
        by (cases "hd_checkSum h = sum_list d") auto
    qed
  qed
qed

section \<open>The whole loop\<close>

text \<open>\<open>delivers ds s s'\<close>: turns of the loop hand the payloads \<open>ds\<close> to \<open>OnRecv\<close>, in this order.\<close>

inductive delivers :: "os \<Rightarrow> ('q, 'a) recv \<Rightarrow> nat \<Rightarrow> byte list list \<Rightarrow> ('q, 'a) srv \<Rightarrow> ('q, 'a) srv \<Rightarrow> bool"
  for W recv i where
  delivers_Nil: "delivers W recv i [] s s"
| delivers_Cons: "recv_step W i s = Inr (Deliver p, s1) \<Longrightarrow> pkt_list (pl_objs (packets s1) p) = d \<Longrightarrow>
    recv (sessionID (sess s1 i)) p s1 = Inr s2 \<Longrightarrow>
    delivers W recv i ds (s2\<lparr>packets := pkt_SubRef p (packets s2)\<rparr>) s' \<Longrightarrow> delivers W recv i (d # ds) s s'"

text \<open>
  What the loop needs of the server it runs in: an invariant \<open>Inv\<close> under which the receive path is in order, and which
  a call of \<open>OnRecv\<close> that returns keeps across itself and the \<open>SubRef\<close> after it; and that \<open>OnRecv\<close> leaves the bytes in the ring
  alone. Whether \<open>OnRecv\<close> returns is not assumed. Theory ChatReceive shows this of the handler of the chat server.
\<close>

locale stream_receiver =
  fixes W :: os and i :: nat and Inv :: "('q, 'a) srv \<Rightarrow> bool" and recv :: "('q, 'a) recv"
  assumes receive_path: "Inv s \<Longrightarrow> malloc_laws W \<and> net_ok W s \<and> i < length (sessionArray s) \<and> rb_wf (recvBuf (sess s i))"
    and recv_keeps: "Inv s \<Longrightarrow> recv_step W i s = Inr (Deliver p, s1) \<Longrightarrow> recv (sessionID (sess s1 i)) p s1 = Inr s2 \<Longrightarrow>
      rb_list (recvBuf (sess s2 i)) = rb_list (recvBuf (sess s1 i)) \<and> Inv (s2\<lparr>packets := pkt_SubRef p (packets s2)\<rparr>)"
begin

text \<open>
  The loop ends and hands the payloads the parser finds in the ring to \<open>OnRecv\<close> in order. When \<open>OnRecv\<close> returns from all of
  them, the loop waits with the unparsed rest in the ring, drops the connection or overruns a packet, as the parser says;
  when it does not return from one of them, the loop ends there.
\<close>

lemma loop_delivers:
  assumes "Inv s" and "parse (rb_list (recvBuf (sess s i))) = (ds, e)"
  shows "(\<exists>s'. delivers W recv i ds s s' \<and> Inv s' \<and>
      (case e of
         Waiting r \<Rightarrow> recv_loop W Q leave recv i s = Some (Inr (True, s')) \<and> rb_list (recvBuf (sess s' i)) = r
       | Refused \<Rightarrow> (\<exists>s1. recv_step W i s' = Inr (Refuse, s1) \<and>
           recv_loop W Q leave recv i s = Some (andThen (DisConnect Q leave i s1) (\<lambda>s2. Inr (False, s2))))
       | Overrunning \<Rightarrow> recv_loop W Q leave recv i s = Some (Inl OutOfBoundsWrite))) \<or>
    (\<exists>ds1 d ds2 s' p s1 err. ds = ds1 @ d # ds2 \<and> delivers W recv i ds1 s s' \<and>
      recv_step W i s' = Inr (Deliver p, s1) \<and> pkt_list (pl_objs (packets s1) p) = d \<and>
      recv (sessionID (sess s1 i)) p s1 = Inl err \<and> recv_loop W Q leave recv i s = Some (Inl err))"
  using assms
proof (induction "rb_list (recvBuf (sess s i))" arbitrary: s ds rule: parse.induct)
  case 1
  have W: "malloc_laws W" and net: "net_ok W s" "i < length (sessionArray s)" "rb_wf (recvBuf (sess s i))"
    using receive_path [OF 1(2)] by auto
  note step = recv_step_parses [OF W net]
  note loop = recv_loop.simps [of W Q leave recv i s]
  show ?case
  proof (cases "parse1 (rb_list (recvBuf (sess s i)))")
    case (Got d rest)
    with step obtain p s1 where p: "recv_step W i s = Inr (Deliver p, s1)"
      "rb_list (recvBuf (sess s1 i)) = rest" "pkt_list (pl_objs (packets s1) p) = d" by auto
    obtain ds' where rest: "parse rest = (ds', e)" and ds: "ds = d # ds'"
      using 1(3) Got by (subst (asm) parse.simps) (auto split: prod.splits)
    show ?thesis
    proof (cases "recv (sessionID (sess s1 i)) p s1")
      case (Inl err)
      then have "recv_loop W Q leave recv i s = Some (Inl err)" using p by (simp add: loop)
      then show ?thesis
        using Inl p ds delivers_Nil [of W recv i s]
        by (intro disjI2 exI [of _ "[]"] exI [of _ d] exI [of _ ds'] exI [of _ s] exI [of _ p] exI [of _ s1] exI [of _ err]) simp
    next
      case s2: (Inr s2)
      let ?s3 = "s2\<lparr>packets := pkt_SubRef p (packets s2)\<rparr>"
      note k = recv_keeps [OF 1(2) p(1) s2]
      have "parse1 (rb_list (recvBuf (sess s i))) = Got d (rb_list (recvBuf (sess ?s3 i)))"
        "parse (rb_list (recvBuf (sess ?s3 i))) = (ds', e)" using Got rest k p(2) by simp_all
      note ih = 1(1) [OF this(1) conjunct2 [OF k] this(2)]
      have eq: "recv_loop W Q leave recv i s = recv_loop W Q leave recv i ?s3"
        using p s2 by (simp add: loop)
      note cons = delivers_Cons [of W i s p s1 d recv s2, OF p(1,3) s2]
      from ih show ?thesis
      proof (elim disjE exE conjE)
        fix s' assume "delivers W recv i ds' ?s3 s'" and "Inv s'" and "case e of
            Waiting r \<Rightarrow> recv_loop W Q leave recv i ?s3 = Some (Inr (True, s')) \<and> rb_list (recvBuf (sess s' i)) = r
          | Refused \<Rightarrow> (\<exists>s1. recv_step W i s' = Inr (Refuse, s1) \<and>
              recv_loop W Q leave recv i ?s3 = Some (andThen (DisConnect Q leave i s1) (\<lambda>s2. Inr (False, s2))))
          | Overrunning \<Rightarrow> recv_loop W Q leave recv i ?s3 = Some (Inl OutOfBoundsWrite)"
        then show ?thesis unfolding ds eq using cons by blast
      next
        fix ds1 d' ds2 s' p' s1' err assume "ds' = ds1 @ d' # ds2" "delivers W recv i ds1 ?s3 s'"
          "recv_step W i s' = Inr (Deliver p', s1')" "pkt_list (pl_objs (packets s1') p') = d'"
          "recv (sessionID (sess s1' i)) p' s1' = Inl err" "recv_loop W Q leave recv i ?s3 = Some (Inl err)"
        then show ?thesis unfolding ds eq using cons
          by (intro disjI2 exI [of _ "d # ds1"] exI [of _ d'] exI [of _ ds2] exI [of _ s'] exI [of _ p'] exI [of _ s1'] exI [of _ err])
            simp
      qed
    qed
  qed (use step 1 loop in
      \<open>(intro disjI1 exI [of _ s], auto simp: parse.simps [of "rb_list (recvBuf (sess s i))"] intro: delivers_Nil)\<close>)
qed

end

text \<open>A server with one session in whose ring a packet with the payload 7 has arrived.\<close>

definition one_packet_server :: "nat list IOCPServer" where
  "one_packet_server =
     \<lparr>sessionArray = [(Session_new (list_queue 4096))
         \<lparr>recvBuf := \<lparr>iFrontPos = 0, iRearPos = 6, iBufSize = 65536, rb_data = frame 3 [7] @ replicate 65530 0\<rparr>\<rparr>],
      indexStack = [], srv_sessionID = 0, maxClientCount = 1, sessionCount = 1, sendTPS = 0, recvTPS = 0,
      acceptTPS = 0, acceptCount = 0, packets = pool_new pkt_new, os_calls = [], now = 0\<rparr>"

definition plain_os :: os where
  "plain_os = \<lparr>os_malloc = Suc, os_rand = (\<lambda>n. n), os_tick = of_nat, os_WSASend = (\<lambda>_. IoPending),
               os_WSARecv = (\<lambda>_. IoPending)\<rparr>"

lemma one_packet_server_ok:
  "malloc_laws plain_os" "net_ok plain_os one_packet_server" "0 < length (sessionArray one_packet_server)"
  "rb_wf (recvBuf (sess one_packet_server 0))" "rb_list (recvBuf (sess one_packet_server 0)) = frame 3 [7]"
proof -
  show "malloc_laws plain_os" by (simp add: malloc_laws_def plain_os_def inj_def)
  show "net_ok plain_os one_packet_server"
    using pool_ok_new [of pkt_512, OF pkt_512_new]
    by (simp add: net_ok_def one_packet_server_def) (simp add: pool_new_def fl_new_def)
  show "0 < length (sessionArray one_packet_server)" by (simp add: one_packet_server_def)
  show "rb_wf (recvBuf (sess one_packet_server 0))"
    by (simp add: one_packet_server_def sess_def rb_wf_def)
  show "rb_list (recvBuf (sess one_packet_server 0)) = frame 3 [7]"
    by (simp add: one_packet_server_def sess_def rb_list_def ring_seg_def)
qed

theorem recv_step_parses_witness:
  "\<exists>p s1. recv_step plain_os 0 one_packet_server = Inr (Deliver p, s1) \<and>
     pkt_list (pl_objs (packets s1) p) = [7] \<and> rb_list (recvBuf (sess s1 0)) = []"
  using recv_step_parses [OF one_packet_server_ok(1-4)] parse1_frame [of "[7]" 3 "[]"]
  by (auto simp: one_packet_server_ok(5))

lemma net_ok_SubRef:
  assumes "net_ok W s" and "p \<in> pool_live (packets s)"
  shows "net_ok W (s\<lparr>packets := pkt_SubRef p (packets s)\<rparr>)"
proof -
  let ?h = "pool_upd p (\<lambda>x. x\<lparr>m_lRefCount := m_lRefCount x - 1\<rparr>) (packets s)"
  have "pool_ok pkt_512 ?h" "p \<in> pool_live ?h" using assms by (simp_all add: net_ok_def pool_ok_def)
  with pool_Free_ok [OF this] assms(1) show ?thesis by (auto simp: net_ok_def pkt_SubRef_def Let_def)
qed

section \<open>A stream in pieces\<close>

text \<open>
  What the receiver makes of a stream that arrives in the pieces \<open>cs\<close>: after each piece the
  loop parses what is in the ring and keeps the rest.
\<close>

fun feed :: "byte list \<Rightarrow> byte list list \<Rightarrow> byte list list \<times> parse_end" where
  "feed r [] = ([], Waiting r)"
| "feed r (c # cs) =
     (case parse (r @ c) of
        (ds, Waiting r') \<Rightarrow> (case feed r' cs of (ds', e) \<Rightarrow> (ds @ ds', e))
      | (ds, e) \<Rightarrow> (ds, e))"

lemma parse_rest: "parse bs = (ds, Waiting r) \<Longrightarrow> parse r = ([], Waiting r)"
proof (induction bs arbitrary: ds rule: parse.induct)
  case (1 bs)
  show ?case
  proof (cases "parse1 bs")
    case Wait
    with 1(2) have "bs = r" by (subst (asm) parse.simps) simp
    with Wait show ?thesis by (subst parse.simps) simp
  next
    case (Got d rest)
    with 1(2) obtain ds' where "parse rest = (ds', Waiting r)"
      by (subst (asm) parse.simps) (auto split: prod.splits)
    with 1(1) [OF Got] show ?thesis by blast
  qed (use 1(2) in \<open>auto simp: parse.simps [of bs]\<close>)
qed

lemma feed_concat: "parse r = ([], Waiting r) \<Longrightarrow> feed r cs = parse (r @ concat cs)"
proof (induction cs arbitrary: r)
  case (Cons c cs)
  show ?case
  proof (cases "parse (r @ c)")
    case (Pair ds e)
    have "feed r' cs = parse (r' @ concat cs)" if "e = Waiting r'" for r'
      using Cons.IH parse_rest [of "r @ c" ds r'] Pair that by simp
    with Pair parse_append [of "r @ c" "concat cs"] show ?thesis
      by (auto split: parse_end.splits)
  qed
qed simp

text \<open>
  C16. What is sent is what is received: packets of 1 to 507 bytes that are encoded and put on the
  wire header first, as \<open>PostSend\<close> does, are parsed by the receiver to the original payloads, in
  order and with nothing left over, however the byte stream is cut into receives.
\<close>

theorem wire_roundtrip:
  assumes "list_all2 (\<lambda>(r, p) q. pkt_wf p \<and> m_iFront p = 0 \<and> \<not> m_bIsEncoded p \<and> pkt_list p \<noteq> [] \<and>
      length (pkt_list p) \<le> 507 \<and> pkt_SetEncodingCode r p = Inr q) rps qs"
    and "concat cs = concat (map pkt_wire qs)"
  shows "feed [] cs = (map (pkt_list \<circ> snd) rps, Waiting [])"
proof -
  define fs where "fs = map (\<lambda>(r, p). (of_nat (r mod 256) :: byte, pkt_list p)) rps"
  have "concat (map pkt_wire qs) = concat (map (\<lambda>(k, x). frame k x) fs) \<and>
      (\<forall>(k, x)\<in>set fs. x \<noteq> [] \<and> length x \<le> 507)"
    using assms(1) unfolding fs_def
  proof (induction rule: list_all2_induct)
    case (Cons rp rps q qs)
    obtain r p where rp: "rp = (r, p)" by (cases rp)
    with Cons.hyps have "pkt_wire q = frame (of_nat (r mod 256)) (pkt_list p)"
      using pkt_encode_ok [of p r] by auto
    with Cons rp show ?case by auto
  qed simp
  then have wire: "concat cs = concat (map (\<lambda>(k, x). frame k x) fs)"
    and ok: "\<And>k x. (k, x) \<in> set fs \<Longrightarrow> x \<noteq> [] \<and> length x \<le> 507"
    using assms(2) by auto
  have nil: "parse [] = ([], Waiting [])" by (simp add: parse.simps parse1_def)
  have "feed [] cs = parse (concat cs @ [])" using feed_concat [of "[]" cs, OF nil] by simp
  also have "\<dots> = (map snd fs, Waiting [])" unfolding wire using parse_frames [of fs "[]"] ok nil by simp
  finally show ?thesis by (simp add: fs_def comp_def case_prod_beta)
qed

theorem wire_roundtrip_witness:
  "\<exists>q. pkt_SetEncodingCode 1000 (pkt_new\<lparr>m_iRear := 3, m_iUsingSize := 3\<rparr>) = Inr q \<and>
     feed [] [take 4 (pkt_wire q), drop 4 (pkt_wire q)] = ([[0, 0, 0]], Waiting [])"
proof -
  let ?p = "pkt_new\<lparr>m_iRear := 3, m_iUsingSize := 3\<rparr>"
  have p: "pkt_wf ?p" "m_iFront ?p = 0" "\<not> m_bIsEncoded ?p" "pkt_list ?p = [0, 0, 0]"
    by (simp_all add: pkt_wf_def pkt_new_def pkt_buf_def pkt_list_def eBUFFER_DEFAULT_def
        eBUFFER_HEADER_SIZE_def MESSAGE_HEADER_LEN_def numeral_3_eq_3)
  with pkt_encode_ok [of ?p 1000] obtain q where "pkt_SetEncodingCode 1000 ?p = Inr q" by auto
  with wire_roundtrip [of "[(1000, ?p)]" "[q]" "[take 4 (pkt_wire q), drop 4 (pkt_wire q)]"] p
  show ?thesis by (simp add: comp_def)
qed

end
