(* ===== verification/Sector.thy ===== *)
theory Sector
  imports Prelude
begin

text \<open>
  The sector map of the chat server (ChatServer.h, ChatServer.cpp, Protocol.h): which sectors
  exist, the block of sectors around one, the index that orders the sector locks, and the
  locking of one or two sectors. A sector is its \<open>(x, y)\<close>.
\<close>

section \<open>Sectors and their neighbourhood\<close>

type_synonym sector_id = "WORD \<times> WORD"

definition dfSECTOR_MAX_X :: nat where "dfSECTOR_MAX_X = 50"
definition dfSECTOR_MAX_Y :: nat where "dfSECTOR_MAX_Y = 50"

definition IsValidSector :: "WORD \<Rightarrow> WORD \<Rightarrow> bool" where
  "IsValidSector x y \<longleftrightarrow> unat x < dfSECTOR_MAX_X \<and> unat y < dfSECTOR_MAX_Y"

text \<open>
  The conversion of an int to a WORD, and \<open>st_SECTOR\<close>: how many entries of the nine are used, and
  the entries.
\<close>

definition to_WORD :: "int \<Rightarrow> WORD" where "to_WORD z = of_int z"

record st_SECTOR =
  s_count :: nat
  s_map :: "(int \<times> int) list"

text \<open>
  The arguments of \<open>IsValidSector\<close> are cut to WORDs, so that \<open>-1\<close> becomes 65535; the entry
  stored is the int.
\<close>

definition around_step :: "WORD \<Rightarrow> WORD \<Rightarrow> int \<times> int \<Rightarrow> st_SECTOR \<Rightarrow> st_SECTOR" where
  "around_step x y d s =
     (case d of (dy, dx) \<Rightarrow>
        if \<not> IsValidSector (to_WORD (uint x + dx)) (to_WORD (uint y + dy)) then s
        else s\<lparr>s_map := (s_map s)[s_count s := (uint x + dx, uint y + dy)], s_count := s_count s + 1\<rparr>)"

text \<open>The values the two loops of \<open>MakeAround\<close> run through.\<close>

definition shifts :: "(int \<times> int) list" where
  "shifts = [(dy, dx). dy \<leftarrow> [-1, 0, 1], dx \<leftarrow> [-1, 0, 1]]"

definition MakeAround :: "WORD \<Rightarrow> WORD \<Rightarrow> st_SECTOR" where
  "MakeAround x y =
     fold (around_step x y) shifts
       \<lparr>s_count = 0, s_map = replicate 9 (0, 0)\<rparr>"

text \<open>The sectors the chat handler visits: each entry read back as two WORDs.\<close>

definition around_sectors :: "WORD \<Rightarrow> WORD \<Rightarrow> sector_id list" where
  "around_sectors x y =
     map (\<lambda>(a, b). (to_WORD a, to_WORD b)) (take (s_count (MakeAround x y)) (s_map (MakeAround x y)))"

section \<open>Lock indices\<close>

text \<open>The constructor numbers the sectors row by row.\<close>

definition lock_init :: "(nat \<times> nat) list \<Rightarrow> int \<times> (nat \<times> nat \<Rightarrow> int) \<Rightarrow> int \<times> (nat \<times> nat \<Rightarrow> int)" where
  "lock_init cells st = fold (\<lambda>yx (idx, m). (idx + 1, m(yx := idx))) cells st"

definition lockIndex :: "nat \<times> nat \<Rightarrow> int" where
  "lockIndex = snd (lock_init [(y, x). y \<leftarrow> [0..<dfSECTOR_MAX_Y], x \<leftarrow> [0..<dfSECTOR_MAX_X]] (0, \<lambda>_. 0))"

definition sector_lockIndex :: "sector_id \<Rightarrow> int" where
  "sector_lockIndex s = (case s of (x, y) \<Rightarrow> lockIndex (unat y, unat x))"

text \<open>
  The locks \<open>LockSectorExclusive\<close> and \<open>LockTwoSectorsExclusive\<close> take, in order, and those
  \<open>UnlockTwoSectorsExclusive\<close> gives back.
\<close>

definition LockSectorExclusive :: "WORD \<Rightarrow> WORD \<Rightarrow> sector_id list" where
  "LockSectorExclusive x y = [(x, y)]"

definition UnlockSectorExclusive :: "WORD \<Rightarrow> WORD \<Rightarrow> sector_id list" where
  "UnlockSectorExclusive x y = [(x, y)]"

definition LockTwoSectorsExclusive :: "WORD \<Rightarrow> WORD \<Rightarrow> WORD \<Rightarrow> WORD \<Rightarrow> sector_id list" where
  "LockTwoSectorsExclusive x1 y1 x2 y2 =
     (let i1 = sector_lockIndex (x1, y1); i2 = sector_lockIndex (x2, y2)
      in if i1 = i2 then LockSectorExclusive x1 y1
         else if i1 < i2 then LockSectorExclusive x1 y1 @ LockSectorExclusive x2 y2
         else LockSectorExclusive x2 y2 @ LockSectorExclusive x1 y1)"

definition UnlockTwoSectorsExclusive :: "WORD \<Rightarrow> WORD \<Rightarrow> WORD \<Rightarrow> WORD \<Rightarrow> sector_id list" where
  "UnlockTwoSectorsExclusive x1 y1 x2 y2 =
     (if sector_lockIndex (x1, y1) = sector_lockIndex (x2, y2) then UnlockSectorExclusive x1 y1
      else UnlockSectorExclusive x1 y1 @ UnlockSectorExclusive x2 y2)"

section \<open>The neighbourhood is the three by three block\<close>

lemma unat_to_WORD:
  "- 65536 \<le> z \<Longrightarrow> z < 65536 \<Longrightarrow> unat (to_WORD z) = nat (if z < 0 then z + 65536 else z)"
proof -
  assume z: "- 65536 \<le> z" "z < 65536"
  have "uint (to_WORD z) = z mod 65536" by (simp add: to_WORD_def uint_word_of_int take_bit_eq_mod)
  moreover have "z mod 65536 = (if z < 0 then z + 65536 else z)"
  proof (cases "z < 0")
    case True
    then have "(z + 65536) mod 65536 = z + 65536" using z by (intro mod_pos_pos_trivial) auto
    with True show ?thesis by simp
  qed (use z in simp)
  ultimately show ?thesis by (metis nat_uint_eq)
qed

lemma to_WORD_uint [simp]: "to_WORD (uint x) = x"
  by (simp add: to_WORD_def)

lemma uint_to_WORD: "0 \<le> z \<Longrightarrow> z < 65536 \<Longrightarrow> uint (to_WORD z) = z"
  by (simp add: to_WORD_def uint_word_of_int take_bit_eq_mod)

lemma valid_bounds:
  "IsValidSector x y \<longleftrightarrow> uint x < 50 \<and> uint y < 50"
proof -
  have "unat w < 50 \<longleftrightarrow> uint w < 50" for w :: WORD
  proof -
    have "int (unat w) = uint w" by simp
    then show ?thesis by linarith
  qed
  then show ?thesis by (simp only: IsValidSector_def dfSECTOR_MAX_X_def dfSECTOR_MAX_Y_def)
qed

lemma coord_shift:
  assumes "uint (x :: WORD) < 50" and "-1 \<le> d" and "d \<le> 1"
  shows "uint (to_WORD (uint x + d)) < 50 \<longleftrightarrow> 0 \<le> uint x + d \<and> uint x + d < 50"
proof (cases "uint x + d < 0")
  case True
  then have "uint x = 0" "d = -1" using assms uint_nonnegative [of x] by linarith+
  moreover have "unat (to_WORD (-1)) = 65535" using unat_to_WORD [of "-1"] by simp
  then have "uint (to_WORD (-1)) = 65535" by (metis int_ops(3) of_nat_numeral uint_nat)
  ultimately show ?thesis by simp
next
  case False
  then show ?thesis using assms by (simp add: uint_to_WORD)
qed

lemma valid_shift:
  assumes "IsValidSector x y" and "-1 \<le> dx" "dx \<le> 1" and "-1 \<le> dy" "dy \<le> 1"
  shows "IsValidSector (to_WORD (uint x + dx)) (to_WORD (uint y + dy)) \<longleftrightarrow>
    (0 \<le> uint x + dx \<and> uint x + dx < 50) \<and> (0 \<le> uint y + dy \<and> uint y + dy < 50)"
  using assms by (simp only: valid_bounds coord_shift)

text \<open>The loop collects the valid entries in order.\<close>

definition valid_entries :: "WORD \<Rightarrow> WORD \<Rightarrow> (int \<times> int) list \<Rightarrow> (int \<times> int) list" where
  "valid_entries x y ds = [(uint x + dx, uint y + dy). (dy, dx) \<leftarrow> ds,
     IsValidSector (to_WORD (uint x + dx)) (to_WORD (uint y + dy))]"

lemma valid_entries_simps [simp]:
  "valid_entries x y [] = []"
  "valid_entries x y ((dy, dx) # ds) =
     (if IsValidSector (to_WORD (uint x + dx)) (to_WORD (uint y + dy))
      then (uint x + dx, uint y + dy) # valid_entries x y ds else valid_entries x y ds)"
  by (simp_all add: valid_entries_def)

lemma around_fold:
  "s_count s + length ds \<le> length (s_map s) \<Longrightarrow>
   s_count (fold (around_step x y) ds s) = s_count s + length (valid_entries x y ds) \<and>
   take (s_count s + length (valid_entries x y ds)) (s_map (fold (around_step x y) ds s)) =
     take (s_count s) (s_map s) @ valid_entries x y ds"
proof (induction ds arbitrary: s)
  case (Cons d ds)
  obtain dy dx where d: "d = (dy, dx)" by (cases d)
  show ?case
  proof (cases "IsValidSector (to_WORD (uint x + dx)) (to_WORD (uint y + dy))")
    case True
    let ?s = "s\<lparr>s_map := (s_map s)[s_count s := (uint x + dx, uint y + dy)], s_count := s_count s + 1\<rparr>"
    have s: "around_step x y (dy, dx) s = ?s" using True by (simp add: around_step_def)
    have "take (s_count ?s) (s_map ?s) = take (s_count s) (s_map s) @ [(uint x + dx, uint y + dy)]"
      using Cons.prems by (simp add: take_Suc_conv_app_nth)
    with Cons.IH [of ?s] Cons.prems True show ?thesis by (simp add: s d)
  next
    case False
    then have "around_step x y d s = s" using d by (simp add: around_step_def)
    with Cons.IH [of s] Cons.prems False d show ?thesis by simp
  qed
qed simp

lemma shifts_simps [simp]: "length shifts = 9" "distinct shifts"
  by (simp_all add: shifts_def)

lemma around_sectors_entries:
  "around_sectors x y = map (\<lambda>(a, b). (to_WORD a, to_WORD b))
     (valid_entries x y shifts)"
  using around_fold [of "\<lparr>s_count = 0, s_map = replicate 9 (0, 0)\<rparr>"
      "shifts" x y]
  by (simp add: around_sectors_def MakeAround_def)

lemma set_valid_entries:
  "(a, b) \<in> set (valid_entries x y ds) \<longleftrightarrow>
     (b - uint y, a - uint x) \<in> set ds \<and> IsValidSector (to_WORD a) (to_WORD b)"
proof (induction ds)
  case (Cons d ds)
  obtain dy dx where d: "d = (dy, dx)" by (cases d)
  have e: "b - uint y = dy \<and> a - uint x = dx \<longleftrightarrow> a = uint x + dx \<and> b = uint y + dy" by auto
  show ?case using Cons by (auto simp: d e)
qed simp

lemma set_around:
  "(dy, dx) \<in> set shifts \<longleftrightarrow>
   \<bar>dy\<bar> \<le> (1 :: int) \<and> \<bar>dx\<bar> \<le> 1"
proof -
  have "\<bar>d\<bar> \<le> 1 \<longleftrightarrow> d = -1 \<or> d = 0 \<or> d = 1" for d :: int by linarith
  then show ?thesis by (simp add: shifts_def) blast
qed

lemma distinct_valid_entries: "distinct ds \<Longrightarrow> distinct (valid_entries x y ds)"
proof (induction ds)
  case (Cons d ds)
  then show ?case by (cases d) (auto simp: set_valid_entries)
qed simp

lemma entries_in_range:
  assumes "IsValidSector x y" and "(a, b) \<in> set (valid_entries x y shifts)"
  shows "uint (to_WORD a) = a" and "uint (to_WORD b) = b"
proof -
  from assms(2) have d: "\<bar>b - uint y\<bar> \<le> 1" "\<bar>a - uint x\<bar> \<le> 1" and v: "IsValidSector (to_WORD a) (to_WORD b)"
    unfolding set_valid_entries set_around by auto
  have "IsValidSector (to_WORD (uint x + (a - uint x))) (to_WORD (uint y + (b - uint y)))"
    using v by simp
  then have "0 \<le> a \<and> a < 50 \<and> 0 \<le> b \<and> b < 50"
    using valid_shift [OF assms(1), of "a - uint x" "b - uint y"] d by auto
  then show "uint (to_WORD a) = a" "uint (to_WORD b) = b" by (simp_all add: uint_to_WORD)
qed

lemma set_around_sectors:
  assumes v: "IsValidSector x y"
  shows "set (around_sectors x y) =
    {(a, b). IsValidSector a b \<and> \<bar>uint a - uint x\<bar> \<le> 1 \<and> \<bar>uint b - uint y\<bar> \<le> 1}"
proof -
  let ?V = "valid_entries x y shifts"
  have "(a, b) \<in> set (around_sectors x y) \<longleftrightarrow> (uint a, uint b) \<in> set ?V" for a b
    unfolding around_sectors_entries using entries_in_range [OF v] by force
  then show ?thesis unfolding set_valid_entries set_around by auto
qed

lemma distinct_around_sectors:
  assumes v: "IsValidSector x y"
  shows "distinct (around_sectors x y)"
proof -
  let ?V = "valid_entries x y shifts"
  have "inj_on (\<lambda>(a, b). (to_WORD a, to_WORD b)) (set ?V)"
  proof (rule inj_onI)
    fix p q assume "p \<in> set ?V" "q \<in> set ?V"
      and e: "(\<lambda>(a, b). (to_WORD a, to_WORD b)) p = (\<lambda>(a, b). (to_WORD a, to_WORD b)) q"
    then show "p = q"
      using entries_in_range [OF v, of "fst p" "snd p"] entries_in_range [OF v, of "fst q" "snd q"]
      by (metis (no_types, lifting) case_prod_beta prod.collapse prod.inject)
  qed
  then show ?thesis
    unfolding around_sectors_entries distinct_map by (intro conjI distinct_valid_entries) auto
qed

text \<open>
  C29. For a sector on the map, \<open>MakeAround\<close> collects exactly the sectors on the map that are at
  most one step away in each direction, the sector itself among them, each once; the nine
  entries of \<open>st_SECTOR\<close> are never overrun.
\<close>

theorem MakeAround_block:
  assumes "IsValidSector x y"
  shows "set (around_sectors x y) =
      {(a, b). IsValidSector a b \<and> \<bar>uint a - uint x\<bar> \<le> 1 \<and> \<bar>uint b - uint y\<bar> \<le> 1} \<and>
    distinct (around_sectors x y) \<and> (x, y) \<in> set (around_sectors x y) \<and>
    s_count (MakeAround x y) \<le> 9 \<and> length (s_map (MakeAround x y)) = 9"
proof -
  have "length (s_map (fold (around_step x y) ds s)) = length (s_map s) \<and>
      s_count (fold (around_step x y) ds s) \<le> s_count s + length ds" for ds s
  proof (induction ds arbitrary: s)
    case (Cons d ds)
    have "length (s_map (around_step x y d s)) = length (s_map s)"
      "s_count (around_step x y d s) \<le> s_count s + 1"
      by (simp_all add: around_step_def split: prod.splits)
    with Cons.IH [of "around_step x y d s"] show ?case by simp
  qed simp
  from this [of shifts "\<lparr>s_count = 0, s_map = replicate 9 (0, 0)\<rparr>"]
  show ?thesis using assms by (simp add: set_around_sectors distinct_around_sectors MakeAround_def)
qed

theorem MakeAround_block_witness:
  "IsValidSector 0 49 \<and> (1, 48) \<in> set (around_sectors 0 49) \<and> (65535, 49) \<notin> set (around_sectors 0 49)"
  using MakeAround_block [of 0 49]
  by (simp add: IsValidSector_def dfSECTOR_MAX_X_def dfSECTOR_MAX_Y_def)

section \<open>The lock indices are the row-major numbers\<close>

lemma lock_init_Cons [simp]:
  "lock_init [] st = st"
  "lock_init (c # cs) (i, m) = lock_init cs (i + 1, m(c := i))"
  by (simp_all add: lock_init_def)

lemma lock_init_other: "c \<notin> set cs \<Longrightarrow> snd (lock_init cs (i, m)) c = m c"
  by (induction cs arbitrary: i m) auto

lemma lock_init_nth:
  "distinct cs \<Longrightarrow> k < length cs \<Longrightarrow> snd (lock_init cs (i, m)) (cs ! k) = i + int k"
proof (induction cs arbitrary: i m k)
  case (Cons c cs)
  then show ?case by (cases k) (auto simp: lock_init_other)
qed simp

lemma cells_product:
  "[(y, x). y \<leftarrow> [0..<dfSECTOR_MAX_Y], x \<leftarrow> [0..<dfSECTOR_MAX_X]] = List.product [0..<50] [0..<50]"
  by (simp add: product_concat_map dfSECTOR_MAX_X_def dfSECTOR_MAX_Y_def)

lemma lockIndex_value:
  assumes "y < 50" and "x < 50"
  shows "lockIndex (y, x) = int (50 * y + x)"
proof -
  let ?cs = "List.product [0..<50] [0..<50] :: (nat \<times> nat) list"
  have k: "50 * y + x < length ?cs" using assms by simp
  then have "?cs ! (50 * y + x) = (y, x)" using assms by (simp add: product_nth)
  with lock_init_nth [of ?cs "50 * y + x" 0 "\<lambda>_. 0"] k show ?thesis
    by (simp add: lockIndex_def cells_product distinct_product)
qed

lemma sector_lockIndex_value:
  "IsValidSector x y \<Longrightarrow> sector_lockIndex (x, y) = int (50 * unat y + unat x)"
  by (simp add: sector_lockIndex_def lockIndex_value IsValidSector_def dfSECTOR_MAX_X_def dfSECTOR_MAX_Y_def)

lemma sector_lockIndex_inj:
  assumes "IsValidSector x y" and "IsValidSector x' y'"
  shows "sector_lockIndex (x, y) = sector_lockIndex (x', y') \<longleftrightarrow> x = x' \<and> y = y'"
proof
  assume "sector_lockIndex (x, y) = sector_lockIndex (x', y')"
  then have e: "50 * unat y + unat x = 50 * unat y' + unat x'"
    using assms by (simp add: sector_lockIndex_value del: of_nat_add of_nat_mult)
  have b: "unat x < 50" "unat x' < 50"
    using assms by (simp_all add: IsValidSector_def dfSECTOR_MAX_X_def)
  from e have "(50 * unat y + unat x) mod 50 = (50 * unat y' + unat x') mod 50"
    "(50 * unat y + unat x) div 50 = (50 * unat y' + unat x') div 50" by simp_all
  then show "x = x' \<and> y = y'" using b by (simp add: word_unat_eq_iff)
qed simp

end
