(* ===== verification/Locks.thy ===== *)
theory Locks
  imports Sector
begin

text \<open>
  The locks of the server and the order the handlers take them in. The handlers of
  ChatServer.cpp and the index stack of IOCPServer.cpp protect their shared data with slim
  reader/writer locks and one mutex; each handler is written down as the sequence of its
  acquisitions and releases, threads interleave these sequences, and the order on the sector
  locks makes the interleaving free of deadlock.
\<close>

section \<open>Threads that take and release locks\<close>

datatype lock_mode = Shared | Exclusive

datatype 'l lock_act = Acquire 'l lock_mode | Unlock 'l lock_mode

text \<open>
  A thread is the locks it holds and the actions it still has to do. A slim reader/writer lock
  is granted in shared mode when nobody holds it exclusively and in exclusive mode when nobody
  holds it; it is not recursive, so a thread also waits for itself.
\<close>

type_synonym 'l thread = "('l \<times> lock_mode) list \<times> 'l lock_act list"

definition compatible :: "'l \<Rightarrow> lock_mode \<Rightarrow> 'l \<times> lock_mode \<Rightarrow> bool" where
  "compatible l m h \<longleftrightarrow> fst h \<noteq> l \<or> m = Shared \<and> snd h = Shared"

definition granted :: "'l \<Rightarrow> lock_mode \<Rightarrow> 'l thread list \<Rightarrow> bool" where
  "granted l m ts \<longleftrightarrow> list_all (\<lambda>t. list_all (compatible l m) (fst t)) ts"

inductive lock_step :: "'l thread list \<Rightarrow> 'l thread list \<Rightarrow> bool" where
  acquire: "i < length ts \<Longrightarrow> ts ! i = (h, Acquire l m # r) \<Longrightarrow> granted l m ts \<Longrightarrow>
    lock_step ts (ts[i := ((l, m) # h, r)])"
| unlock: "i < length ts \<Longrightarrow> ts ! i = (h, Unlock l m # r) \<Longrightarrow> (l, m) \<in> set h \<Longrightarrow>
    lock_step ts (ts[i := (remove1 (l, m) h, r)])"

inductive_cases lock_stepE: "lock_step ts ts'"

section \<open>A lock hierarchy\<close>

text \<open>
  Along a hierarchy, a thread only asks for locks above those it holds, releases only what it
  holds, and ends with nothing.
\<close>

fun ascending :: "('l \<Rightarrow> int) \<Rightarrow> ('l \<times> lock_mode) list \<Rightarrow> 'l lock_act list \<Rightarrow> bool" where
  "ascending rank h [] \<longleftrightarrow> h = []"
| "ascending rank h (Acquire l m # r) \<longleftrightarrow>
     list_all (\<lambda>k. rank (fst k) < rank l) h \<and> ascending rank ((l, m) # h) r"
| "ascending rank h (Unlock l m # r) \<longleftrightarrow> (l, m) \<in> set h \<and> ascending rank (remove1 (l, m) h) r"

lemma ascending_append:
  "ascending rank h a \<Longrightarrow> ascending rank [] b \<Longrightarrow> ascending rank h (a @ b)"
  by (induction rank h a rule: ascending.induct) auto

lemma ascending_concat:
  "list_all (ascending rank []) rs \<Longrightarrow> ascending rank [] (concat rs)"
  by (induction rs) (auto intro: ascending_append)

definition exclusive_ok :: "'l thread list \<Rightarrow> bool" where
  "exclusive_ok ts \<longleftrightarrow> (\<forall>i j l m. i < length ts \<longrightarrow> j < length ts \<longrightarrow> i \<noteq> j \<longrightarrow>
     (l, Exclusive) \<in> set (fst (ts ! i)) \<longrightarrow> (l, m) \<notin> set (fst (ts ! j)))"

definition work :: "'l thread list \<Rightarrow> nat" where
  "work ts = sum_list (map (length \<circ> snd) ts)"

lemma work_update:
  "i < length ts \<Longrightarrow> length (snd (ts ! i)) = Suc (length (snd t)) \<Longrightarrow> work (ts[i := t]) < work ts"
proof (induction ts arbitrary: i)
  case (Cons u ts)
  then show ?case by (cases i) (auto simp: work_def)
qed simp

lemma work_step: "lock_step ts ts' \<Longrightarrow> work ts' < work ts"
  by (induction rule: lock_step.induct) (simp_all add: work_update)

lemma work_steps: "(lock_step ^^ k) ts ts' \<Longrightarrow> k + work ts' \<le> work ts"
proof (induction k arbitrary: ts')
  case (Suc k)
  then obtain u where "(lock_step ^^ k) ts u" and "lock_step u ts'" by auto
  with Suc.IH [of u] work_step [of u ts'] show ?case by simp
qed simp

lemma list_all_update: "list_all P ts \<Longrightarrow> P t \<Longrightarrow> list_all P (ts[i := t])"
  using set_update_subset_insert [of ts i t] by (auto simp: list_all_iff)

text \<open>The contract a set of handler scripts keeps, and what follows for their interleavings.\<close>

locale lock_hierarchy =
  fixes rank :: "'l \<Rightarrow> int"
    and script :: "'h \<Rightarrow> 'l lock_act list"
  assumes script_ascending: "ascending rank [] (script h)"
begin

text \<open>Threads that run handlers one after the other, none holding a lock at the start.\<close>

definition start :: "'h list list \<Rightarrow> 'l thread list" where
  "start hss = map (\<lambda>hs. ([], concat (map script hs))) hss"

definition ordered :: "'l thread list \<Rightarrow> bool" where
  "ordered ts \<longleftrightarrow> list_all (\<lambda>t. ascending rank (fst t) (snd t)) ts"

lemma ordered_start: "ordered (start hss)"
  using script_ascending
  by (auto simp: ordered_def start_def list_all_iff intro!: ascending_concat)

lemma ordered_nth: "ordered ts \<Longrightarrow> i < length ts \<Longrightarrow> ts ! i = (h, r) \<Longrightarrow> ascending rank h r"
  by (auto simp: ordered_def list_all_length)

lemma ordered_step: "lock_step ts ts' \<Longrightarrow> ordered ts \<Longrightarrow> ordered ts'"
proof (induction rule: lock_step.induct)
  case (acquire i ts h l m r)
  from ordered_nth [OF acquire.prems acquire.hyps(1,2)] acquire.prems show ?case
    by (simp add: ordered_def list_all_update)
next
  case (unlock i ts h l m r)
  from ordered_nth [OF unlock.prems unlock.hyps(1,2)] unlock.prems show ?case
    by (simp add: ordered_def list_all_update)
qed

lemma ordered_steps: "lock_step\<^sup>*\<^sup>* ts ts' \<Longrightarrow> ordered ts \<Longrightarrow> ordered ts'"
  by (induction rule: rtranclp_induct) (auto intro: ordered_step)

text \<open>A thread that cannot move waits for a lock held by a thread that waits for a higher one.\<close>

lemma waits:
  assumes ord: "ordered ts" and stuck: "\<nexists>ts'. lock_step ts ts'"
    and i: "i < length ts" "snd (ts ! i) \<noteq> []"
  shows "\<exists>h l m r. ts ! i = (h, Acquire l m # r) \<and> \<not> granted l m ts"
proof -
  obtain h a r where t: "ts ! i = (h, a # r)" using i by (metis list.exhaust prod.collapse)
  have asc: "ascending rank h (a # r)"
    using ord i t by (auto simp: ordered_def list_all_length)
  show ?thesis
  proof (cases a)
    case (Acquire l m)
    with t have "\<not> granted l m ts" using stuck i lock_step.acquire [of i ts h l m r] by blast
    with t Acquire show ?thesis by blast
  next
    case (Unlock l m)
    with asc t stuck i lock_step.unlock [of i ts h l m r] show ?thesis by auto
  qed
qed

lemma progress:
  assumes ord: "ordered ts" and busy: "0 < work ts"
  shows "\<exists>ts'. lock_step ts ts'"
proof (rule ccontr)
  assume stuck: "\<nexists>ts'. lock_step ts ts'"
  define wanted where "wanted = {i. i < length ts \<and> snd (ts ! i) \<noteq> []}"
  define want where "want i = (case hd (snd (ts ! i)) of Acquire l m \<Rightarrow> rank l | Unlock l m \<Rightarrow> rank l)" for i
  have fin: "finite wanted" by (simp add: wanted_def)
  have "wanted \<noteq> {}"
  proof
    assume "wanted = {}"
    then have "\<forall>t\<in>set ts. snd t = []" unfolding wanted_def by (metis (mono_tags, lifting) empty_Collect_eq in_set_conv_nth)
    then have "work ts = 0" by (simp add: work_def sum_list_eq_0_iff)
    then show False using busy by simp
  qed
  then have "Max (want ` wanted) \<in> want ` wanted" using fin by (intro Max_in) auto
  then obtain i where i: "i \<in> wanted" and m: "want i = Max (want ` wanted)" by auto
  have top: "want j \<le> want i" if "j \<in> wanted" for j using that fin m by auto
  from i have "\<exists>h l m r. ts ! i = (h, Acquire l m # r) \<and> \<not> granted l m ts"
    unfolding wanted_def by (intro waits [OF ord stuck]) auto
  then obtain h l m r where t: "ts ! i = (h, Acquire l m # r)" and no: "\<not> granted l m ts" by blast
  from no obtain t' h' where "t' \<in> set ts" and h': "h' \<in> set (fst t')" "fst h' = l"
    unfolding granted_def list_all_iff compatible_def by blast
  then obtain j where j: "j < length ts" and held: "h' \<in> set (fst (ts ! j))" "fst h' = l"
    by (metis in_set_conv_nth)
  have asc: "ascending rank (fst (ts ! j)) (snd (ts ! j))"
    using ord j by (simp add: ordered_def list_all_length)
  with held have "snd (ts ! j) \<noteq> []" by auto
  from waits [OF ord stuck j this] obtain h2 l2 m2 r2 where t2: "ts ! j = (h2, Acquire l2 m2 # r2)"
    by blast
  then have "rank l < rank l2" using asc held by (auto simp: list_all_iff)
  then have "want i < want j" using t t2 by (simp add: want_def)
  moreover have "j \<in> wanted" using j t2 by (simp add: wanted_def)
  ultimately show False using top by fastforce
qed

text \<open>All threads can finish, and then no lock is held.\<close>

lemma completes:
  "ordered ts \<Longrightarrow> \<exists>ts'. lock_step\<^sup>*\<^sup>* ts ts' \<and> list_all (\<lambda>t. t = ([], [])) ts'"
proof (induction "work ts" arbitrary: ts rule: less_induct)
  case less
  show ?case
  proof (cases "work ts = 0")
    case True
    with less.prems have "list_all (\<lambda>t. t = ([], [])) ts"
      by (auto simp: work_def ordered_def list_all_iff)
    then show ?thesis by blast
  next
    case False
    then obtain ts1 where s: "lock_step ts ts1" using progress less.prems by blast
    then obtain ts' where "lock_step\<^sup>*\<^sup>* ts1 ts'" "list_all (\<lambda>t. t = ([], [])) ts'"
      using less.hyps [OF work_step [OF s]] ordered_step less.prems by blast
    with s show ?thesis by (meson converse_rtranclp_into_rtranclp)
  qed
qed

end

section \<open>Mutual exclusion\<close>

lemma exclusive_step: "lock_step ts ts' \<Longrightarrow> exclusive_ok ts \<Longrightarrow> exclusive_ok ts'"
proof (induction rule: lock_step.induct)
  case (acquire i ts h l m r)
  have free: "(l, m') \<in> set (fst (ts ! j)) \<Longrightarrow> m = Shared \<and> m' = Shared" if "j < length ts" for j m'
    using acquire.hyps(3) nth_mem [OF that] by (fastforce simp: granted_def list_all_iff compatible_def)
  have mem: "x \<in> set (fst (ts[i := ((l, m) # h, r)] ! j)) \<longleftrightarrow>
      x \<in> set (fst (ts ! j)) \<or> j = i \<and> x = (l, m)" for x j
    using acquire.hyps(1,2) by (cases "j = i") auto
  have old: "(l', Exclusive) \<in> set (fst (ts ! j)) \<Longrightarrow> (l', m') \<notin> set (fst (ts ! k))"
    if "j < length ts" "k < length ts" "j \<noteq> k" for j k l' m'
    using acquire.prems that by (auto simp: exclusive_ok_def)
  show ?case unfolding exclusive_ok_def mem length_list_update
    using old free by (metis lock_mode.distinct(1) prod.inject)
next
  case (unlock i ts h l m r)
  have "set (fst (ts[i := (remove1 (l, m) h, r)] ! j)) \<subseteq> set (fst (ts ! j))" for j
    using unlock.hyps(1,2) set_remove1_subset [of "(l, m)" h] by (cases "j = i") auto
  with unlock.prems show ?case by (simp add: exclusive_ok_def) blast
qed

lemma exclusive_steps: "lock_step\<^sup>*\<^sup>* ts ts' \<Longrightarrow> exclusive_ok ts \<Longrightarrow> exclusive_ok ts'"
  by (induction rule: rtranclp_induct) (auto intro: exclusive_step)

section \<open>The server's locks and its handlers\<close>

datatype server_lock = playerLock | accountLock | sectorLock sector_id | indexMutex

text \<open>The sections of one handler that hold a lock alone.\<close>

definition section_under :: "server_lock \<Rightarrow> lock_mode \<Rightarrow> server_lock lock_act list" where
  "section_under l m = [Acquire l m, Unlock l m]"

definition AcquirePlayer_locks :: "server_lock lock_act list" where
  "AcquirePlayer_locks = section_under playerLock Shared"

definition JoinProc_locks :: "server_lock lock_act list" where
  "JoinProc_locks = section_under playerLock Exclusive"

text \<open>
  \<open>LeaveProc\<close>: the player map; the account map when the player is logged in; the player's
  sector when it is on the map. The code reads the position again when it unlocks
  (ChatServer.cpp:764 to 766). It is the position it locked: only a request to move of the same
  session writes it, a session is released when no receive of it is pending, so no request of it
  runs beside its leaving.
\<close>

definition LeaveProc_locks :: "bool \<Rightarrow> WORD \<Rightarrow> WORD \<Rightarrow> server_lock lock_act list" where
  "LeaveProc_locks logined x y =
     section_under playerLock Exclusive @
     (if logined then section_under accountLock Exclusive else []) @
     (if IsValidSector x y
      then map (\<lambda>s. Acquire (sectorLock s) Exclusive) (LockSectorExclusive x y) @
           map (\<lambda>s. Unlock (sectorLock s) Exclusive) (UnlockSectorExclusive x y)
      else [])"

definition CompleteLogin_locks :: "bool \<Rightarrow> server_lock lock_act list" where
  "CompleteLogin_locks success =
     AcquirePlayer_locks @ (if success then section_under accountLock Exclusive else [])"

definition Req_SectorMove_locks :: "WORD \<Rightarrow> WORD \<Rightarrow> WORD \<Rightarrow> WORD \<Rightarrow> server_lock lock_act list" where
  "Req_SectorMove_locks ox oy x y =
     (if \<not> IsValidSector x y then []
      else if IsValidSector ox oy
      then map (\<lambda>s. Acquire (sectorLock s) Exclusive) (LockTwoSectorsExclusive ox oy x y) @
           map (\<lambda>s. Unlock (sectorLock s) Exclusive) (UnlockTwoSectorsExclusive ox oy x y)
      else map (\<lambda>s. Acquire (sectorLock s) Exclusive) (LockSectorExclusive x y) @
           map (\<lambda>s. Unlock (sectorLock s) Exclusive) (UnlockSectorExclusive x y))"

definition Req_Chat_locks :: "WORD \<Rightarrow> WORD \<Rightarrow> server_lock lock_act list" where
  "Req_Chat_locks cx cy =
     (if \<not> IsValidSector cx cy then []
      else concat (map (\<lambda>s. section_under (sectorLock s) Shared) (around_sectors cx cy)))"

definition CheckTimeOut_locks :: "server_lock lock_act list" where
  "CheckTimeOut_locks = section_under playerLock Shared"

definition PushIndex_locks :: "server_lock lock_act list" where
  "PushIndex_locks = section_under indexMutex Exclusive"

definition PopIndex_locks :: "server_lock lock_act list" where
  "PopIndex_locks = section_under indexMutex Exclusive"

text \<open>The handlers, with the values their branches depend on.\<close>

datatype handler =
    Join
  | Leave bool WORD WORD
  | LoginDone bool
  | Move WORD WORD WORD WORD
  | Chat WORD WORD
  | OtherRequest
  | TimeOut
  | PushIndex
  | PopIndex

definition handler_locks :: "handler \<Rightarrow> server_lock lock_act list" where
  "handler_locks h = (case h of
       Join \<Rightarrow> JoinProc_locks
     | Leave logined x y \<Rightarrow> LeaveProc_locks logined x y
     | LoginDone success \<Rightarrow> CompleteLogin_locks success
     | Move ox oy x y \<Rightarrow> AcquirePlayer_locks @ Req_SectorMove_locks ox oy x y
     | Chat cx cy \<Rightarrow> AcquirePlayer_locks @ Req_Chat_locks cx cy
     | OtherRequest \<Rightarrow> AcquirePlayer_locks
     | TimeOut \<Rightarrow> CheckTimeOut_locks
     | PushIndex \<Rightarrow> PushIndex_locks
     | PopIndex \<Rightarrow> PopIndex_locks)"

definition lock_rank :: "server_lock \<Rightarrow> int" where
  "lock_rank l = (case l of playerLock \<Rightarrow> -2 | accountLock \<Rightarrow> -1 | sectorLock s \<Rightarrow> sector_lockIndex s | indexMutex \<Rightarrow> 2500)"

lemma ascending_section [simp]: "ascending rank [] (section_under l m)"
  by (simp add: section_under_def)

lemma ascending_two_sectors:
  assumes "IsValidSector x1 y1" and "IsValidSector x2 y2"
  shows "ascending lock_rank []
    (map (\<lambda>s. Acquire (sectorLock s) Exclusive) (LockTwoSectorsExclusive x1 y1 x2 y2) @
     map (\<lambda>s. Unlock (sectorLock s) Exclusive) (UnlockTwoSectorsExclusive x1 y1 x2 y2))"
  using sector_lockIndex_inj [OF assms]
  by (auto simp: LockTwoSectorsExclusive_def UnlockTwoSectorsExclusive_def LockSectorExclusive_def
      UnlockSectorExclusive_def lock_rank_def Let_def)

lemma ascending_chat: "ascending rank [] (Req_Chat_locks cx cy)"
  by (auto simp: Req_Chat_locks_def list_all_iff intro!: ascending_concat)

interpretation server_locks: lock_hierarchy lock_rank handler_locks
proof
  fix h
  show "ascending lock_rank [] (handler_locks h)"
    by (cases h) (auto simp: handler_locks_def JoinProc_locks_def LeaveProc_locks_def CompleteLogin_locks_def
        AcquirePlayer_locks_def Req_SectorMove_locks_def CheckTimeOut_locks_def PushIndex_locks_def
        PopIndex_locks_def LockSectorExclusive_def UnlockSectorExclusive_def
        intro!: ascending_append ascending_chat ascending_two_sectors)
qed

text \<open>Threads that run handlers one after the other, holding no lock at first.\<close>

definition handler_threads :: "handler list list \<Rightarrow> server_lock thread list" where
  "handler_threads hss = map (\<lambda>hs. ([], concat (map handler_locks hs))) hss"

text \<open>
  C7. However the handlers of any number of threads interleave on the player, account, sector and
  index locks, every run ends: a run takes at most as many steps as the handlers have
  acquisitions and releases, every state it reaches can move on or all threads have finished and
  hold no lock, from every state all threads can finish, and no lock is ever held exclusively by
  one thread while another thread holds it.
\<close>

theorem handlers_deadlock_free:
  assumes "(lock_step ^^ k) (handler_threads hss) ts"
  shows "k + work ts \<le> work (handler_threads hss) \<and>
    ((\<exists>ts'. lock_step ts ts') \<or> list_all (\<lambda>t. t = ([], [])) ts) \<and>
    (\<exists>ts'. lock_step\<^sup>*\<^sup>* ts ts' \<and> list_all (\<lambda>t. t = ([], [])) ts') \<and>
    exclusive_ok ts"
proof -
  have run: "lock_step\<^sup>*\<^sup>* (handler_threads hss) ts"
    using assms by (rule relpowp_imp_rtranclp)
  have start: "handler_threads hss = server_locks.start hss"
    by (simp add: handler_threads_def server_locks.start_def)
  have ord: "server_locks.ordered ts"
    using run unfolding start by (rule server_locks.ordered_steps) (rule server_locks.ordered_start)
  have "exclusive_ok (handler_threads hss)" by (simp add: exclusive_ok_def handler_threads_def)
  with exclusive_steps [OF run] server_locks.completes [OF ord] show ?thesis
    using work_steps [OF assms] by (blast elim: converse_rtranclpE)
qed

text \<open>Two players that swap their sectors: each locks the lower index first.\<close>

theorem handlers_deadlock_free_witness:
  "\<exists>ts'. lock_step\<^sup>*\<^sup>* (handler_threads [[Move 1 1 2 1], [Move 2 1 1 1]]) ts' \<and>
     list_all (\<lambda>t. t = ([], [])) ts' \<and> work (handler_threads [[Move 1 1 2 1], [Move 2 1 1 1]]) = 12"
proof -
  have "work (handler_threads [[Move 1 1 2 1], [Move 2 1 1 1]]) = 12"
    by (simp add: work_def handler_threads_def handler_locks_def AcquirePlayer_locks_def section_under_def
        Req_SectorMove_locks_def IsValidSector_def LockTwoSectorsExclusive_def UnlockTwoSectorsExclusive_def
        LockSectorExclusive_def UnlockSectorExclusive_def lockIndex_value sector_lockIndex_def dfSECTOR_MAX_X_def
        dfSECTOR_MAX_Y_def Let_def)
  then show ?thesis
    using handlers_deadlock_free [of 0 "[[Move 1 1 2 1], [Move 2 1 1 1]]", OF relpowp_0_I] by blast
qed

end
