(* ===== verification/Chat.thy ===== *)
theory Chat
  imports Framing Locks
begin

text \<open>
  The chat server (ChatServer.h, ChatServer.cpp): players, the maps from sessions to players and
  from accounts to sessions, the players of each sector, and the handlers of the requests. The
  server extends the network server of theory IocpServer and provides its virtual functions.

  Players live in the pool \<open>playerPool\<close> and are named by their addresses. A hash map is the list of
  its pairs and a hash set the list of its elements; the order in which the code walks through
  them is the order of these lists, and no theorem depends on it. \<open>U\<close> stands for the bytes of
  local variables that are not initialised. The Redis client is the record \<open>redis_ops\<close> of the two
  commands the server sends.
\<close>

section \<open>Constants of the protocol\<close>

definition dfID_LEN :: int where "dfID_LEN = 40"
definition dfNiCK_LEN :: int where "dfNiCK_LEN = 40"
definition dfSESSIONKEY_LEN :: int where "dfSESSIONKEY_LEN = 64"

text \<open>The packet types of \<open>enum Protocol\<close> that the server knows.\<close>

definition en_PACKET_CS_CHAT_REQ_LOGIN :: WORD where "en_PACKET_CS_CHAT_REQ_LOGIN = 1"
definition en_PACKET_CS_CHAT_RES_LOGIN :: WORD where "en_PACKET_CS_CHAT_RES_LOGIN = 2"
definition en_PACKET_CS_CHAT_REQ_SECTOR_MOVE :: WORD where "en_PACKET_CS_CHAT_REQ_SECTOR_MOVE = 3"
definition en_PACKET_CS_CHAT_RES_SECTOR_MOVE :: WORD where "en_PACKET_CS_CHAT_RES_SECTOR_MOVE = 4"
definition en_PACKET_CS_CHAT_REQ_MESSAGE :: WORD where "en_PACKET_CS_CHAT_REQ_MESSAGE = 5"
definition en_PACKET_CS_CHAT_RES_MESSAGE :: WORD where "en_PACKET_CS_CHAT_RES_MESSAGE = 6"
definition en_PACKET_CS_CHAT_REQ_HEARTBEAT :: WORD where "en_PACKET_CS_CHAT_REQ_HEARTBEAT = 7"

lemmas protocol_defs =
  en_PACKET_CS_CHAT_REQ_LOGIN_def en_PACKET_CS_CHAT_RES_LOGIN_def
  en_PACKET_CS_CHAT_REQ_SECTOR_MOVE_def en_PACKET_CS_CHAT_RES_SECTOR_MOVE_def
  en_PACKET_CS_CHAT_REQ_MESSAGE_def en_PACKET_CS_CHAT_RES_MESSAGE_def
  en_PACKET_CS_CHAT_REQ_HEARTBEAT_def

section \<open>Players\<close>

text \<open>An INT64 is its 64 bits; \<open>id\<close>, \<open>nick\<close> and \<open>sessionKey\<close> are the bytes of the arrays.\<close>

record Player =
  p_ref :: int
  closing :: bool
  p_sessionID :: UINT64
  accountNo :: UINT64
  p_id :: "byte list"
  nick :: "byte list"
  sessionKey :: "byte list"
  sectorX :: WORD
  sectorY :: WORD
  isLogined :: bool
  p_lastRecvTime :: UINT64

definition Player_Reset :: "Player \<Rightarrow> Player" where
  "Player_Reset p =
     p\<lparr>p_sessionID := 0, accountNo := 0, p_lastRecvTime := 0, sectorX := - 1, sectorY := - 1, isLogined := False,
       p_id := replicate 40 0, nick := replicate 40 0, sessionKey := replicate 64 0, p_ref := 1, closing := False\<rparr>"

definition Player_SetLogin :: "UINT64 \<Rightarrow> UINT64 \<Rightarrow> byte list \<Rightarrow> byte list \<Rightarrow> byte list \<Rightarrow> Player \<Rightarrow> Player res" where
  "Player_SetLogin sid account wid wNick key p =
     andThen (memcpy (p_id p) 0 wid dfID_LEN) (\<lambda>a.
     andThen (memcpy (nick p) 0 wNick dfNiCK_LEN) (\<lambda>b.
     andThen (memcpy (sessionKey p) 0 key dfSESSIONKEY_LEN) (\<lambda>c.
       Inr (p\<lparr>p_sessionID := sid, accountNo := account, p_id := a, nick := b, sessionKey := c, isLogined := True\<rparr>))))"

definition Player_SetSector :: "WORD \<Rightarrow> WORD \<Rightarrow> Player \<Rightarrow> Player" where
  "Player_SetSector x y p = p\<lparr>sectorX := x, sectorY := y\<rparr>"

text \<open>A player as its constructor leaves it; the members without initialiser are as in \<open>Reset\<close>.\<close>

definition Player_new :: Player where
  "Player_new =
     \<lparr>p_ref = 1, closing = False, p_sessionID = 0, accountNo = 0, p_id = replicate 40 0, nick = replicate 40 0,
      sessionKey = replicate 64 0, sectorX = 0, sectorY = 0, isLogined = False, p_lastRecvTime = 0\<rparr>"

section \<open>State\<close>

text \<open>\<open>st_Redis\<close>: a login waiting for Redis, the session and the request packet.\<close>

type_synonym st_Redis = "UINT64 \<times> nat"

record 'd redis_ops =
  r_set :: "string \<Rightarrow> byte list \<Rightarrow> 'd \<Rightarrow> 'd"
  r_get :: "string \<Rightarrow> 'd \<Rightarrow> byte list option"

record ('q, 'r, 'd) ChatServer = "'q IOCPServer" +
  playerPool :: "Player pool"
  players :: "(UINT64 \<times> nat) list"
  accounts :: "(UINT64 \<times> UINT64) list"
  sector :: "sector_id \<Rightarrow> nat list"
  redisQ :: 'r
  redis :: 'd

type_synonym ('q, 'r, 'd, 'a) chat = "('q, 'r, 'd, 'a) ChatServer_scheme"

definition player :: "('q, 'r, 'd, 'a) chat \<Rightarrow> nat \<Rightarrow> Player" where
  "player s p = pl_objs (playerPool s) p"

definition set_player :: "nat \<Rightarrow> (Player \<Rightarrow> Player) \<Rightarrow> ('q, 'r, 'd, 'a) chat \<Rightarrow> ('q, 'r, 'd, 'a) chat" where
  "set_player p f s = s\<lparr>playerPool := pool_upd p f (playerPool s)\<rparr>"

text \<open>\<open>insert\<close> and \<open>erase\<close> of the set of a sector; \<open>erase\<close> and assignment of a map.\<close>

definition set_insert :: "nat \<Rightarrow> nat list \<Rightarrow> nat list" where
  "set_insert p xs = (if p \<in> set xs then xs else xs @ [p])"

definition set_erase :: "nat \<Rightarrow> nat list \<Rightarrow> nat list" where
  "set_erase p xs = removeAll p xs"

definition map_erase :: "'k \<Rightarrow> ('k \<times> 'v) list \<Rightarrow> ('k \<times> 'v) list" where
  "map_erase k m = filter (\<lambda>kv. fst kv \<noteq> k) m"

definition map_assign :: "'k \<Rightarrow> 'v \<Rightarrow> ('k \<times> 'v) list \<Rightarrow> ('k \<times> 'v) list" where
  "map_assign k v m = map_erase k m @ [(k, v)]"

definition junk :: "(nat \<Rightarrow> byte) \<Rightarrow> nat \<Rightarrow> byte list" where
  "junk U n = map U [0..<n]"

text \<open>\<open>ChatServer::ChatServer\<close>, for a network server \<open>s\<close> that is not started.\<close>

definition chat_new :: "(st_Redis, 'r) queue_ops \<Rightarrow> 'd \<Rightarrow> ('q, 'r, 'd, 'a) chat \<Rightarrow> ('q, 'r, 'd, 'a) chat" where
  "chat_new J db s = s\<lparr>playerPool := pool_new Player_new, players := [], accounts := [], sector := (\<lambda>_. []),
                       redisQ := q_new J, redis := db\<rparr>"

section \<open>References to players\<close>

definition AddRefPlayer :: "nat \<Rightarrow> ('q, 'r, 'd, 'a) chat \<Rightarrow> ('q, 'r, 'd, 'a) chat" where
  "AddRefPlayer p s = set_player p (\<lambda>x. x\<lparr>p_ref := p_ref x + 1\<rparr>) s"

definition ReleasePlayer :: "nat \<Rightarrow> ('q, 'r, 'd, 'a) chat \<Rightarrow> ('q, 'r, 'd, 'a) chat" where
  "ReleasePlayer p s =
     (let s1 = set_player p (\<lambda>x. x\<lparr>p_ref := p_ref x - 1\<rparr>) s
      in if p_ref (player s1 p) = 0 then s1\<lparr>playerPool := pool_Free p (playerPool s1)\<rparr> else s1)"

definition AcquirePlayer :: "UINT64 \<Rightarrow> ('q, 'r, 'd, 'a) chat \<Rightarrow> nat option \<times> ('q, 'r, 'd, 'a) chat" where
  "AcquirePlayer sid s =
     (case map_of (players s) sid of
        None \<Rightarrow> (None, s)
      | Some p \<Rightarrow>
          let s1 = AddRefPlayer p s
          in if closing (player s1 p) then (None, ReleasePlayer p s1) else (Some p, s1))"

section \<open>Joining and leaving\<close>

definition JoinProc :: "os \<Rightarrow> UINT64 \<Rightarrow> ('q, 'r, 'd, 'a) chat \<Rightarrow> (bool \<times> ('q, 'r, 'd, 'a) chat) res" where
  "JoinProc W sid s =
     andThen (pool_Alloc Player_new (os_malloc W (now s)) (playerPool s)) (\<lambda>(p, pp).
       let s1 = tick (s\<lparr>playerPool := pp\<rparr>);
           s2 = tick (set_player p (\<lambda>x. (Player_Reset x)\<lparr>p_sessionID := sid, p_lastRecvTime := os_tick W (now s1),
                                                        p_ref := 1, closing := False\<rparr>) s1)
       in if map_of (players s2) sid \<noteq> None
          then Inr (False, s2\<lparr>playerPool := pool_Free p (playerPool s2)\<rparr>)
          else Inr (True, s2\<lparr>players := players s2 @ [(sid, p)]\<rparr>))"

definition LeaveProc :: "UINT64 \<Rightarrow> ('q, 'r, 'd, 'a) chat \<Rightarrow> ('q, 'r, 'd, 'a) chat" where
  "LeaveProc sid s =
     (case map_of (players s) sid of
        None \<Rightarrow> s
      | Some p \<Rightarrow>
          let s1 = set_player p (\<lambda>x. x\<lparr>closing := True\<rparr>) (AddRefPlayer p (s\<lparr>players := map_erase sid (players s)\<rparr>));
              x = player s1 p;
              s2 = (if isLogined x \<and> accountNo x \<noteq> 0
                    then if map_of (accounts s1) (accountNo x) = Some sid
                         then s1\<lparr>accounts := map_erase (accountNo x) (accounts s1)\<rparr> else s1
                    else s1);
              s3 = (if IsValidSector (sectorX x) (sectorY x)
                    then s2\<lparr>sector := (sector s2)((sectorX x, sectorY x) := set_erase p (sector s2 (sectorX x, sectorY x)))\<rparr>
                    else s2)
          in ReleasePlayer p (set_player p (\<lambda>x. x\<lparr>closing := True\<rparr>) s3))"

definition OnClientJoin :: "os \<Rightarrow> UINT64 \<Rightarrow> ('q, 'r, 'd, 'a) chat \<Rightarrow> ('q, 'r, 'd, 'a) chat res" where
  "OnClientJoin W sid s = andThen (JoinProc W sid s) (\<lambda>(ok, s1). Inr s1)"

definition OnClientLeave :: "UINT64 \<Rightarrow> ('q, 'r, 'd, 'a) chat \<Rightarrow> ('q, 'r, 'd, 'a) chat res" where
  "OnClientLeave sid s = Inr (LeaveProc sid s)"

definition OnConnectionRequest :: bool where "OnConnectionRequest = True"

section \<open>Messages to the clients\<close>

text \<open>\<open>operator<<\<close> and \<open>operator>>\<close> on a packet of the pool.\<close>

definition write_value :: "nat \<Rightarrow> byte list \<Rightarrow> ('q, 'a) srv \<Rightarrow> ('q, 'a) srv res" where
  "write_value p v s = on_packet p (pkt_WriteValue True v) s"

definition put_data :: "nat \<Rightarrow> byte list \<Rightarrow> int \<Rightarrow> ('q, 'a) srv \<Rightarrow> ('q, 'a) srv res" where
  "put_data p src n s = on_packet p (pkt_PutData True src n) s"

definition read_packet :: "nat \<Rightarrow> (CPacket \<Rightarrow> (byte list \<times> CPacket) res) \<Rightarrow> ('q, 'a) srv \<Rightarrow> (byte list \<times> ('q, 'a) srv) res" where
  "read_packet p f s =
     andThen (f (pl_objs (packets s) p)) (\<lambda>(v, x). Inr (v, s\<lparr>packets := pool_upd p (\<lambda>_. x) (packets s)\<rparr>))"

definition read_value :: "nat \<Rightarrow> byte list \<Rightarrow> ('q, 'a) srv \<Rightarrow> (byte list \<times> ('q, 'a) srv) res" where
  "read_value p old s = read_packet p (pkt_ReadValue old) s"

definition get_data :: "nat \<Rightarrow> byte list \<Rightarrow> int \<Rightarrow> ('q, 'a) srv \<Rightarrow> (byte list \<times> ('q, 'a) srv) res" where
  "get_data p dst n s = read_packet p (pkt_GetData dst n) s"

definition alloc_packet :: "os \<Rightarrow> ('q, 'a) srv \<Rightarrow> (nat \<times> ('q, 'a) srv) res" where
  "alloc_packet W s =
     andThen (pkt_Alloc (os_malloc W (now s)) (packets s)) (\<lambda>(p, h). Inr (p, tick (s\<lparr>packets := h\<rparr>)))"

definition encode_packet :: "os \<Rightarrow> nat \<Rightarrow> ('q, 'a) srv \<Rightarrow> ('q, 'a) srv res" where
  "encode_packet W p s = andThen (on_packet p (pkt_SetEncodingCode (os_rand W (now s))) s) (\<lambda>s1. Inr (tick s1))"

definition sub_ref :: "nat \<Rightarrow> ('q, 'a) srv \<Rightarrow> ('q, 'a) srv" where
  "sub_ref p s = s\<lparr>packets := pkt_SubRef p (packets s)\<rparr>"

definition WORD_bytes :: "WORD \<Rightarrow> byte list" where "WORD_bytes w = le_bytes 2 (unat w)"
definition INT64_bytes :: "UINT64 \<Rightarrow> byte list" where "INT64_bytes w = le_bytes 8 (unat w)"
definition WORD_of :: "byte list \<Rightarrow> WORD" where "WORD_of bs = of_nat (le_value bs)"
definition INT64_of :: "byte list \<Rightarrow> UINT64" where "INT64_of bs = of_nat (le_value bs)"

definition MakeLoginResult :: "os \<Rightarrow> UINT64 \<Rightarrow> byte list \<Rightarrow> byte list \<Rightarrow> ('q, 'a) srv \<Rightarrow> (nat \<times> ('q, 'a) srv) res" where
  "MakeLoginResult W account wid nk s =
     andThen (alloc_packet W s) (\<lambda>(p, s1).
     andThen (write_value p (INT64_bytes account) s1) (\<lambda>s2.
     andThen (put_data p wid dfID_LEN s2) (\<lambda>s3.
     andThen (put_data p nk dfNiCK_LEN s3) (\<lambda>s4. Inr (p, s4)))))"

definition Res_Login :: "os \<Rightarrow> UINT64 \<Rightarrow> byte \<Rightarrow> ('q, 'a) srv \<Rightarrow> (nat \<times> ('q, 'a) srv) res" where
  "Res_Login W account status s =
     andThen (alloc_packet W s) (\<lambda>(p, s1).
     andThen (write_value p (WORD_bytes en_PACKET_CS_CHAT_RES_LOGIN) s1) (\<lambda>s2.
     andThen (write_value p [status] s2) (\<lambda>s3.
     andThen (write_value p (INT64_bytes account) s3) (\<lambda>s4.
     andThen (encode_packet W p s4) (\<lambda>s5. Inr (p, s5))))))"

definition Res_SectorMove :: "os \<Rightarrow> UINT64 \<Rightarrow> WORD \<Rightarrow> WORD \<Rightarrow> ('q, 'a) srv \<Rightarrow> (nat \<times> ('q, 'a) srv) res" where
  "Res_SectorMove W account x y s =
     andThen (alloc_packet W s) (\<lambda>(p, s1).
     andThen (write_value p (WORD_bytes en_PACKET_CS_CHAT_RES_SECTOR_MOVE) s1) (\<lambda>s2.
     andThen (write_value p (INT64_bytes account) s2) (\<lambda>s3.
     andThen (write_value p (WORD_bytes x) s3) (\<lambda>s4.
     andThen (write_value p (WORD_bytes y) s4) (\<lambda>s5.
     andThen (encode_packet W p s5) (\<lambda>s6. Inr (p, s6)))))))"

text \<open>
  \<open>len\<close> bytes of the local array \<open>msg\<close> go into the message. The terminator \<open>Res_Chat\<close> writes into
  the array afterwards, at a position below 1024, is not read again.
\<close>

definition Res_Chat :: "os \<Rightarrow> nat \<Rightarrow> byte list \<Rightarrow> WORD \<Rightarrow> ('q, 'r, 'd, 'a) chat \<Rightarrow> (nat \<times> ('q, 'r, 'd, 'a) chat) res" where
  "Res_Chat W pl msg len s =
     andThen (alloc_packet W s) (\<lambda>(p, s1).
     andThen (write_value p (WORD_bytes en_PACKET_CS_CHAT_RES_MESSAGE) s1) (\<lambda>s2.
     andThen (write_value p (INT64_bytes (accountNo (player s2 pl))) s2) (\<lambda>s3.
     andThen (put_data p (p_id (player s3 pl)) dfID_LEN s3) (\<lambda>s4.
     andThen (put_data p (nick (player s4 pl)) dfNiCK_LEN s4) (\<lambda>s5.
     andThen (write_value p (WORD_bytes len) s5) (\<lambda>s6.
     andThen (put_data p msg (int (unat len)) s6) (\<lambda>s7.
     andThen (encode_packet W p s7) (\<lambda>s8. Inr (p, s8)))))))))"

section \<open>Login\<close>

definition EnqueueRedis :: "(st_Redis, 'r) queue_ops \<Rightarrow> UINT64 \<Rightarrow> nat \<Rightarrow> ('q, 'r, 'd, 'a) chat \<Rightarrow> ('q, 'r, 'd, 'a) chat" where
  "EnqueueRedis J sid p s = s\<lparr>redisQ := fst (q_push J (sid, p) (redisQ s))\<rparr>"

definition Req_Login_Redis ::
  "(st_Redis, 'r) queue_ops \<Rightarrow> UINT64 \<Rightarrow> nat \<Rightarrow> nat \<Rightarrow> ('q, 'r, 'd, 'a) chat \<Rightarrow> bool \<times> ('q, 'r, 'd, 'a) chat" where
  "Req_Login_Redis J sid pl p s =
     (if pl = 0 then (False, s)
      else if closing (player s pl) then (False, s)
      else if p_sessionID (player s pl) \<noteq> sid then (False, s)
      else if accountNo (player s pl) \<noteq> 0 \<or> isLogined (player s pl) then (False, s)
      else (True, EnqueueRedis J sid p (s\<lparr>packets := pkt_AddRef p (packets s)\<rparr>)))"

text \<open>
  \<open>wcscpy_s(dst, 20, src)\<close> on arrays of 20 two-byte characters: without a terminator in the first
  20 characters the invalid-parameter handler ends the process.
\<close>

definition is_nul :: "byte list \<Rightarrow> nat \<Rightarrow> bool" where
  "is_nul src k \<longleftrightarrow> src ! (2 * k) = 0 \<and> src ! (2 * k + 1) = 0"

definition wcscpy_s20 :: "byte list \<Rightarrow> byte list \<Rightarrow> byte list res" where
  "wcscpy_s20 dst src =
     (case filter (is_nul src) [0..<20] of
        [] \<Rightarrow> Inl InvalidParameter
      | k # _ \<Rightarrow> Inr (mem_write dst 0 (take (2 * k + 2) src)))"

text \<open>\<open>SendUnicast\<close> hands the packet to \<open>SendPacket\<close> of the network server.\<close>

definition SendUnicast ::
  "os \<Rightarrow> (nat, 'q) queue_ops \<Rightarrow> UINT64 \<Rightarrow> nat \<Rightarrow> ('q, 'r, 'd, 'a) chat \<Rightarrow> ('q, 'r, 'd, 'a) chat res" where
  "SendUnicast W Q sid p s = SendPacket W Q OnClientLeave sid p s"

definition CompleteLogin ::
  "os \<Rightarrow> (nat, 'q) queue_ops \<Rightarrow> (nat \<Rightarrow> byte) \<Rightarrow> UINT64 \<Rightarrow> nat \<Rightarrow> bool \<Rightarrow> ('q, 'r, 'd, 'a) chat \<Rightarrow>
   (bool \<times> ('q, 'r, 'd, 'a) chat) res" where
  "CompleteLogin W Q U sid packet success s =
     (case AcquirePlayer sid s of
        (None, s1) \<Rightarrow> Inr (True, s1)
      | (Some pl, s1) \<Rightarrow>
          if p_sessionID (player s1 pl) \<noteq> sid then Inr (False, s1)
          else if closing (player s1 pl) then Inr (True, ReleasePlayer pl s1)
          else
            andThen (read_value packet (INT64_bytes 0) s1) (\<lambda>(ab, s2).
            andThen (get_data packet (junk U 40) dfID_LEN s2) (\<lambda>(wid, s3).
            andThen (get_data packet (junk (\<lambda>k. U (k + 40)) 40) dfNiCK_LEN s3) (\<lambda>(nk, s4).
              let account = INT64_of ab
              in andThen
                   (if success
                    then
                      let s5 = set_player pl (\<lambda>x. x\<lparr>isLogined := True, accountNo := account\<rparr>)
                                 (s4\<lparr>accounts := map_assign account sid (accounts s4)\<rparr>)
                      in andThen (wcscpy_s20 (p_id (player s5 pl)) wid) (\<lambda>i.
                         andThen (wcscpy_s20 (nick (player s5 pl)) nk) (\<lambda>n.
                         andThen (Res_Login W account 1 (set_player pl (\<lambda>x. x\<lparr>p_id := i, nick := n\<rparr>) s5)) (\<lambda>(res, s6).
                         andThen (SendUnicast W Q sid res s6) (\<lambda>s7. Inr (sub_ref res s7)))))
                    else
                      andThen (Res_Login W account 0 s4) (\<lambda>(res, s6).
                      andThen (SendUnicast W Q sid res s6) (\<lambda>s7. Inr (sub_ref res s7))))
                   (\<lambda>s8. Inr (True, ReleasePlayer pl s8))))))"

text \<open>\<open>_i64toa_s\<close> in base 10: the digits of a number, and a sign.\<close>

fun digits :: "nat \<Rightarrow> string" where
  "digits n = (if n < 10 then [char_of (48 + n)] else digits (n div 10) @ [char_of (48 + n mod 10)])"

definition i64toa :: "UINT64 \<Rightarrow> string" where
  "i64toa w = (if sint w < 0 then CHR ''-'' # digits (nat (- sint w)) else digits (nat (sint w)))"

text \<open>
  What \<open>RedisThread\<close> asks Redis: the key of the client is stored under its account and read back,
  and what comes back is compared with it.
\<close>

definition redis_check :: "'d redis_ops \<Rightarrow> UINT64 \<Rightarrow> byte list \<Rightarrow> 'd \<Rightarrow> bool \<times> 'd" where
  "redis_check R account clientKey db =
     (let redisKey = i64toa account;
          db1 = r_set R redisKey clientKey db;
          keyCopy = clientKey
      in (case r_get R redisKey db1 of
            None \<Rightarrow> False
          | Some v \<Rightarrow> length v = length keyCopy \<and> v = keyCopy, db1))"

text \<open>One job of \<open>RedisThread\<close>.\<close>

definition redis_job ::
  "os \<Rightarrow> (nat, 'q) queue_ops \<Rightarrow> 'd redis_ops \<Rightarrow> (nat \<Rightarrow> byte) \<Rightarrow> st_Redis \<Rightarrow> ('q, 'r, 'd, 'a) chat \<Rightarrow> ('q, 'r, 'd, 'a) chat res" where
  "redis_job W Q R U job s =
     (case job of (sid, packet) \<Rightarrow>
       andThen (read_value packet (INT64_bytes 0) s) (\<lambda>(ab, s1).
       andThen (get_data packet (replicate 40 0) dfID_LEN s1) (\<lambda>(wid, s2).
       andThen (get_data packet (replicate 40 0) dfNiCK_LEN s2) (\<lambda>(nk, s3).
       andThen (get_data packet (replicate 64 0) dfSESSIONKEY_LEN s3) (\<lambda>(clientKey, s4).
         let account = INT64_of ab;
             r = redis_check R account clientKey (redis s4);
             s5 = s4\<lparr>redis := snd r\<rparr>
         in andThen (MakeLoginResult W account wid nk s5) (\<lambda>(result, s6).
            andThen (CompleteLogin W Q U sid result (fst r) s6) (\<lambda>(b, s7).
              Inr (sub_ref packet (sub_ref result s7)))))))))"

text \<open>The inner loop of \<open>RedisThread\<close>, until the queue is empty.\<close>

partial_function (option) redis_loop ::
  "os \<Rightarrow> (nat, 'q) queue_ops \<Rightarrow> (st_Redis, 'r) queue_ops \<Rightarrow> 'd redis_ops \<Rightarrow> (nat \<Rightarrow> byte) \<Rightarrow> ('q, 'r, 'd, 'a) chat \<Rightarrow>
   ('q, 'r, 'd, 'a) chat res option" where
  "redis_loop W Q J R U s =
     (case q_pop J (redisQ s) of
        None \<Rightarrow> Some (Inr s)
      | Some (job, q) \<Rightarrow>
          (case redis_job W Q R U job (s\<lparr>redisQ := q\<rparr>) of
             Inl e \<Rightarrow> Some (Inl e)
           | Inr s1 \<Rightarrow> redis_loop W Q J R U s1))"

section \<open>Moving and chatting\<close>

text \<open>
  The entry and exit of a player in the sector sets, under the locks of theory Locks: the old
  sector when it is on the map, then the new one.
\<close>

definition move_sector :: "nat \<Rightarrow> sector_id \<Rightarrow> sector_id \<Rightarrow> (sector_id \<Rightarrow> nat list) \<Rightarrow> sector_id \<Rightarrow> nat list" where
  "move_sector pl old new m =
     (let m1 = (if IsValidSector (fst old) (snd old) then m(old := set_erase pl (m old)) else m)
      in m1(new := set_insert pl (m1 new)))"

text \<open>\<open>Req_SectorMove\<close> once the request is read.\<close>

definition move_player ::
  "os \<Rightarrow> (nat, 'q) queue_ops \<Rightarrow> UINT64 \<Rightarrow> nat \<Rightarrow> UINT64 \<Rightarrow> WORD \<Rightarrow> WORD \<Rightarrow> ('q, 'r, 'd, 'a) chat \<Rightarrow>
   (bool \<times> ('q, 'r, 'd, 'a) chat) res" where
  "move_player W Q sid pl account x y s =
     (if \<not> IsValidSector x y then Inr (False, s)
      else
        let old = (sectorX (player s pl), sectorY (player s pl));
            s1 = s\<lparr>sector := move_sector pl old (x, y) (sector s)\<rparr>;
            s2 = tick (set_player pl (\<lambda>z. z\<lparr>sectorX := x, sectorY := y, p_lastRecvTime := os_tick W (now s1)\<rparr>) s1)
        in andThen (Res_SectorMove W account x y s2) (\<lambda>(res, s3).
           andThen (SendPacket W Q OnClientLeave sid res s3) (\<lambda>s4. Inr (True, sub_ref res s4))))"

definition Req_SectorMove ::
  "os \<Rightarrow> (nat, 'q) queue_ops \<Rightarrow> (nat \<Rightarrow> byte) \<Rightarrow> UINT64 \<Rightarrow> nat \<Rightarrow> nat \<Rightarrow> ('q, 'r, 'd, 'a) chat \<Rightarrow>
   (bool \<times> ('q, 'r, 'd, 'a) chat) res" where
  "Req_SectorMove W Q U sid pl p s =
     andThen (read_value p (INT64_bytes 0) s) (\<lambda>(ab, s1).
     andThen (read_value p (junk U 2) s1) (\<lambda>(xb, s2).
     andThen (read_value p (junk (\<lambda>k. U (k + 2)) 2) s2) (\<lambda>(yb, s3).
       move_player W Q sid pl (INT64_of ab) (WORD_of xb) (WORD_of yb) s3)))"

text \<open>The sessions a message goes to: the logged-in players of the sectors around.\<close>

definition chat_targets :: "WORD \<Rightarrow> WORD \<Rightarrow> ('q, 'r, 'd, 'a) chat \<Rightarrow> UINT64 list" where
  "chat_targets cx cy s =
     concat (map (\<lambda>c. map (\<lambda>t. p_sessionID (player s t)) (filter (\<lambda>t. t \<noteq> 0 \<and> isLogined (player s t)) (sector s c)))
       (around_sectors cx cy))"

fun send_all ::
  "os \<Rightarrow> (nat, 'q) queue_ops \<Rightarrow> nat \<Rightarrow> UINT64 list \<Rightarrow> ('q, 'r, 'd, 'a) chat \<Rightarrow> ('q, 'r, 'd, 'a) chat res" where
  "send_all W Q p [] s = Inr s"
| "send_all W Q p (sid # sids) s = andThen (SendPacket W Q OnClientLeave sid p s) (send_all W Q p sids)"

definition Req_Chat ::
  "os \<Rightarrow> (nat, 'q) queue_ops \<Rightarrow> (nat \<Rightarrow> byte) \<Rightarrow> UINT64 \<Rightarrow> nat \<Rightarrow> nat \<Rightarrow> ('q, 'r, 'd, 'a) chat \<Rightarrow>
   (bool \<times> ('q, 'r, 'd, 'a) chat) res" where
  "Req_Chat W Q U sid pl p s =
     (if \<not> isLogined (player s pl) then Inr (False, s)
      else
        andThen (read_value p (INT64_bytes 0) s) (\<lambda>(ab, s1).
        andThen (read_value p (WORD_bytes 0) s1) (\<lambda>(lb, s2).
          let msgLenBytes = WORD_of lb
          in if msgLenBytes = 0 then Inr (False, s2)
             else
               andThen (get_data p (junk U 2048) (int (unat msgLenBytes)) s2) (\<lambda>(msg, s3).
               andThen (Res_Chat W pl msg msgLenBytes s3) (\<lambda>(res, s4).
                 let cx = sectorX (player s4 pl); cy = sectorY (player s4 pl)
                 in if \<not> IsValidSector cx cy then Inr (False, sub_ref res s4)
                    else andThen (send_all W Q res (chat_targets cx cy s4) s4) (\<lambda>s5. Inr (True, sub_ref res s5)))))))"

section \<open>Requests\<close>

definition RecvProc ::
  "os \<Rightarrow> (nat, 'q) queue_ops \<Rightarrow> (st_Redis, 'r) queue_ops \<Rightarrow> (nat \<Rightarrow> byte) \<Rightarrow> UINT64 \<Rightarrow> nat \<Rightarrow> ('q, 'r, 'd, 'a) chat \<Rightarrow>
   (bool \<times> ('q, 'r, 'd, 'a) chat) res" where
  "RecvProc W Q J U sid p s =
     (case AcquirePlayer sid s of
        (None, s1) \<Rightarrow> Inr (False, s1)
      | (Some pl, s1) \<Rightarrow>
          let s2 = tick (set_player pl (\<lambda>x. x\<lparr>p_lastRecvTime := os_tick W (now s1)\<rparr>) s1)
          in andThen (read_value p (WORD_bytes 0) s2) (\<lambda>(tb, s3).
             andThen
               (let type = WORD_of tb
                in if type = en_PACKET_CS_CHAT_REQ_LOGIN then Inr (Req_Login_Redis J sid pl p s3)
                   else if type = en_PACKET_CS_CHAT_REQ_SECTOR_MOVE then Req_SectorMove W Q U sid pl p s3
                   else if type = en_PACKET_CS_CHAT_REQ_MESSAGE then Req_Chat W Q U sid pl p s3
                   else if type = en_PACKET_CS_CHAT_REQ_HEARTBEAT then Inr (True, s3)
                   else Inr (False, s3))
               (\<lambda>(ok, s4). Inr (ok, ReleasePlayer pl s4))))"

definition OnRecv ::
  "os \<Rightarrow> (nat, 'q) queue_ops \<Rightarrow> (st_Redis, 'r) queue_ops \<Rightarrow> (nat \<Rightarrow> byte) \<Rightarrow> UINT64 \<Rightarrow> nat \<Rightarrow> ('q, 'r, 'd, 'a) chat \<Rightarrow>
   ('q, 'r, 'd, 'a) chat res" where
  "OnRecv W Q J U sid p s =
     andThen (RecvProc W Q J U sid p s) (\<lambda>(ok, s1). if \<not> ok then Disconnect Q OnClientLeave sid s1 else Inr s1)"

section \<open>Timeouts, monitor and end\<close>

definition timed_out :: "UINT64 \<Rightarrow> ('q, 'r, 'd, 'a) chat \<Rightarrow> UINT64 list" where
  "timed_out curTime s =
     map fst (filter (\<lambda>(sid, p). p \<noteq> 0 \<and> curTime > p_lastRecvTime (player s p) \<and>
                                curTime - p_lastRecvTime (player s p) > 40000) (players s))"

fun kick_all :: "(nat, 'q) queue_ops \<Rightarrow> UINT64 list \<Rightarrow> ('q, 'r, 'd, 'a) chat \<Rightarrow> ('q, 'r, 'd, 'a) chat res" where
  "kick_all Q [] s = Inr s"
| "kick_all Q (sid # sids) s = andThen (Disconnect Q OnClientLeave sid s) (kick_all Q sids)"

definition CheckTimeOut :: "os \<Rightarrow> (nat, 'q) queue_ops \<Rightarrow> ('q, 'r, 'd, 'a) chat \<Rightarrow> ('q, 'r, 'd, 'a) chat res" where
  "CheckTimeOut W Q s = (let curTime = os_tick W (now s); s1 = tick s in kick_all Q (timed_out curTime s1) s1)"

text \<open>The destructor, after its threads have ended.\<close>

definition chat_destroy :: "('q, 'r, 'd, 'a) chat \<Rightarrow> ('q, 'r, 'd, 'a) chat" where
  "chat_destroy s =
     (fold (\<lambda>(sid, p) s. if p \<noteq> 0 then ReleasePlayer p s else s) (players s) s)\<lparr>players := [], accounts := []\<rparr>"

end
