(* ===== verification/App.thy ===== *)
theory App
  imports Framing
begin

text \<open>
  The interface between the network server and the server built on it. IOCPServer.cpp calls the
  virtual functions of its subclass, and the subclass calls \<open>SendPacket\<close> and \<open>Disconnect\<close> back.
  An invariant of the subclass that only speaks of its own members and is kept by its virtual
  functions is kept by every handler of the network server.
\<close>

section \<open>Invariants of a subclass\<close>

text \<open>
  \<open>frame\<close>: the invariant does not depend on the members of the network server, except that the
  clock may advance. \<open>leave_keeps\<close>: \<open>OnClientLeave\<close> keeps it.
\<close>

locale app_invariant =
  fixes I :: "('q, 'a) srv \<Rightarrow> bool"
    and leave :: "('q, 'a) leave"
  assumes frame: "I s \<Longrightarrow> IOCPServer.more s' = IOCPServer.more s \<Longrightarrow> now s \<le> now s' \<Longrightarrow> I s'"
    and leave_keeps: "I s \<Longrightarrow> leave sid s = Inr s' \<Longrightarrow> I s'"
begin

lemma I_set_sess [simp]: "I s \<Longrightarrow> I (set_sess i f s)"
  and I_add_call [simp]: "I s \<Longrightarrow> I (add_call c s)"
  and I_tick [simp]: "I s \<Longrightarrow> I (tick s)"
  and I_packets [simp]: "I s \<Longrightarrow> I (s\<lparr>packets := h\<rparr>)"
  and I_sessionCount [simp]: "I s \<Longrightarrow> I (s\<lparr>sessionCount := n\<rparr>)"
  and I_indexStack [simp]: "I s \<Longrightarrow> I (s\<lparr>indexStack := st\<rparr>)"
  and I_recvTPS [simp]: "I s \<Longrightarrow> I (s\<lparr>recvTPS := t\<rparr>)"
  and I_sendTPS [simp]: "I s \<Longrightarrow> I (s\<lparr>sendTPS := t\<rparr>)"
  and I_packets_sendTPS [simp]: "I s \<Longrightarrow> I (s\<lparr>packets := h, sendTPS := t\<rparr>)"
  by (erule frame; simp)+

lemma I_drain_sendBuf: "drain_sendBuf Q c i s = Inr s' \<Longrightarrow> I s \<Longrightarrow> I s'"
  and I_drain_completeSendBuf: "drain_completeSendBuf Q c i s = Inr s' \<Longrightarrow> I s \<Longrightarrow> I s'"
  by (auto simp: drain_sendBuf_def drain_completeSendBuf_def andThen_eq_Inr)

lemma I_Session_Init: "Session_Init Q i s = Inr s' \<Longrightarrow> I s \<Longrightarrow> I s'"
  by (auto simp: Session_Init_def andThen_eq_Inr Let_def dest!: I_drain_sendBuf I_drain_completeSendBuf)

lemma I_PushIndex [simp]: "I s \<Longrightarrow> I (PushIndex idx s)"
  by (simp add: PushIndex_def)

lemma I_ReleaseSession: "ReleaseSession Q leave i s = Inr s' \<Longrightarrow> I s \<Longrightarrow> I s'"
proof -
  assume r: "ReleaseSession Q leave i s = Inr s'" and s: "I s"
  from r obtain s1 s2 s3 s5 where l: "leave (sessionID (sess s i)) s = Inr s1"
    and d: "drain_sendBuf Q True i s1 = Inr s2" "drain_completeSendBuf Q True i s2 = Inr s3"
    and n: "Session_Init Q i (set_sess i (\<lambda>x. x\<lparr>recvBuf := rb_ClearBuffer (recvBuf x)\<rparr>) s3) = Inr s5"
    and e: "s' = PushIndex (index (sess s3 i)) s5\<lparr>sessionCount := sessionCount (PushIndex (index (sess s3 i)) s5) - 1\<rparr>"
    unfolding ReleaseSession_def Let_def andThen_eq_Inr by blast
  have "I s3" using leave_keeps [OF s l] d I_drain_sendBuf I_drain_completeSendBuf by blast
  with I_Session_Init [OF n] show ?thesis by (simp add: e)
qed

lemma I_DisConnect: "DisConnect Q leave i s = Inr s' \<Longrightarrow> I s \<Longrightarrow> I s'"
  by (auto simp: DisConnect_def Let_def dest: I_ReleaseSession split: if_splits)

lemma I_io_done: "io_done Q leave c i s = Inr s' \<Longrightarrow> I s \<Longrightarrow> I s'"
  by (auto simp: io_done_def Let_def dest: I_ReleaseSession split: if_splits)

lemma I_SessionUnLock: "SessionUnLock Q leave i s = Inr s' \<Longrightarrow> I s \<Longrightarrow> I s'"
  by (auto simp: SessionUnLock_def dest: I_io_done)

lemma I_SessionLock: "SessionLock Q leave sid s = Inr (r, s') \<Longrightarrow> I s \<Longrightarrow> I s'"
  by (auto simp: SessionLock_def Let_def andThen_eq_Inr dest: I_io_done split: if_splits)

lemma I_Disconnect: "Disconnect Q leave sid s = Inr s' \<Longrightarrow> I s \<Longrightarrow> I s'"
  by (auto simp: Disconnect_def andThen_eq_Inr dest!: I_SessionLock I_DisConnect I_SessionUnLock
      split: option.splits)

lemma I_PostSend: "PostSend W Q leave i s = Inr (b, s') \<Longrightarrow> I s \<Longrightarrow> I s'"
  by (auto simp: PostSend_def andThen_eq_Inr Let_def dest!: I_ReleaseSession split: if_splits option.splits)

lemma I_on_packet: "on_packet p f s = Inr s' \<Longrightarrow> I s \<Longrightarrow> I s'"
  by (auto simp: on_packet_def andThen_eq_Inr)

lemma I_SendPacket: "SendPacket W Q leave sid p s = Inr s' \<Longrightarrow> I s \<Longrightarrow> I s'"
  by (auto simp: SendPacket_def andThen_eq_Inr Let_def
      dest!: I_SessionLock I_on_packet I_PostSend I_SessionUnLock split: option.splits if_splits)

lemma I_complete_loop: "complete_loop Q leave i k s = Inr s' \<Longrightarrow> I s \<Longrightarrow> I s'"
  by (induction k arbitrary: s) (auto simp: Let_def dest!: I_DisConnect split: option.splits if_splits)

lemma I_SendComplete: "SendComplete W Q leave i n s = Inr s' \<Longrightarrow> I s \<Longrightarrow> I s'"
  by (auto simp: SendComplete_def andThen_eq_Inr Let_def
      dest!: I_DisConnect I_complete_loop I_PostSend split: if_splits)

lemma I_PostRecv: "PostRecv W Q leave i s = Inr (b, s') \<Longrightarrow> I s \<Longrightarrow> I s'"
  by (auto simp: PostRecv_def andThen_eq_Inr Let_def dest!: I_ReleaseSession I_DisConnect split: if_splits)

lemma I_recv_step: "recv_step W i s = Inr (r, s') \<Longrightarrow> I s \<Longrightarrow> I s'"
  by (auto simp: recv_step_def andThen_eq_Inr Let_def dest!: I_on_packet split: if_splits)

lemma I_CreateSession: "CreateSession W k s = Inr (i, s') \<Longrightarrow> I s \<Longrightarrow> I s'"
  by (auto simp: CreateSession_def PopIndex_def andThen_eq_Inr Let_def split: if_splits list.splits
      intro!: frame [of s])

lemma I_stop_loop: "stop_loop Q leave is s = Inr s' \<Longrightarrow> I s \<Longrightarrow> I s'"
  by (induction "is" arbitrary: s)
     (auto simp: andThen_eq_Inr dest!: I_DisConnect I_drain_sendBuf I_drain_completeSendBuf split: if_splits)

end

text \<open>With the functions called for a new session and for a packet, the threads keep it too.\<close>

locale app_server = app_invariant I leave
  for I :: "('q, 'a) srv \<Rightarrow> bool" and leave :: "('q, 'a) leave" +
  fixes recv :: "('q, 'a) recv"
    and join :: "UINT64 \<Rightarrow> ('q, 'a) srv \<Rightarrow> ('q, 'a) srv res"
  assumes recv_keeps: "I s \<Longrightarrow> recv sid p s = Inr s' \<Longrightarrow> I s'"
    and join_keeps: "I s \<Longrightarrow> join sid s = Inr s' \<Longrightarrow> I s'"
begin

lemma I_recv_loop:
  assumes "recv_loop W Q leave recv i s = Some (Inr (b, s'))" and "I s"
  shows "I s'"
proof -
  have "leave' = leave \<longrightarrow> recv' = recv \<longrightarrow> I s \<longrightarrow> (\<forall>b s'. r = Inr (b, s') \<longrightarrow> I s')"
    if "recv_loop W Q leave' recv' i s = Some r" for leave' recv' r
    using that
  proof (induct rule: recv_loop.raw_induct [rotated, consumes 1])
    case (1 rl W Q l r' i s y)
    show ?case
    proof (intro impI allI)
      fix b s' assume eq: "l = leave" "r' = recv" and s: "I s" and y: "y = Inr (b, s')"
      obtain res s1 where step: "recv_step W i s = Inr (res, s1)"
        using 1(2) y by (cases "recv_step W i s") auto
      have s1: "I s1" using I_recv_step [OF step s] .
      show "I s'"
      proof (cases res)
        case (Deliver p)
        then obtain s2 where s2: "recv (sessionID (sess s1 i)) p s1 = Inr s2"
          and go_on: "rl W Q leave recv i (s2\<lparr>packets := pkt_SubRef p (packets s2)\<rparr>) = Some y"
          using 1(2) step eq y by (auto split: sum.splits)
        have "I (s2\<lparr>packets := pkt_SubRef p (packets s2)\<rparr>)" using recv_keeps [OF s1 s2] by simp
        with 1(1) [OF go_on] y show ?thesis by blast
      qed (use 1(2) step eq y s1 in \<open>auto simp: andThen_eq_Inr dest: I_DisConnect\<close>)
    qed
  qed
  with assms show ?thesis by blast
qed

lemma I_RecvComplete:
  assumes "RecvComplete W Q leave recv i n s = Inr s'" and s: "I s"
  shows "I s'"
proof (cases "n = 0")
  case True
  with assms I_DisConnect show ?thesis by (auto simp: RecvComplete_def)
next
  case False
  with assms obtain rb r go s2 where
    loop: "returned (recv_loop W Q leave recv i
        (tick (set_sess i (\<lambda>x. x\<lparr>lastRecvTime := os_tick W (now s), recvBuf := rb\<rparr>) s))) = Inr (go, s2)"
    and rest: "s' = s2 \<or> (\<exists>b. PostRecv W Q leave i s2 = Inr (b, s'))"
    by (auto simp: RecvComplete_def andThen_eq_Inr Let_def split: if_splits)
  have "I s2" using loop s by (auto simp: returned_def dest!: I_recv_loop split: option.splits)
  with rest I_PostRecv show ?thesis by blast
qed

lemma I_worker_step: "worker_step W Q leave recv i c s = Inr s' \<Longrightarrow> I s \<Longrightarrow> I s'"
  by (auto simp: worker_step_def andThen_eq_Inr dest!: I_RecvComplete I_SendComplete I_io_done
      split: completion.splits)

lemma I_accept_step:
  assumes "accept_step W Q leave join request k s = Inr s'" and "I s"
  shows "I s'"
proof -
  from assms(1) consider "s' = add_call (OsClose k) s"
    | i s1 s2 b where "CreateSession W k s = Inr (i, s1)" "join (sessionID (sess s1 i)) s1 = Inr s2"
      "PostRecv W Q leave i s2 = Inr (b, s')"
    by (auto simp: accept_step_def andThen_eq_Inr split: if_splits)
  then show ?thesis
    using assms(2) I_CreateSession join_keeps I_PostRecv by cases (simp, blast)
qed

lemma I_monitor_step: "I s \<Longrightarrow> I (monitor_step s)"
  by (erule frame) (simp_all add: monitor_step_def)

end

end
