(* ===== verification/Players.thy ===== *)
theory Players
  imports Chat App
begin

text \<open>
  The invariant of the chat server's data (ChatServer.cpp): which players the maps and the sector
  sets hold, and how many references each player has. Every handler keeps it, through the
  interface of theory App with the network server.
\<close>

section \<open>Frame lemmas\<close>

lemma player_set_player [simp]:
  "player (set_player p f s) q = (if q = p then f (player s p) else player s q)"
  by (simp add: player_def set_player_def)

lemma set_player_simps [simp]:
  "players (set_player p f s) = players s"
  "accounts (set_player p f s) = accounts s"
  "sector (set_player p f s) = sector s"
  "pl_list (playerPool (set_player p f s)) = pl_list (playerPool s)"
  "packets (set_player p f s) = packets s"
  "sessionArray (set_player p f s) = sessionArray s"
  "now (set_player p f s) = now s"
  by (simp_all add: set_player_def)

lemma player_frame [simp]:
  "player (s\<lparr>players := m\<rparr>) p = player s p"
  "player (s\<lparr>accounts := a\<rparr>) p = player s p"
  "player (s\<lparr>sector := g\<rparr>) p = player s p"
  "player (s\<lparr>packets := h\<rparr>) p = player s p"
  "player (s\<lparr>playerPool := pp\<rparr>) p = pl_objs pp p"
  by (simp_all add: player_def)

lemma chat_tick [simp]:
  "players (tick s) = players s" "accounts (tick s) = accounts s" "sector (tick s) = sector s"
  "playerPool (tick s) = playerPool s" "player (tick s) p = player s p"
  by (simp_all add: tick_def player_def)

section \<open>The invariant of the player maps\<close>

text \<open>
  Every session in the map has a player of its own, taken from the pool, that carries the id of
  the session and is referenced by the map; a player is in the set of a sector exactly when it
  is in the map and the sector is the one on the map it stands in. \<open>H p\<close> is how many references
  to player \<open>p\<close> the handlers in progress hold beside the one of the map.
\<close>

definition players_ok :: "(nat \<Rightarrow> nat) \<Rightarrow> ('q, 'r, 'd, 'a) chat \<Rightarrow> bool" where
  "players_ok H s \<longleftrightarrow>
     distinct (map fst (players s)) \<and> distinct (map snd (players s)) \<and>
     (\<forall>(sid, p)\<in>set (players s). p \<noteq> 0 \<and> p \<in> pool_live (playerPool s) \<and> p_sessionID (player s p) = sid \<and>
        \<not> closing (player s p) \<and> 1 + int (H p) \<le> p_ref (player s p)) \<and>
     (\<forall>p. 0 < H p \<longrightarrow> p \<in> pool_live (playerPool s) \<and> int (H p) \<le> p_ref (player s p))"

definition sectors_ok :: "('q, 'r, 'd, 'a) chat \<Rightarrow> bool" where
  "sectors_ok s \<longleftrightarrow>
     (\<forall>c. distinct (sector s c)) \<and>
     (\<forall>p c. p \<in> set (sector s c) \<longleftrightarrow>
        p \<in> snd ` set (players s) \<and> c = (sectorX (player s p), sectorY (player s p)) \<and>
        IsValidSector (fst c) (snd c))"

lemma sectors_okD:
  assumes "sectors_ok s"
  shows "distinct (sector s c)"
    and "p \<in> set (sector s c) \<longleftrightarrow> p \<in> snd ` set (players s) \<and>
      c = (sectorX (player s p), sectorY (player s p)) \<and> IsValidSector (fst c) (snd c)"
  using assms unfolding sectors_ok_def by blast+

definition pool_fresh :: "os \<Rightarrow> ('q, 'r, 'd, 'a) chat \<Rightarrow> bool" where
  "pool_fresh W s \<longleftrightarrow> pool_ok (\<lambda>_. True) (playerPool s) \<and> blocks (pl_list (playerPool s)) \<subseteq> os_malloc W ` {..<now s}"

definition chat_inv :: "os \<Rightarrow> (nat \<Rightarrow> nat) \<Rightarrow> ('q, 'r, 'd, 'a) chat \<Rightarrow> bool" where
  "chat_inv W H s \<longleftrightarrow> pool_fresh W s \<and> players_ok H s \<and> sectors_ok s"

lemma player_fresh:
  assumes "malloc_laws W" and "pool_fresh W s"
  shows "os_malloc W (now s) \<noteq> 0" and "os_malloc W (now s) \<notin> blocks (pl_list (playerPool s))"
proof -
  have "os_malloc W (now s) \<notin> os_malloc W ` {..<now s}"
    using assms(1) by (auto simp: malloc_laws_def dest: injD)
  with assms show "os_malloc W (now s) \<noteq> 0" "os_malloc W (now s) \<notin> blocks (pl_list (playerPool s))"
    by (auto simp: malloc_laws_def pool_fresh_def)
qed

lemma invalid_minus_one: "\<not> IsValidSector (- 1) (- 1)"
  by (simp add: IsValidSector_def dfSECTOR_MAX_X_def unsigned_minus_1_eq_mask mask_eq_exp_minus_1)

lemma players_okD:
  assumes "players_ok H s"
  shows "(sid, p) \<in> set (players s) \<Longrightarrow> p \<noteq> 0 \<and> p \<in> pool_live (playerPool s) \<and> p_sessionID (player s p) = sid \<and>
      \<not> closing (player s p) \<and> 1 + int (H p) \<le> p_ref (player s p)"
    and "0 < H p \<Longrightarrow> p \<in> pool_live (playerPool s) \<and> int (H p) \<le> p_ref (player s p)"
    and "distinct (map fst (players s))" and "distinct (map snd (players s))"
  using assms by (auto simp: players_ok_def)

lemma map_of_players:
  "players_ok H s \<Longrightarrow> map_of (players s) sid = Some p \<longleftrightarrow> (sid, p) \<in> set (players s)"
  by (simp add: players_ok_def)

text \<open>Joining: a new player, in no sector; a second join of the same session changes no map.\<close>

lemma JoinProc_inv:
  assumes W: "malloc_laws W" and inv: "chat_inv W H s"
  shows "\<exists>ok s1. JoinProc W sid s = Inr (ok, s1) \<and> chat_inv W H s1 \<and> (ok \<longleftrightarrow> map_of (players s) sid = None) \<and>
    sector s1 = sector s \<and> accounts s1 = accounts s \<and>
    (ok \<longrightarrow> (\<exists>p. p \<notin> pool_live (playerPool s) \<and> players s1 = players s @ [(sid, p)] \<and>
       player s1 p = \<lparr>p_ref = 1, closing = False, p_sessionID = sid, accountNo = 0, p_id = replicate 40 0,
         nick = replicate 40 0, sessionKey = replicate 64 0, sectorX = - 1, sectorY = - 1, isLogined = False,
         p_lastRecvTime = os_tick W (now s + 1)\<rparr>)) \<and>
    (\<not> ok \<longrightarrow> players s1 = players s)"
proof -
  have fresh: "pool_fresh W s" and pok: "players_ok H s" and sok: "sectors_ok s" using inv by (auto simp: chat_inv_def)
  then have "pool_ok (\<lambda>_. True) (playerPool s)" by (simp add: pool_fresh_def)
  from pool_Alloc_ok [OF this TrueI player_fresh [OF W fresh], of Player_new] obtain p pp
    where a: "pool_Alloc Player_new (os_malloc W (now s)) (playerPool s) = Inr (p, pp)" "pool_ok (\<lambda>_. True) pp"
      "p \<noteq> 0" "p \<notin> pool_live (playerPool s)" "pool_live pp = insert p (pool_live (playerPool s))"
      "blocks (pl_list pp) \<subseteq> insert (os_malloc W (now s)) (blocks (pl_list (playerPool s)))"
      "\<And>q. q \<noteq> p \<Longrightarrow> pl_objs pp q = pl_objs (playerPool s) q" by blast
  define s2 where "s2 = tick (set_player p (\<lambda>x. (Player_Reset x)\<lparr>p_sessionID := sid,
      p_lastRecvTime := os_tick W (now s + 1), p_ref := 1, closing := False\<rparr>) (tick (s\<lparr>playerPool := pp\<rparr>)))"
  have s2: "players s2 = players s" "sector s2 = sector s" "accounts s2 = accounts s" "now s2 = now s + 2"
    "pl_list (playerPool s2) = pl_list pp" "\<And>q. q \<noteq> p \<Longrightarrow> player s2 q = player s q"
    using a(7) by (simp_all add: s2_def) (simp add: player_def)
  have p2: "player s2 p = \<lparr>p_ref = 1, closing = False, p_sessionID = sid, accountNo = 0, p_id = replicate 40 0,
         nick = replicate 40 0, sessionKey = replicate 64 0, sectorX = - 1, sectorY = - 1, isLogined = False,
         p_lastRecvTime = os_tick W (now s + 1)\<rparr>"
    by (simp add: s2_def Player_Reset_def)
  have notin: "p \<notin> snd ` set (players s)" using pok a(4) by (auto simp: players_ok_def)
  have same: "player s2 q = player s q" if "(k, q) \<in> set (players s)" for k q
    using that notin s2(6) by (force simp: image_iff)
  have hold: "q \<noteq> p \<and> player s2 q = player s q" if "0 < H q" for q
    using that pok a(4) s2(6) by (force simp: players_ok_def)
  have hp: "H p = 0" using hold [of p] by auto
  have b2: "blocks (pl_list pp) \<subseteq> os_malloc W ` {..<now s + 2}"
  proof -
    have "insert (os_malloc W (now s)) (os_malloc W ` {..<now s}) \<subseteq> os_malloc W ` {..<now s + 2}" by auto
    with a(6) fresh show ?thesis unfolding pool_fresh_def by blast
  qed
  have pool2: "pool_ok (\<lambda>_. True) (playerPool s2)" using a(2) by (simp add: pool_ok_def s2(5))
  show ?thesis
  proof (cases "map_of (players s) sid")
    case None
    define s3 where "s3 = s2\<lparr>players := players s @ [(sid, p)]\<rparr>"
    have eq: "JoinProc W sid s = Inr (True, s3)"
      using None by (simp add: JoinProc_def a(1) s2_def s3_def Let_def)
    have "pool_fresh W s3" using pool2 b2 by (simp add: pool_fresh_def s3_def s2)
    moreover have "players_ok H s3"
      using pok None notin a(3,5) p2 same hold hp
      by (auto simp: players_ok_def s3_def s2(1,5) map_of_eq_None_iff image_iff)
    moreover have "sectors_ok s3"
      unfolding sectors_ok_def
    proof (intro conjI allI)
      fix q c
      show "distinct (sector s3 c)" using sok by (simp add: sectors_okD s3_def s2)
      show "q \<in> set (sector s3 c) \<longleftrightarrow> q \<in> snd ` set (players s3) \<and>
          c = (sectorX (player s3 q), sectorY (player s3 q)) \<and> IsValidSector (fst c) (snd c)"
        using sok notin p2 invalid_minus_one by (cases "q = p") (auto simp: sectors_okD s3_def s2)
    qed
    ultimately show ?thesis using eq None p2 a(4) by (auto simp: chat_inv_def s3_def s2)
  next
    case (Some q)
    define s3 where "s3 = s2\<lparr>playerPool := pool_Free p (playerPool s2)\<rparr>"
    have eq: "JoinProc W sid s = Inr (False, s3)"
      using Some by (simp add: JoinProc_def a(1) s2_def s3_def Let_def)
    from pool_Free_ok [OF pool2, of p] a(5) have free: "pool_ok (\<lambda>_. True) (playerPool s3)"
      "pool_live (playerPool s3) = pool_live (playerPool s) - {p}" "blocks (pl_list (playerPool s3)) = blocks (pl_list pp)"
      by (auto simp: s3_def s2(5))
    have pl: "player s3 r = player s2 r" for r by (simp add: player_def s3_def)
    have "pool_fresh W s3" using free b2 by (simp add: pool_fresh_def s3_def s2)
    moreover have "players_ok H s3"
    proof -
      have "players s3 = players s" by (simp add: s3_def s2)
      then show ?thesis
        using pok a(4) same hold unfolding players_ok_def pl free(2) by (auto split: prod.splits)
    qed
    moreover have "sectors_ok s3"
      unfolding sectors_ok_def pl
    proof (intro conjI allI)
      fix r c
      show "distinct (sector s3 c)" using sok by (simp add: sectors_okD s3_def s2)
      show "r \<in> set (sector s3 c) \<longleftrightarrow> r \<in> snd ` set (players s3) \<and>
          c = (sectorX (player s2 r), sectorY (player s2 r)) \<and> IsValidSector (fst c) (snd c)"
        using sok notin s2(6) by (cases "r = p") (auto simp: sectors_okD s3_def s2)
    qed
    ultimately show ?thesis using eq Some by (auto simp: chat_inv_def s3_def s2)
  qed
qed

text \<open>
  Leaving: the session and its player leave the maps and the sector. The reference count is
  raised and lowered by one, so the reference the map held is never dropped.
\<close>

lemma map_erase_set: "set (map_erase k m) = {kv \<in> set m. fst kv \<noteq> k}"
  by (auto simp: map_erase_def)

lemma LeaveProc_absent: "map_of (players s) sid = None \<Longrightarrow> LeaveProc sid s = s"
  by (simp add: LeaveProc_def)

lemma LeaveProc_result:
  assumes pok: "players_ok H s" and p: "map_of (players s) sid = Some p" and s': "s' = LeaveProc sid s"
  shows "players s' = map_erase sid (players s)"
    and "player s' q = (if q = p then (player s p)\<lparr>closing := True\<rparr> else player s q)"
    and "pl_list (playerPool s') = pl_list (playerPool s)"
    and "sector s' c = (if c = (sectorX (player s p), sectorY (player s p)) \<and> IsValidSector (fst c) (snd c)
           then set_erase p (sector s c) else sector s c)"
    and "accounts s' = (if isLogined (player s p) \<and> accountNo (player s p) \<noteq> 0 \<and>
             map_of (accounts s) (accountNo (player s p)) = Some sid
           then map_erase (accountNo (player s p)) (accounts s) else accounts s)"
    and "IOCPServer.truncate s' = IOCPServer.truncate s" and "redisQ s' = redisQ s" and "redis s' = redis s"
proof -
  have ref: "p_ref (player s p) \<noteq> 0" using pok p by (auto simp: map_of_players players_ok_def)
  note defs = LeaveProc_def p Let_def ReleasePlayer_def AddRefPlayer_def
  show "players s' = map_erase sid (players s)"
    "player s' q = (if q = p then (player s p)\<lparr>closing := True\<rparr> else player s q)"
    "pl_list (playerPool s') = pl_list (playerPool s)"
    using ref by (simp_all add: s' defs)
  show "sector s' c = (if c = (sectorX (player s p), sectorY (player s p)) \<and> IsValidSector (fst c) (snd c)
           then set_erase p (sector s c) else sector s c)"
    using ref by (auto simp: s' defs)
  show "accounts s' = (if isLogined (player s p) \<and> accountNo (player s p) \<noteq> 0 \<and>
             map_of (accounts s) (accountNo (player s p)) = Some sid
           then map_erase (accountNo (player s p)) (accounts s) else accounts s)"
    using ref by (simp add: s' defs)
  show "IOCPServer.truncate s' = IOCPServer.truncate s" "redisQ s' = redisQ s" "redis s' = redis s"
    using ref by (simp_all add: s' defs set_player_def IOCPServer.truncate_def)
qed

lemma LeaveProc_inv:
  assumes "chat_inv W H s"
  shows "chat_inv W H (LeaveProc sid s)"
proof (cases "map_of (players s) sid")
  case None
  then show ?thesis using assms by (simp add: LeaveProc_absent)
next
  case (Some p)
  have pok: "players_ok H s" and sok: "sectors_ok s" using assms by (auto simp: chat_inv_def)
  note r = LeaveProc_result [OF pok Some refl]
  have mem: "(k, q) \<in> set (map_erase sid (players s)) \<longleftrightarrow> (k, q) \<in> set (players s) \<and> q \<noteq> p" for k q
  proof -
    have sid: "p_sessionID (player s q) = k" if "(k, q) \<in> set (players s)" for k q
      using pok that by (auto simp: players_ok_def)
    have "(k, q) \<in> set (players s) \<Longrightarrow> k = sid \<longleftrightarrow> q = p"
      using sid Some map_of_players [OF pok] by (metis option.inject)
    then show ?thesis by (auto simp: map_erase_set)
  qed
  have dist: "distinct (map fst (map_erase sid (players s)))" "distinct (map snd (map_erase sid (players s)))"
    using pok by (auto simp: players_ok_def map_erase_def intro: distinct_map_filter)
  have "now (LeaveProc sid s) = now s" using arg_cong [OF r(6), of now] by (simp add: IOCPServer.truncate_def)
  then have "pool_fresh W (LeaveProc sid s)"
    using assms by (simp add: chat_inv_def pool_fresh_def pool_ok_def r)
  moreover have "players_ok H (LeaveProc sid s)"
    using pok dist mem by (auto simp: players_ok_def r)
  moreover have "sectors_ok (LeaveProc sid s)"
    unfolding sectors_ok_def
  proof (intro conjI allI)
    fix q c
    show "distinct (sector (LeaveProc sid s) c)"
      using sok by (simp add: sectors_okD r set_erase_def distinct_removeAll)
    have "q \<in> snd ` set (map_erase sid (players s)) \<longleftrightarrow> q \<in> snd ` set (players s) \<and> q \<noteq> p"
      using mem by (force simp: image_iff)
    then show "q \<in> set (sector (LeaveProc sid s) c) \<longleftrightarrow> q \<in> snd ` set (players (LeaveProc sid s)) \<and>
        c = (sectorX (player (LeaveProc sid s) q), sectorY (player (LeaveProc sid s) q)) \<and> IsValidSector (fst c) (snd c)"
      using sok by (auto simp: sectors_okD r set_erase_def)
  qed
  ultimately show ?thesis by (simp add: chat_inv_def)
qed

section \<open>References\<close>

lemma AddRefPlayer_inv:
  assumes inv: "chat_inv W H s" and p: "(sid, p) \<in> set (players s)"
  shows "chat_inv W (H(p := H p + 1)) (AddRefPlayer p s)"
proof -
  have pok: "players_ok H s" and sok: "sectors_ok s" using inv by (auto simp: chat_inv_def)
  have pl: "player (AddRefPlayer p s) q = (if q = p then (player s p)\<lparr>p_ref := p_ref (player s p) + 1\<rparr> else player s q)"
    and same: "players (AddRefPlayer p s) = players s" "sector (AddRefPlayer p s) = sector s"
      "pl_list (playerPool (AddRefPlayer p s)) = pl_list (playerPool s)" "now (AddRefPlayer p s) = now s" for q
    by (simp_all add: AddRefPlayer_def)
  have "players_ok (H(p := H p + 1)) (AddRefPlayer p s)"
    using pok p by (auto simp: players_ok_def pl same)
  moreover have "sectors_ok (AddRefPlayer p s)"
    using sok unfolding sectors_ok_def pl same by (simp del: split_paired_All cong: if_cong)
  ultimately show ?thesis using inv by (simp add: chat_inv_def pool_fresh_def pool_ok_def same)
qed

lemma AcquirePlayer_inv:
  assumes inv: "chat_inv W H s" and r: "AcquirePlayer sid s = (r, s1)"
  shows "case r of None \<Rightarrow> s1 = s \<and> map_of (players s) sid = None
    | Some p \<Rightarrow> (sid, p) \<in> set (players s) \<and> s1 = AddRefPlayer p s \<and> chat_inv W (H(p := H p + 1)) s1"
proof (cases "map_of (players s) sid")
  case None
  with r show ?thesis by (auto simp: AcquirePlayer_def)
next
  case (Some p)
  then have p: "(sid, p) \<in> set (players s)" by (rule map_of_SomeD)
  with inv have "\<not> closing (player s p)" by (auto simp: chat_inv_def players_ok_def)
  then have "\<not> closing (player (AddRefPlayer p s) p)" by (simp add: AddRefPlayer_def)
  with Some r have "r = Some p" "s1 = AddRefPlayer p s" by (simp_all add: AcquirePlayer_def Let_def)
  with p AddRefPlayer_inv [OF inv p] show ?thesis by simp
qed

lemma ReleasePlayer_inv:
  assumes inv: "chat_inv W H s" and h: "0 < H p"
  shows "chat_inv W (H(p := H p - 1)) (ReleasePlayer p s)"
proof -
  define t where "t = set_player p (\<lambda>x. x\<lparr>p_ref := p_ref x - 1\<rparr>) s"
  have pok: "players_ok H s" and sok: "sectors_ok s" and fresh: "pool_fresh W s" using inv by (auto simp: chat_inv_def)
  have live: "p \<in> pool_live (playerPool t)" using pok h by (auto simp: players_ok_def t_def)
  have pool: "pool_ok (\<lambda>_. True) (playerPool t)" using fresh by (simp add: pool_fresh_def pool_ok_def t_def)
  define s1 where "s1 = ReleasePlayer p s"
  have s1: "s1 = (if p_ref (player t p) = 0 then t\<lparr>playerPool := pool_Free p (playerPool t)\<rparr> else t)"
    by (simp add: s1_def ReleasePlayer_def t_def Let_def)
  have pl: "player s1 q = (if q = p then (player s p)\<lparr>p_ref := p_ref (player s p) - 1\<rparr> else player s q)" for q
    by (simp add: s1) (simp add: t_def player_def set_player_def)
  have same: "players s1 = players s" "sector s1 = sector s" "now s1 = now s"
    by (simp_all add: s1 t_def)
  have free: "p \<notin> snd ` set (players s) \<and> H p = 1" if "p_ref (player t p) = 0"
  proof -
    have one: "p_ref (player s p) = 1" using that by (simp add: t_def)
    then have "int (H p) \<le> 1" using pok h unfolding players_ok_def by metis
    moreover have "1 + int (H p) \<le> 1" if "(k, p) \<in> set (players s)" for k
      using pok that one unfolding players_ok_def by force
    ultimately show ?thesis using h by force
  qed
  have lv: "pool_live (playerPool s1) = (if p_ref (player t p) = 0 then pool_live (playerPool s) - {p} else pool_live (playerPool s))"
    and bl: "blocks (pl_list (playerPool s1)) = blocks (pl_list (playerPool s))" and ok1: "pool_ok (\<lambda>_. True) (playerPool s1)"
    using pool_Free_ok [OF pool live] pool by (simp_all add: s1) (simp_all add: t_def)
  have "players_ok (H(p := H p - 1)) s1"
    unfolding players_ok_def same
  proof (intro conjI ballI allI impI)
    fix e assume e: "e \<in> set (players s)"
    obtain k q where kq: "e = (k, q)" by (cases e)
    have "q = p \<Longrightarrow> p_ref (player t p) \<noteq> 0" using free e kq by force
    with players_okD(1) [OF pok, of k q] e kq
    show "case e of (sid, q) \<Rightarrow> q \<noteq> 0 \<and> q \<in> pool_live (playerPool s1) \<and> p_sessionID (player s1 q) = sid \<and>
        \<not> closing (player s1 q) \<and> 1 + int ((H(p := H p - 1)) q) \<le> p_ref (player s1 q)"
      using h by (auto simp: pl lv)
  next
    fix q assume q: "0 < (H(p := H p - 1)) q"
    then have "0 < H q" "q = p \<Longrightarrow> 1 < H p" by (auto split: if_splits)
    with players_okD(2) [OF pok, of q] free h
    show "q \<in> pool_live (playerPool s1)" "int ((H(p := H p - 1)) q) \<le> p_ref (player s1 q)"
      by (auto simp: pl lv)
  qed (use players_okD(3,4) [OF pok] in auto)
  moreover have "sectors_ok s1"
    using sok unfolding sectors_ok_def pl same by (simp del: split_paired_All cong: if_cong)
  moreover have "pool_fresh W s1" using fresh ok1 bl by (simp add: pool_fresh_def same)
  ultimately show ?thesis by (simp add: chat_inv_def s1_def)
qed

text \<open>Changes of a player that the maps do not speak of.\<close>

lemma set_player_inv:
  assumes inv: "chat_inv W H s"
    and f: "\<And>x. p_ref (f x) = p_ref x" "\<And>x. closing (f x) = closing x" "\<And>x. p_sessionID (f x) = p_sessionID x"
      "\<And>x. sectorX (f x) = sectorX x" "\<And>x. sectorY (f x) = sectorY x"
  shows "chat_inv W H (set_player p f s)"
proof -
  have "players_ok H (set_player p f s)" using inv f by (auto simp: chat_inv_def players_ok_def)
  moreover have "sectors_ok (set_player p f s)"
    using inv f by (auto simp: chat_inv_def sectors_ok_def)
  ultimately show ?thesis using inv by (simp add: chat_inv_def pool_fresh_def pool_ok_def)
qed

text \<open>Changes of the other members.\<close>

lemma chat_more:
  fixes s s' :: "('q, 'r, 'd, 'a) chat"
  assumes "IOCPServer.more s' = IOCPServer.more s"
  shows "players s' = players s" "accounts s' = accounts s" "sector s' = sector s" "playerPool s' = playerPool s"
    "redisQ s' = redisQ s" "redis s' = redis s" "player s' p = player s p"
  using assms by (cases s; cases s'; simp add: player_def)+

lemma chat_inv_frame:
  fixes s s' :: "('q, 'r, 'd, 'a) chat"
  assumes "chat_inv W H s" and "players s' = players s" and "sector s' = sector s"
    and "playerPool s' = playerPool s" and "now s \<le> now s'"
  shows "chat_inv W H s'"
proof -
  have "player s' p = player s p" for p using assms(4) by (simp add: player_def)
  moreover have "os_malloc W ` {..<now s} \<subseteq> os_malloc W ` {..<now s'}" using assms(5) by auto
  ultimately show ?thesis
    using assms by (auto simp: chat_inv_def pool_fresh_def players_ok_def sectors_ok_def)
qed

text \<open>The operations on packets of theory Chat keep every invariant of a subclass.\<close>

context app_invariant
begin

lemma I_read_packet: "read_packet p f s = Inr (v, s') \<Longrightarrow> I s \<Longrightarrow> I s'"
  by (auto simp: read_packet_def andThen_eq_Inr)

lemma I_read_value: "read_value p old s = Inr (v, s') \<Longrightarrow> I s \<Longrightarrow> I s'"
  and I_get_data: "get_data p dst n s = Inr (v, s') \<Longrightarrow> I s \<Longrightarrow> I s'"
  by (auto simp: read_value_def get_data_def dest: I_read_packet)

lemma I_write_value: "write_value p v s = Inr s' \<Longrightarrow> I s \<Longrightarrow> I s'"
  and I_put_data: "put_data p src n s = Inr s' \<Longrightarrow> I s \<Longrightarrow> I s'"
  by (auto simp: write_value_def put_data_def dest: I_on_packet)

lemma I_alloc_packet: "alloc_packet W s = Inr (p, s') \<Longrightarrow> I s \<Longrightarrow> I s'"
  by (auto simp: alloc_packet_def andThen_eq_Inr)

lemma I_encode_packet: "encode_packet W p s = Inr s' \<Longrightarrow> I s \<Longrightarrow> I s'"
  by (auto simp: encode_packet_def andThen_eq_Inr dest!: I_on_packet)

lemma I_sub_ref [simp]: "I s \<Longrightarrow> I (sub_ref p s)"
  by (simp add: sub_ref_def)

lemmas I_packet_ops = I_read_value I_get_data I_write_value I_put_data I_alloc_packet I_encode_packet

lemma I_MakeLoginResult: "MakeLoginResult W a i n s = Inr (p, s') \<Longrightarrow> I s \<Longrightarrow> I s'"
  by (auto simp: MakeLoginResult_def andThen_eq_Inr dest!: I_packet_ops)

lemma I_Res_Login: "Res_Login W a st s = Inr (p, s') \<Longrightarrow> I s \<Longrightarrow> I s'"
  by (auto simp: Res_Login_def andThen_eq_Inr dest!: I_packet_ops)

lemma I_Res_SectorMove: "Res_SectorMove W a x y s = Inr (p, s') \<Longrightarrow> I s \<Longrightarrow> I s'"
  by (auto simp: Res_SectorMove_def andThen_eq_Inr dest!: I_packet_ops)

end

interpretation chat_app: app_invariant "chat_inv W H :: ('q, 'r, 'd, 'a) chat \<Rightarrow> bool" OnClientLeave for W H
proof
  fix s s' :: "('q, 'r, 'd, 'a) chat"
  show "chat_inv W H s'" if "chat_inv W H s" "IOCPServer.more s' = IOCPServer.more s" "now s \<le> now s'"
    using that chat_more [of s' s] by (intro chat_inv_frame [of W H s s'])
next
  fix s s' :: "('q, 'r, 'd, 'a) chat" and sid
  show "chat_inv W H s'" if "chat_inv W H s" "OnClientLeave sid s = Inr s'"
    using that LeaveProc_inv by (auto simp: OnClientLeave_def)
qed

section \<open>The handlers keep the invariant\<close>

lemmas chat_packet_ops = chat_app.I_packet_ops chat_app.I_SendPacket

lemma Res_Chat_inv:
  "Res_Chat W pl msg len s = Inr (p, s') \<Longrightarrow> chat_inv V H s \<Longrightarrow> chat_inv V H s'"
  by (auto simp: Res_Chat_def andThen_eq_Inr dest!: chat_packet_ops)

lemma send_all_inv:
  "send_all W Q p sids s = Inr s' \<Longrightarrow> chat_inv V H s \<Longrightarrow> chat_inv V H s'"
  by (induction sids arbitrary: s) (auto simp: andThen_eq_Inr dest!: chat_packet_ops)

lemma kick_all_inv:
  "kick_all Q sids s = Inr s' \<Longrightarrow> chat_inv V H s \<Longrightarrow> chat_inv V H s'"
  by (induction sids arbitrary: s) (auto simp: andThen_eq_Inr dest!: chat_app.I_Disconnect)

lemma Req_Chat_inv:
  "Req_Chat W Q U sid pl p s = Inr (ok, s') \<Longrightarrow> chat_inv V H s \<Longrightarrow> chat_inv V H s'"
  by (auto simp: Req_Chat_def andThen_eq_Inr Let_def dest!: chat_packet_ops Res_Chat_inv send_all_inv
      split: if_splits)

lemma Req_Login_inv:
  "Req_Login_Redis J sid pl p s = (ok, s') \<Longrightarrow> chat_inv V H s \<Longrightarrow> chat_inv V H s'"
  by (auto simp: Req_Login_Redis_def EnqueueRedis_def split: if_splits intro: chat_inv_frame)

text \<open>A move takes the player from its old sector to the new one.\<close>

lemma move_inv:
  fixes s :: "('q, 'r, 'd, 'a) chat"
  assumes inv: "chat_inv V H s" and pl: "(sid, pl) \<in> set (players s)" and v: "IsValidSector x y"
    and s': "s' = set_player pl (\<lambda>z. z\<lparr>sectorX := x, sectorY := y, p_lastRecvTime := t\<rparr>)
      (s\<lparr>sector := move_sector pl (sectorX (player s pl), sectorY (player s pl)) (x, y) (sector s)\<rparr>)"
  shows "chat_inv V H s'"
proof -
  have sok: "sectors_ok s" and pok: "players_ok H s" using inv by (auto simp: chat_inv_def)
  have p': "player s' q = (if q = pl then (player s pl)\<lparr>sectorX := x, sectorY := y, p_lastRecvTime := t\<rparr> else player s q)"
    and same: "players s' = players s" "pl_list (playerPool s') = pl_list (playerPool s)" "now s' = now s" for q
    by (simp_all add: s')
  have sec: "sector s' = move_sector pl (sectorX (player s pl), sectorY (player s pl)) (x, y) (sector s)"
    by (simp add: s')
  have mem: "q \<in> set (sector s' c) \<longleftrightarrow> (if q = pl then c = (x, y) else q \<in> set (sector s c))" for q c
    using sectors_okD(2) [OF sok, of q c] unfolding sec
    by (auto simp: move_sector_def Let_def set_insert_def set_erase_def)
  have "distinct (sector s' c)" for c
    using sectors_okD(1) [OF sok] unfolding sec
    by (auto simp: move_sector_def Let_def set_insert_def set_erase_def distinct_removeAll)
  moreover have "q \<in> set (sector s' c) \<longleftrightarrow> q \<in> snd ` set (players s') \<and>
      c = (sectorX (player s' q), sectorY (player s' q)) \<and> IsValidSector (fst c) (snd c)" for q c
  proof (cases "q = pl")
    case True
    have "pl \<in> snd ` set (players s)" using pl by force
    with True v show ?thesis unfolding mem by (auto simp: p' same)
  next
    case False
    then show ?thesis unfolding mem using sectors_okD(2) [OF sok, of q c] by (simp add: p' same)
  qed
  ultimately have "sectors_ok s'" unfolding sectors_ok_def by blast
  moreover have "players_ok H s'" using pok by (auto simp: players_ok_def p' same)
  ultimately show ?thesis using inv by (simp add: chat_inv_def pool_fresh_def pool_ok_def same)
qed

lemma read_packet_more: "read_packet p f s = Inr (v, s') \<Longrightarrow> IOCPServer.more s' = IOCPServer.more s \<and> now s' = now s"
  by (auto simp: read_packet_def andThen_eq_Inr)

lemma move_player_inv:
  assumes "move_player W Q sid pl account x y s = Inr (ok, s')" and "chat_inv V H s" and "(sid, pl) \<in> set (players s)"
  shows "chat_inv V H s'"
proof (cases "IsValidSector x y")
  case True
  define s2 where "s2 = tick (set_player pl (\<lambda>z. z\<lparr>sectorX := x, sectorY := y, p_lastRecvTime := os_tick W (now s)\<rparr>)
      (s\<lparr>sector := move_sector pl (sectorX (player s pl), sectorY (player s pl)) (x, y) (sector s)\<rparr>))"
  have "chat_inv V H s2" unfolding s2_def by (intro chat_app.I_tick move_inv [OF assms(2,3) True refl])
  moreover obtain res s3 s4 where "Res_SectorMove W account x y s2 = Inr (res, s3)"
    "SendPacket W Q OnClientLeave sid res s3 = Inr s4" "s' = sub_ref res s4"
    using assms(1) True by (auto simp: move_player_def Let_def andThen_eq_Inr s2_def)
  ultimately show ?thesis by (metis chat_app.I_Res_SectorMove chat_app.I_SendPacket chat_app.I_sub_ref)
qed (use assms in \<open>simp add: move_player_def\<close>)

lemma andThen_pair_eq:
  "andThen r (\<lambda>(a, b). k a b) = Inr y \<longleftrightarrow> (\<exists>a b. r = Inr (a, b) \<and> k a b = Inr y)"
  by (cases r) auto

lemma Req_SectorMove_inv:
  fixes s :: "('q, 'r, 'd, 'a) chat"
  assumes "Req_SectorMove W Q U sid pl p s = Inr (ok, s')" and inv: "chat_inv V H s"
    and pl: "(sid, pl) \<in> set (players s)"
  shows "chat_inv V H s'"
proof -
  from assms(1) obtain ab s1 xb s2 yb s3 where
    rd: "read_value p (INT64_bytes 0) s = Inr (ab, s1)" "read_value p (junk U 2) s1 = Inr (xb, s2)"
      "read_value p (junk (\<lambda>k. U (k + 2)) 2) s2 = Inr (yb, s3)"
    and rest: "move_player W Q sid pl (INT64_of ab) (WORD_of xb) (WORD_of yb) s3 = Inr (ok, s')"
    unfolding Req_SectorMove_def andThen_pair_eq by blast
  have inv3: "chat_inv V H s3" using rd inv chat_app.I_read_value by blast
  have "IOCPServer.more s3 = IOCPServer.more s" using rd by (auto simp: read_value_def dest!: read_packet_more)
  then have "(sid, pl) \<in> set (players s3)" using pl chat_more(1) [of s3 s] by simp
  with move_player_inv [OF rest inv3] show ?thesis .
qed

lemma RecvProc_inv:
  fixes s :: "('q, 'r, 'd, 'a) chat"
  assumes r: "RecvProc W Q J U sid p s = Inr (ok, s')" and inv: "chat_inv V H s"
  shows "chat_inv V H s'"
proof (cases "AcquirePlayer sid s")
  case (Pair who s1)
  note acq = AcquirePlayer_inv [OF inv Pair]
  show ?thesis
  proof (cases who)
    case None
    with r Pair acq inv show ?thesis by (simp add: RecvProc_def)
  next
    case (Some pl)
    let ?H = "H(pl := H pl + 1)"
    have mem: "(sid, pl) \<in> set (players s)" and s1: "s1 = AddRefPlayer pl s" and inv1: "chat_inv V ?H s1"
      using acq Some by auto
    define s2 where "s2 = tick (set_player pl (\<lambda>x. x\<lparr>p_lastRecvTime := os_tick W (now s1)\<rparr>) s1)"
    have inv2: "chat_inv V ?H s2" unfolding s2_def using inv1 by (intro chat_app.I_tick set_player_inv) auto
    have mem2: "(sid, pl) \<in> set (players s2)" using mem by (simp add: s2_def s1 AddRefPlayer_def)
    from r Pair Some obtain tb s3 s4 where
      rd: "read_value p (WORD_bytes 0) s2 = Inr (tb, s3)"
      and h: "Req_Login_Redis J sid pl p s3 = (ok, s4) \<or> Req_SectorMove W Q U sid pl p s3 = Inr (ok, s4) \<or>
        Req_Chat W Q U sid pl p s3 = Inr (ok, s4) \<or> s4 = s3"
      and s': "s' = ReleasePlayer pl s4"
      by (auto simp: RecvProc_def s2_def [symmetric] andThen_eq_Inr Let_def split: if_splits)
    have inv3: "chat_inv V ?H s3" using chat_app.I_read_value [OF rd inv2] .
    have "IOCPServer.more s3 = IOCPServer.more s2" using rd by (auto simp: read_value_def dest!: read_packet_more)
    then have mem3: "(sid, pl) \<in> set (players s3)" using mem2 chat_more(1) [of s3 s2] by simp
    have "chat_inv V ?H s4"
      using h
    proof (elim disjE)
      show "chat_inv V ?H s4" if "Req_Login_Redis J sid pl p s3 = (ok, s4)" using that inv3 by (rule Req_Login_inv)
      show "chat_inv V ?H s4" if "Req_SectorMove W Q U sid pl p s3 = Inr (ok, s4)"
        using that inv3 mem3 by (rule Req_SectorMove_inv)
      show "chat_inv V ?H s4" if "Req_Chat W Q U sid pl p s3 = Inr (ok, s4)" using that inv3 by (rule Req_Chat_inv)
    qed (use inv3 in simp)
    from ReleasePlayer_inv [OF this, of pl] show ?thesis by (simp add: s' fun_upd_triv)
  qed
qed

lemma OnRecv_inv:
  "OnRecv W Q J U sid p s = Inr s' \<Longrightarrow> chat_inv V H s \<Longrightarrow> chat_inv V H s'"
  by (auto simp: OnRecv_def andThen_eq_Inr dest!: RecvProc_inv chat_app.I_Disconnect split: if_splits)

lemma CheckTimeOut_inv: "CheckTimeOut W Q s = Inr s' \<Longrightarrow> chat_inv V H s \<Longrightarrow> chat_inv V H s'"
  by (auto simp: CheckTimeOut_def Let_def dest!: kick_all_inv)

text \<open>What \<open>CompleteLogin\<close> runs through: it ends early, or once it has its player reads, marks and answers.\<close>

lemma CompleteLogin_early:
  assumes "CompleteLogin W Q U sid p success s = Inr (ok, s')" and "AcquirePlayer sid s = (who, s1)"
    and "who = None \<or> p_sessionID (player s1 (the who)) \<noteq> sid \<or> closing (player s1 (the who))"
  shows "s' = s1 \<or> s' = ReleasePlayer (the who) s1"
proof -
  from assms(3) consider "who = None" | pl where "who = Some pl" "p_sessionID (player s1 pl) \<noteq> sid"
    | pl where "who = Some pl" "p_sessionID (player s1 pl) = sid" "closing (player s1 pl)" by (cases who) auto
  then show ?thesis using assms(1,2) by cases (auto simp: CompleteLogin_def)
qed

definition login_marked :: "UINT64 \<Rightarrow> nat \<Rightarrow> UINT64 \<Rightarrow> ('q, 'r, 'd, 'a) chat \<Rightarrow> ('q, 'r, 'd, 'a) chat" where
  "login_marked sid pl account s =
     set_player pl (\<lambda>x. x\<lparr>isLogined := True, accountNo := account\<rparr>) (s\<lparr>accounts := map_assign account sid (accounts s)\<rparr>)"

definition login_answer ::
  "os \<Rightarrow> (nat, 'q) queue_ops \<Rightarrow> UINT64 \<Rightarrow> UINT64 \<Rightarrow> byte \<Rightarrow> ('q, 'r, 'd, 'a) chat \<Rightarrow> ('q, 'r, 'd, 'a) chat res" where
  "login_answer W Q sid account st s =
     andThen (Res_Login W account st s) (\<lambda>(res, s6). andThen (SendUnicast W Q sid res s6) (\<lambda>s7. Inr (sub_ref res s7)))"

lemma CompleteLogin_steps:
  fixes s :: "('q, 'r, 'd, 'a) chat"
  assumes r: "CompleteLogin W Q U sid p success s = Inr (ok, s')" and pl: "AcquirePlayer sid s = (Some pl, s1)"
    "p_sessionID (player s1 pl) = sid" "\<not> closing (player s1 pl)"
  obtains ab s2 wid s3 nk s4 i n st s5 res s6 s7 where
    "read_value p (INT64_bytes 0) s1 = Inr (ab, s2)" and "get_data p (junk U 40) dfID_LEN s2 = Inr (wid, s3)"
    and "get_data p (junk (\<lambda>k. U (k + 40)) 40) dfNiCK_LEN s3 = Inr (nk, s4)"
    and "s5 = s4 \<or> s5 = set_player pl (\<lambda>x. x\<lparr>p_id := i, nick := n\<rparr>) (login_marked sid pl (INT64_of ab) s4) \<and>
      wcscpy_s20 (p_id (player (login_marked sid pl (INT64_of ab) s4) pl)) wid = Inr i \<and>
      wcscpy_s20 (nick (player (login_marked sid pl (INT64_of ab) s4) pl)) nk = Inr n"
    and "Res_Login W (INT64_of ab) st s5 = Inr (res, s6)" and "SendUnicast W Q sid res s6 = Inr s7"
    and "s' = ReleasePlayer pl (sub_ref res s7)"
proof -
  note go = that
  let ?body = "\<lambda>ab wid nk s4. if success
       then andThen (wcscpy_s20 (p_id (player (login_marked sid pl (INT64_of ab) s4) pl)) wid) (\<lambda>i.
            andThen (wcscpy_s20 (nick (player (login_marked sid pl (INT64_of ab) s4) pl)) nk) (\<lambda>n.
              login_answer W Q sid (INT64_of ab) 1
                (set_player pl (\<lambda>x. x\<lparr>p_id := i, nick := n\<rparr>) (login_marked sid pl (INT64_of ab) s4))))
       else login_answer W Q sid (INT64_of ab) 0 s4"
  have eq: "CompleteLogin W Q U sid p success s =
      andThen (read_value p (INT64_bytes 0) s1) (\<lambda>(ab, s2).
      andThen (get_data p (junk U 40) dfID_LEN s2) (\<lambda>(wid, s3).
      andThen (get_data p (junk (\<lambda>k. U (k + 40)) 40) dfNiCK_LEN s3) (\<lambda>(nk, s4).
      andThen (?body ab wid nk s4) (\<lambda>s8. Inr (True, ReleasePlayer pl s8)))))"
    using pl by (simp only: CompleteLogin_def login_answer_def login_marked_def Let_def) simp
  from r [unfolded eq] obtain ab s2 wid s3 nk s4 s8 where rd: "read_value p (INT64_bytes 0) s1 = Inr (ab, s2)"
    "get_data p (junk U 40) dfID_LEN s2 = Inr (wid, s3)" "get_data p (junk (\<lambda>k. U (k + 40)) 40) dfNiCK_LEN s3 = Inr (nk, s4)"
    and body: "?body ab wid nk s4 = Inr s8" and s': "s' = ReleasePlayer pl s8"
    unfolding andThen_pair_eq unfolding andThen_eq_Inr sum.inject prod.inject by blast
  have ans: thesis if a: "login_answer W Q sid (INT64_of ab) st s5 = Inr s8"
    and m: "s5 = s4 \<or> s5 = set_player pl (\<lambda>x. x\<lparr>p_id := i, nick := n\<rparr>) (login_marked sid pl (INT64_of ab) s4) \<and>
      wcscpy_s20 (p_id (player (login_marked sid pl (INT64_of ab) s4) pl)) wid = Inr i \<and>
      wcscpy_s20 (nick (player (login_marked sid pl (INT64_of ab) s4) pl)) nk = Inr n" for st s5 i n
  proof -
    from a obtain res s6 s7 where "Res_Login W (INT64_of ab) st s5 = Inr (res, s6)" "SendUnicast W Q sid res s6 = Inr s7"
      "s8 = sub_ref res s7"
      unfolding login_answer_def andThen_pair_eq unfolding andThen_eq_Inr sum.inject by blast
    then show thesis using s' by (intro go [OF rd m]) simp_all
  qed
  show thesis
  proof (cases success)
    case True
    with body obtain i n where "wcscpy_s20 (p_id (player (login_marked sid pl (INT64_of ab) s4) pl)) wid = Inr i"
      "wcscpy_s20 (nick (player (login_marked sid pl (INT64_of ab) s4) pl)) nk = Inr n"
      and a: "login_answer W Q sid (INT64_of ab) 1
        (set_player pl (\<lambda>x. x\<lparr>p_id := i, nick := n\<rparr>) (login_marked sid pl (INT64_of ab) s4)) = Inr s8"
      by (simp only: if_True andThen_eq_Inr) blast
    then show ?thesis using ans [OF a, of n i] by simp
  next
    case False
    with body have a: "login_answer W Q sid (INT64_of ab) 0 s4 = Inr s8" by simp
    then show ?thesis using ans [OF a] by simp
  qed
qed

lemma CompleteLogin_inv:
  fixes s :: "('q, 'r, 'd, 'a) chat"
  assumes r: "CompleteLogin W Q U sid p success s = Inr (ok, s')" and inv: "chat_inv V H s"
  shows "chat_inv V H s'"
proof (cases "AcquirePlayer sid s")
  case (Pair who s1)
  note acq = AcquirePlayer_inv [OF inv Pair]
  show ?thesis
  proof (cases who)
    case None
    with r Pair acq inv show ?thesis by (simp add: CompleteLogin_def)
  next
    case (Some pl)
    let ?H = "H(pl := H pl + 1)"
    have inv1: "chat_inv V ?H s1" and mem: "(sid, pl) \<in> set (players s)" and s1: "s1 = AddRefPlayer pl s"
      using acq Some by auto
    have "p_sessionID (player s pl) = sid" "\<not> closing (player s pl)"
      using inv mem players_okD(1) by (auto simp: chat_inv_def)
    then have pl: "p_sessionID (player s1 pl) = sid" "\<not> closing (player s1 pl)" by (simp_all add: s1 AddRefPlayer_def)
    have acquired: "AcquirePlayer sid s = (Some pl, s1)" using Pair Some by simp
    obtain ab s2 wid s3 nk s4 i n st s5 res s6 s7 where
      rd: "read_value p (INT64_bytes 0) s1 = Inr (ab, s2)" "get_data p (junk U 40) dfID_LEN s2 = Inr (wid, s3)"
        "get_data p (junk (\<lambda>k. U (k + 40)) 40) dfNiCK_LEN s3 = Inr (nk, s4)"
      and s5: "s5 = s4 \<or> s5 = set_player pl (\<lambda>x. x\<lparr>p_id := i, nick := n\<rparr>) (login_marked sid pl (INT64_of ab) s4) \<and>
        wcscpy_s20 (p_id (player (login_marked sid pl (INT64_of ab) s4) pl)) wid = Inr i \<and>
        wcscpy_s20 (nick (player (login_marked sid pl (INT64_of ab) s4) pl)) nk = Inr n"
      and rest: "Res_Login W (INT64_of ab) st s5 = Inr (res, s6)" "SendUnicast W Q sid res s6 = Inr s7"
      and s': "s' = ReleasePlayer pl (sub_ref res s7)"
      by (rule CompleteLogin_steps [OF r acquired pl])
    have inv4: "chat_inv V ?H s4" using rd inv1 chat_app.I_read_value chat_app.I_get_data by metis
    have "chat_inv V ?H (s4\<lparr>accounts := a\<rparr>)" for a by (rule chat_inv_frame [OF inv4]) simp_all
    then have "chat_inv V ?H (login_marked sid pl (INT64_of ab) s4)" unfolding login_marked_def by (rule set_player_inv) simp_all
    then have "chat_inv V ?H (set_player pl (\<lambda>x. x\<lparr>p_id := i, nick := n\<rparr>) (login_marked sid pl (INT64_of ab) s4))"
      by (rule set_player_inv) simp_all
    with s5 inv4 have "chat_inv V ?H s5" by blast
    then have "chat_inv V ?H (sub_ref res s7)"
      using rest chat_app.I_Res_Login chat_app.I_SendPacket chat_app.I_sub_ref unfolding SendUnicast_def by metis
    from ReleasePlayer_inv [OF this, of pl] show ?thesis by (simp add: s' fun_upd_triv)
  qed
qed

lemma redis_job_inv:
  fixes s :: "('q, 'r, 'd, 'a) chat"
  assumes "redis_job W Q R U job s = Inr s'" and inv: "chat_inv V H s"
  shows "chat_inv V H s'"
proof -
  obtain sid p where job: "job = (sid, p)" by (cases job)
  from assms(1) obtain ab s1 wid s2 nk s3 ck s4 db ok res s6 b s7 where
    rd: "read_value p (INT64_bytes 0) s = Inr (ab, s1)" "get_data p (replicate 40 0) dfID_LEN s1 = Inr (wid, s2)"
      "get_data p (replicate 40 0) dfNiCK_LEN s2 = Inr (nk, s3)" "get_data p (replicate 64 0) dfSESSIONKEY_LEN s3 = Inr (ck, s4)"
    and rest: "MakeLoginResult W (INT64_of ab) wid nk (s4\<lparr>redis := db\<rparr>) = Inr (res, s6)"
      "CompleteLogin W Q U sid res ok s6 = Inr (b, s7)" and s': "s' = sub_ref p (sub_ref res s7)"
    by (auto simp: redis_job_def job andThen_eq_Inr Let_def)
  have "chat_inv V H s4" using rd inv chat_app.I_read_value chat_app.I_get_data by metis
  then have "chat_inv V H (s4\<lparr>redis := db\<rparr>)" by (rule chat_inv_frame) (simp_all add: player_def)
  then have "chat_inv V H s7" using rest chat_app.I_MakeLoginResult CompleteLogin_inv by metis
  then show ?thesis by (simp add: s')
qed

interpretation chat_threads: app_server "\<lambda>s :: ('q, 'r, 'd, 'a) chat. malloc_laws W \<and> chat_inv W H s" OnClientLeave
    "OnRecv W Q J U" "OnClientJoin W" for W H Q J U
proof
  fix s s' :: "('q, 'r, 'd, 'a) chat"
  show "malloc_laws W \<and> chat_inv W H s'"
    if "malloc_laws W \<and> chat_inv W H s" "IOCPServer.more s' = IOCPServer.more s" "now s \<le> now s'"
    using that chat_app.frame [of W H s s'] by blast
next
  fix s s' :: "('q, 'r, 'd, 'a) chat" and sid
  show "malloc_laws W \<and> chat_inv W H s'" if "malloc_laws W \<and> chat_inv W H s" "OnClientLeave sid s = Inr s'"
    using that chat_app.leave_keeps by blast
next
  fix s s' :: "('q, 'r, 'd, 'a) chat" and sid p
  show "malloc_laws W \<and> chat_inv W H s'" if "malloc_laws W \<and> chat_inv W H s" "OnRecv W Q J U sid p s = Inr s'"
    using that OnRecv_inv by blast
next
  fix s s' :: "('q, 'r, 'd, 'a) chat" and sid
  show "malloc_laws W \<and> chat_inv W H s'" if "malloc_laws W \<and> chat_inv W H s" "OnClientJoin W sid s = Inr s'"
    using that JoinProc_inv [of W H s sid] by (auto simp: OnClientJoin_def andThen_eq_Inr)
qed

end
