(* ===== verification/Server.thy ===== *)
theory Server
  imports Players
begin

text \<open>
  The chat server as a whole: its threads as a step relation, and what holds in every state it can
  reach. A step is a handler run to its end by one of the threads: the accept thread, a worker
  (the completion port only names sessions of the array), the Redis thread, the heartbeat thread
  or the monitor.
\<close>

section \<open>Reachable states\<close>

inductive server_step ::
  "os \<Rightarrow> (nat, 'q) queue_ops \<Rightarrow> (st_Redis, 'r) queue_ops \<Rightarrow> 'd redis_ops \<Rightarrow>
   ('q, 'r, 'd, 'a) chat \<Rightarrow> ('q, 'r, 'd, 'a) chat \<Rightarrow> bool"
  for W Q J R where
  accepted: "accept_step W Q OnClientLeave (OnClientJoin W) OnConnectionRequest k s = Inr s' \<Longrightarrow> server_step W Q J R s s'"
| completed: "i < length (sessionArray s) \<Longrightarrow> worker_step W Q OnClientLeave (OnRecv W Q J U) i c s = Inr s' \<Longrightarrow>
    server_step W Q J R s s'"
| login: "q_pop J (redisQ s) = Some (job, q) \<Longrightarrow> redis_job W Q R U job (s\<lparr>redisQ := q\<rparr>) = Inr s' \<Longrightarrow>
    server_step W Q J R s s'"
| heartbeat: "CheckTimeOut W Q s = Inr s' \<Longrightarrow> server_step W Q J R s s'"
| monitor: "server_step W Q J R s (monitor_step s)"

text \<open>The server as \<open>Start\<close> leaves it, whatever was in memory before.\<close>

definition server_start ::
  "(nat, 'q) queue_ops \<Rightarrow> (st_Redis, 'r) queue_ops \<Rightarrow> 'd \<Rightarrow> nat \<Rightarrow> ('q, 'r, 'd, 'a) chat \<Rightarrow> ('q, 'r, 'd, 'a) chat" where
  "server_start Q J db maxUserCount s0 =
     snd (Start Q [] maxUserCount (chat_new J db (s0\<lparr>packets := pool_new pkt_new, indexStack := []\<rparr>)))"

definition server_reachable ::
  "os \<Rightarrow> (nat, 'q) queue_ops \<Rightarrow> (st_Redis, 'r) queue_ops \<Rightarrow> 'd redis_ops \<Rightarrow> 'd \<Rightarrow> nat \<Rightarrow> ('q, 'r, 'd, 'a) chat \<Rightarrow>
   ('q, 'r, 'd, 'a) chat \<Rightarrow> bool" where
  "server_reachable W Q J R db maxUserCount s0 s \<longleftrightarrow> (server_step W Q J R)\<^sup>*\<^sup>* (server_start Q J db maxUserCount s0) s"

lemma start_more:
  "IOCPServer.more (server_start Q J db n s0) = IOCPServer.more (chat_new J db s0)" "now (server_start Q J db n s0) = now s0"
proof -
  have f: "IOCPServer.more (fold (\<lambda>i s. s\<lparr>indexStack := int i # indexStack s\<rparr>) is s) = IOCPServer.more s"
    "now (fold (\<lambda>i s. s\<lparr>indexStack := int i # indexStack s\<rparr>) is s) = now s" for "is" s
    by (induction "is" arbitrary: s) simp_all
  show "IOCPServer.more (server_start Q J db n s0) = IOCPServer.more (chat_new J db s0)" "now (server_start Q J db n s0) = now s0"
    by (simp_all add: server_start_def Start_def f, cases s0, simp_all add: chat_new_def)
qed

lemma chat_inv_new: "chat_inv W (\<lambda>_. 0) (chat_new J db s0)"
  using pool_ok_new [of "\<lambda>_. True" Player_new]
  by (simp add: chat_inv_def pool_fresh_def players_ok_def sectors_ok_def chat_new_def) (simp add: pool_new_def fl_new_def)

lemma chat_inv_start: "chat_inv W (\<lambda>_. 0) (server_start Q J db n s0)"
  using chat_app.frame [OF chat_inv_new, of "server_start Q J db n s0" J db s0 W]
  by (simp add: start_more) (simp add: chat_new_def)

lemma server_step_inv:
  assumes "server_step W Q J R s s'" and "malloc_laws W" and "chat_inv W H s"
  shows "chat_inv W H s'"
  using assms
proof (induction rule: server_step.induct)
  case (accepted k s s')
  then show ?case using chat_threads.I_accept_step by blast
next
  case (completed i s U c s')
  then show ?case using chat_threads.I_worker_step by blast
next
  case (login s job q U s')
  have "chat_inv W H (s\<lparr>redisQ := q\<rparr>)" using login.prems(2) by (rule chat_inv_frame) simp_all
  with login.hyps(2) show ?case by (rule redis_job_inv)
next
  case (heartbeat s s')
  then show ?case using CheckTimeOut_inv by blast
next
  case (monitor s)
  then show ?case using chat_threads.I_monitor_step by blast
qed

lemma reachable_chat_inv:
  assumes "server_reachable W Q J R db n s0 s" and "malloc_laws W"
  shows "chat_inv W (\<lambda>_. 0) s"
  using assms(1) unfolding server_reachable_def
proof (induction rule: rtranclp_induct)
  case base
  show ?case by (rule chat_inv_start)
next
  case (step s s')
  then show ?case using server_step_inv assms(2) by blast
qed

text \<open>
  C1. In every state the server reaches, whatever the clients send and however the network
  behaves: the map of players is one-to-one, no id twice and no player twice; every player in it is
  taken from the pool, carries the id it is filed under, is not closing and is referenced; and a
  player is in the set of a sector exactly when it is in the map and stands in that sector of
  the map, so that nobody is in two sectors and nobody who left is in any. Of the slots of the
  network server this says nothing: after a slot has been released twice a player may be filed under an
  id that no slot carries any more.
\<close>

theorem reachable_membership:
  assumes "server_reachable W Q J R db n s0 s" and "malloc_laws W"
  shows "distinct (map fst (players s)) \<and> distinct (map snd (players s)) \<and>
    (\<forall>(sid, p)\<in>set (players s). p \<in> pool_live (playerPool s) \<and> p_sessionID (player s p) = sid \<and>
       \<not> closing (player s p) \<and> 1 \<le> p_ref (player s p)) \<and>
    (\<forall>p x y. p \<in> set (sector s (x, y)) \<longleftrightarrow>
       p \<in> snd ` set (players s) \<and> sectorX (player s p) = x \<and> sectorY (player s p) = y \<and> IsValidSector x y)"
proof -
  have pok: "players_ok (\<lambda>_. 0) s" and sok: "sectors_ok s"
    using reachable_chat_inv [OF assms] by (auto simp: chat_inv_def)
  have "\<forall>(sid, p)\<in>set (players s). p \<in> pool_live (playerPool s) \<and> p_sessionID (player s p) = sid \<and>
       \<not> closing (player s p) \<and> 1 \<le> p_ref (player s p)"
    using players_okD(1) [OF pok] by auto
  moreover have "\<forall>p x y. p \<in> set (sector s (x, y)) \<longleftrightarrow>
       p \<in> snd ` set (players s) \<and> sectorX (player s p) = x \<and> sectorY (player s p) = y \<and> IsValidSector x y"
    using sectors_okD(2) [OF sok] by auto
  ultimately show ?thesis using players_okD(3,4) [OF pok] by blast
qed

section \<open>Who receives a message\<close>

lemma distinct_concat_map:
  assumes "distinct cs" and "\<And>c. distinct (f c)" and "\<And>c d. c \<noteq> d \<Longrightarrow> set (f c) \<inter> set (f d) = {}"
  shows "distinct (concat (map f cs))"
  using assms(1)
proof (induction cs)
  case (Cons c cs)
  have "set (f c) \<inter> set (f d) = {}" if "d \<in> set cs" for d
    using Cons.prems that by (intro assms(3)) auto
  with Cons assms(2) show ?case by auto
qed simp

lemma targets_eq:
  "chat_targets cx cy s =
     map (\<lambda>t. p_sessionID (player s t))
       (filter (\<lambda>t. t \<noteq> 0 \<and> isLogined (player s t)) (concat (map (sector s) (around_sectors cx cy))))"
  by (simp add: chat_targets_def map_concat filter_concat comp_def)

text \<open>
  C8. A chat message goes to exactly the logged-in players at most one sector away from the
  sender in each direction, and to each of them once.
\<close>

theorem chat_targets_exact:
  assumes "server_reachable W Q J R db n s0 s" and "malloc_laws W" and "IsValidSector cx cy"
  shows "distinct (chat_targets cx cy s) \<and>
    set (chat_targets cx cy s) =
      {sid. \<exists>p. (sid, p) \<in> set (players s) \<and> isLogined (player s p) \<and>
         IsValidSector (sectorX (player s p)) (sectorY (player s p)) \<and>
         \<bar>uint (sectorX (player s p)) - uint cx\<bar> \<le> 1 \<and> \<bar>uint (sectorY (player s p)) - uint cy\<bar> \<le> 1}"
proof -
  have pok: "players_ok (\<lambda>_. 0) s" and sok: "sectors_ok s"
    using reachable_chat_inv [OF assms(1,2)] by (auto simp: chat_inv_def)
  define ps where "ps = filter (\<lambda>t. t \<noteq> 0 \<and> isLogined (player s t)) (concat (map (sector s) (around_sectors cx cy)))"
  have "set (sector s c) \<inter> set (sector s d) = {}" if "c \<noteq> d" for c d
    unfolding disjoint_iff using sectors_okD(2) [OF sok] that by metis
  then have dist: "distinct ps"
    unfolding ps_def by (intro distinct_filter distinct_concat_map distinct_around_sectors assms(3) sectors_okD(1) sok)
  have sid: "p_sessionID (player s p) = k \<longleftrightarrow> (k, p) \<in> set (players s)" if "p \<in> snd ` set (players s)" for k p
    using that players_okD(1) [OF pok] by auto
  have in_players: "p \<in> set ps \<Longrightarrow> p \<in> snd ` set (players s)" for p
    using sectors_okD(2) [OF sok] by (auto simp: ps_def)
  have "inj_on (\<lambda>t. p_sessionID (player s t)) (set ps)"
  proof (rule inj_onI)
    fix p q assume "p \<in> set ps" "q \<in> set ps" "p_sessionID (player s p) = p_sessionID (player s q)"
    then have "(p_sessionID (player s q), p) \<in> set (players s)" "(p_sessionID (player s q), q) \<in> set (players s)"
      using in_players sid by metis+
    then show "p = q" using map_of_players [OF pok] by (metis option.inject)
  qed
  then have 1: "distinct (chat_targets cx cy s)"
    unfolding targets_eq ps_def [symmetric] distinct_map using dist by simp
  have mem: "p \<in> set ps \<longleftrightarrow> p \<in> snd ` set (players s) \<and> isLogined (player s p) \<and>
      IsValidSector (sectorX (player s p)) (sectorY (player s p)) \<and>
      \<bar>uint (sectorX (player s p)) - uint cx\<bar> \<le> 1 \<and> \<bar>uint (sectorY (player s p)) - uint cy\<bar> \<le> 1" for p
    using players_okD(1) [OF pok] unfolding ps_def
    by (auto simp: sectors_okD(2) [OF sok] set_around_sectors [OF assms(3)])
  have "set (chat_targets cx cy s) = (\<lambda>t. p_sessionID (player s t)) ` set ps"
    by (simp add: targets_eq ps_def)
  also have "\<dots> = {sid. \<exists>p. (sid, p) \<in> set (players s) \<and> isLogined (player s p) \<and>
         IsValidSector (sectorX (player s p)) (sectorY (player s p)) \<and>
         \<bar>uint (sectorX (player s p)) - uint cx\<bar> \<le> 1 \<and> \<bar>uint (sectorY (player s p)) - uint cy\<bar> \<le> 1}"
  proof -
    have a: "k \<in> (\<lambda>t. p_sessionID (player s t)) ` set ps \<longleftrightarrow> (\<exists>p. (k, p) \<in> set (players s) \<and> p \<in> set ps)" for k
    proof -
      have e: "p_sessionID (player s p) = k \<longleftrightarrow> (k, p) \<in> set (players s)" if "p \<in> set ps" for p
        by (rule sid [OF in_players [OF that]])
      have "k \<in> (\<lambda>t. p_sessionID (player s t)) ` set ps \<longleftrightarrow> (\<exists>p. p \<in> set ps \<and> p_sessionID (player s p) = k)" by auto
      also have "\<dots> \<longleftrightarrow> (\<exists>p. (k, p) \<in> set (players s) \<and> p \<in> set ps)" by (rule ex_cong1) (use e in blast)
      finally show ?thesis .
    qed
    have b: "(k, p) \<in> set (players s) \<Longrightarrow> p \<in> snd ` set (players s)" for k p by force
    show ?thesis by (intro set_eqI) (unfold a mem mem_Collect_eq, intro ex_cong1, use b in blast)
  qed
  finally show ?thesis using 1 by blast
qed

section \<open>Leaving keeps a reference\<close>

text \<open>
  C24. A player is never returned to the pool by leaving: \<open>LeaveProc\<close> raises the reference count by
  one and \<open>ReleasePlayer\<close> lowers it by one, so the reference that \<open>JoinProc\<close> gave the map stays
  behind when the map entry is erased. In every reachable state the pool has the same objects
  in use after a session leaves as before, while the session is gone from the map.
\<close>

theorem leave_leaks_player:
  assumes "server_reachable W Q J R db n s0 s" and "malloc_laws W" and "map_of (players s) sid = Some p"
  shows "OnClientLeave sid s = Inr (LeaveProc sid s) \<and>
    map_of (players (LeaveProc sid s)) sid = None \<and>
    pool_live (playerPool (LeaveProc sid s)) = pool_live (playerPool s) \<and> p \<in> pool_live (playerPool s) \<and>
    p_ref (player (LeaveProc sid s) p) = p_ref (player s p) \<and> p \<notin> snd ` set (players (LeaveProc sid s)) \<and>
    (\<forall>c. p \<notin> set (sector (LeaveProc sid s) c))"
proof -
  have inv: "chat_inv W (\<lambda>_. 0) s" by (rule reachable_chat_inv [OF assms(1,2)])
  then have pok: "players_ok (\<lambda>_. 0) s" by (simp add: chat_inv_def)
  note r = LeaveProc_result [OF pok assms(3) refl]
  have p: "(sid, p) \<in> set (players s)" using assms(3) by (rule map_of_SomeD)
  have gone: "p \<notin> snd ` set (map_erase sid (players s))"
  proof
    assume "p \<in> snd ` set (map_erase sid (players s))"
    then obtain k where "(k, p) \<in> set (players s)" "k \<noteq> sid" by (auto simp: map_erase_set)
    with players_okD(1) [OF pok] p show False by metis
  qed
  have "map_of (map_erase sid (players s)) sid = None" by (auto simp: map_of_eq_None_iff map_erase_set)
  moreover have "sectors_ok (LeaveProc sid s)" using LeaveProc_inv [OF inv] by (simp add: chat_inv_def)
  ultimately show ?thesis
    using gone players_okD(1) [OF pok p] sectors_okD(2) [of "LeaveProc sid s" p]
    by (auto simp: OnClientLeave_def r)
qed

section \<open>Timeouts\<close>

text \<open>
  The unsigned subtraction is guarded: a session is collected when its last packet is more than 40000 milliseconds old.
\<close>

lemma timed_out_exact:
  assumes "players_ok H s"
  shows "sid \<in> set (timed_out t s) \<longleftrightarrow>
    (\<exists>p. (sid, p) \<in> set (players s) \<and> unat (p_lastRecvTime (player s p)) + 40000 < unat t)"
proof -
  have "t > l \<and> t - l > 40000 \<longleftrightarrow> unat l + 40000 < unat t" for l :: UINT64
  proof (cases "l < t")
    case True
    then have "unat (t - l) = unat t - unat l" by (simp add: unat_sub order_less_imp_le)
    with True show ?thesis by (auto simp: word_less_nat_alt)
  qed (auto simp: word_less_nat_alt)
  then show ?thesis using players_okD(1) [OF assms] by (force simp: timed_out_def image_iff)
qed

section \<open>A server with one client\<close>

definition empty_server :: "(nat list, st_Redis list, unit) ChatServer" where
  "empty_server =
     \<lparr>sessionArray = [], indexStack = [], srv_sessionID = 0, maxClientCount = 0, sessionCount = 0, sendTPS = 0,
      recvTPS = 0, acceptTPS = 0, acceptCount = 0, packets = pool_new pkt_new, os_calls = [], now = 0,
      playerPool = pool_new Player_new, players = [], accounts = [], sector = (\<lambda>_. []), redisQ = [], redis = ()\<rparr>"

definition started_server :: "(nat list, st_Redis list, unit) ChatServer" where
  "started_server = server_start (list_queue 4096) (list_queue 65534) () 1 empty_server"

text \<open>The first client is connected by socket 5.\<close>

definition one_client :: "(nat list, st_Redis list, unit) ChatServer" where
  "one_client =
     (case accept_step plain_os (list_queue 4096) OnClientLeave (OnClientJoin plain_os) OnConnectionRequest 5 started_server of
        Inl e \<Rightarrow> empty_server | Inr s \<Rightarrow> s)"

lemma one_client_accepted:
  "accept_step plain_os (list_queue 4096) OnClientLeave (OnClientJoin plain_os) OnConnectionRequest 5 started_server =
     Inr one_client \<and> players one_client = [(COMBINE_ID_INDEX 1 0, 2)]"
proof -
  have "\<exists>s'. accept_step plain_os (list_queue 4096) OnClientLeave (OnClientJoin plain_os) OnConnectionRequest 5 started_server = Inr s' \<and>
      players s' = [(COMBINE_ID_INDEX 1 0, 2)]"
    by (simp add: accept_step_def started_server_def server_start_def Start_def chat_new_def empty_server_def CreateSession_def PopIndex_def
        OnConnectionRequest_def OnClientJoin_def JoinProc_def pool_Alloc_def pool_new_def fl_new_def fl_Alloc_def
        plain_os_def Let_def set_sess_def add_call_def tick_def sess_def PostRecv_def Session_new_def set_player_def)
  then show ?thesis by (auto simp: one_client_def)
qed

abbreviation demo_reachable :: "(nat list, st_Redis list, unit) ChatServer \<Rightarrow> bool" where
  "demo_reachable \<equiv> server_reachable plain_os (list_queue 4096) (list_queue 65534)
     \<lparr>r_set = (\<lambda>k v d. d), r_get = (\<lambda>k d. None)\<rparr> () 1 empty_server"

lemma one_client_reachable: "demo_reachable one_client"
  unfolding server_reachable_def started_server_def [symmetric]
  by (rule r_into_rtranclp, rule server_step.accepted, rule conjunct1 [OF one_client_accepted])

lemma sector_zero: "IsValidSector 3 4" by (simp add: IsValidSector_def dfSECTOR_MAX_X_def dfSECTOR_MAX_Y_def)

theorem reachable_membership_witness:
  "2 \<in> pool_live (playerPool one_client) \<and> p_sessionID (player one_client 2) = COMBINE_ID_INDEX 1 0 \<and>
     \<not> closing (player one_client 2) \<and> 1 \<le> p_ref (player one_client 2)"
  using reachable_membership [OF one_client_reachable one_packet_server_ok(1)] one_client_accepted by auto

theorem chat_targets_exact_witness: "distinct (chat_targets 3 4 one_client)"
  using chat_targets_exact [OF one_client_reachable one_packet_server_ok(1) sector_zero] by blast

theorem leave_leaks_player_witness:
  "players (LeaveProc (COMBINE_ID_INDEX 1 0) one_client) \<noteq> players one_client \<and>
    2 \<in> pool_live (playerPool (LeaveProc (COMBINE_ID_INDEX 1 0) one_client))"
  using leave_leaks_player [OF one_client_reachable one_packet_server_ok(1), of "COMBINE_ID_INDEX 1 0" 2] one_client_accepted
  by auto

end
