(* ===== verification/Sessions.thy ===== *)
theory Sessions
  imports Framing
begin

text \<open>
  The life of a session (IOCPServer.cpp): what a release does to the slot, the packets and the
  stack of free slots, when a slot is released twice, and what a posted send puts on the
  network.
\<close>

section \<open>Release\<close>

lemma drain_sendBuf_ok:
  assumes Q: "queue_laws cap content Q" and i: "i < length (sessionArray s)" and n: "0 \<notin> set (content (sendBuf (sess s i)))"
  shows "\<exists>q. content q = [] \<and> drain_sendBuf Q c i s =
    Inr (set_sess i (\<lambda>x. x\<lparr>sendBuf := q\<rparr>) (s\<lparr>packets := fold pkt_SubRef (content (sendBuf (sess s i))) (packets s)\<rparr>))"
  using drain_loop_ends [OF Q n, of c "packets s"] by (auto simp: drain_sendBuf_def)

lemma drain_completeSendBuf_ok:
  assumes Q: "queue_laws cap content Q" and i: "i < length (sessionArray s)"
    and n: "0 \<notin> set (content (completeSendBuf (sess s i)))"
  shows "\<exists>q. content q = [] \<and> drain_completeSendBuf Q c i s =
    Inr (set_sess i (\<lambda>x. x\<lparr>completeSendBuf := q\<rparr>) (s\<lparr>packets := fold pkt_SubRef (content (completeSendBuf (sess s i))) (packets s)\<rparr>))"
  using drain_loop_ends [OF Q n, of c "packets s"] by (auto simp: drain_completeSendBuf_def)

text \<open>A slot as it is between two sessions.\<close>

definition slot_clean :: "('q \<Rightarrow> nat list) \<Rightarrow> 'q Session \<Rightarrow> bool" where
  "slot_clean content x \<longleftrightarrow>
     sock x = INVALID_SOCKET \<and> sessionID x = - 1 \<and> index x = 0 \<and> \<not> isSendFlag x \<and> sendCount x = 0 \<and>
     \<not> isReleased x \<and> ioCount x = 0 \<and> content (sendBuf x) = [] \<and> content (completeSendBuf x) = [] \<and>
     iFrontPos (recvBuf x) = 0 \<and> iRearPos (recvBuf x) = 0 \<and> lastRecvTime x = 0"

lemma length_drained [simp]: "length (sessionArray (s\<lparr>packets := h\<rparr>)) = length (sessionArray s)"
  by simp

lemma Session_Init_ok:
  assumes Q: "queue_laws cap content Q" and i: "i < length (sessionArray s)"
    and e: "content (sendBuf (sess s i)) = []" "content (completeSendBuf (sess s i)) = []"
    and r: "iFrontPos (recvBuf (sess s i)) = 0" "iRearPos (recvBuf (sess s i)) = 0"
  shows "\<exists>s'. Session_Init Q i s = Inr s' \<and> slot_clean content (sess s' i) \<and> (\<forall>j. j \<noteq> i \<longrightarrow> sess s' j = sess s j) \<and>
    length (sessionArray s') = length (sessionArray s) \<and> packets s' = packets s \<and> indexStack s' = indexStack s \<and>
    sessionCount s' = sessionCount s \<and> os_calls s' = os_calls s \<and> now s' = now s \<and>
    IOCPServer.more s' = IOCPServer.more s"
proof -
  define s1 where "s1 = set_sess i (\<lambda>x. x\<lparr>sock := INVALID_SOCKET, sessionID := - 1, index := 0,
      isSendFlag := False, sendCount := 0, lastRecvTime := 0\<rparr>) s"
  have e1: "content (sendBuf (sess s1 i)) = []" "i < length (sessionArray s1)" using e i by (simp_all add: s1_def)
  with drain_sendBuf_ok [OF Q e1(2), of False] obtain q1 where q1: "content q1 = []"
    "drain_sendBuf Q False i s1 = Inr (set_sess i (\<lambda>x. x\<lparr>sendBuf := q1\<rparr>) s1)" by auto
  define s2 where "s2 = set_sess i (\<lambda>x. x\<lparr>sendBuf := q1\<rparr>) s1"
  have e2: "content (completeSendBuf (sess s2 i)) = []" "i < length (sessionArray s2)" using e i by (simp_all add: s1_def s2_def)
  with drain_completeSendBuf_ok [OF Q e2(2), of False] obtain q2 where q2: "content q2 = []"
    "drain_completeSendBuf Q False i s2 = Inr (set_sess i (\<lambda>x. x\<lparr>completeSendBuf := q2\<rparr>) s2)" by auto
  have "Session_Init Q i s = Inr (set_sess i (\<lambda>x. x\<lparr>isReleased := False, ioCount := 0\<rparr>)
      (set_sess i (\<lambda>x. x\<lparr>completeSendBuf := q2\<rparr>) s2))"
    by (simp add: Session_Init_def s1_def [symmetric] q1(2) s2_def [symmetric] q2(2))
  with q1(1) q2(1) i r show ?thesis by (simp add: s2_def s1_def slot_clean_def)
qed

text \<open>
  C25. Releasing a session, whatever its state, resets its slot, drops one reference for every
  packet in its two queues, pushes the slot's index on the stack of free slots and lowers the
  session count by one; no other session changes.
\<close>

theorem ReleaseSession_effect:
  assumes Q: "queue_laws cap content Q" and i: "i < length (sessionArray s)"
    and leave: "leave (sessionID (sess s i)) s = Inr s1" "sessionArray s1 = sessionArray s"
    and n: "0 \<notin> set (content (sendBuf (sess s i)))" "0 \<notin> set (content (completeSendBuf (sess s i)))"
  shows "\<exists>s'. ReleaseSession Q leave i s = Inr s' \<and> slot_clean content (sess s' i) \<and>
    (\<forall>j. j \<noteq> i \<longrightarrow> sess s' j = sess s j) \<and> length (sessionArray s') = length (sessionArray s) \<and>
    packets s' = fold pkt_SubRef (content (sendBuf (sess s i)) @ content (completeSendBuf (sess s i))) (packets s1) \<and>
    indexStack s' = index (sess s i) # indexStack s1 \<and> sessionCount s' = sessionCount s1 - 1 \<and>
    now s' = now s1 \<and> IOCPServer.more s' = IOCPServer.more s1"
proof -
  have same: "sess s1 = sess s" using leave(2) by (simp add: sess_def fun_eq_iff)
  have i1: "i < length (sessionArray s1)" using i leave(2) by simp
  from drain_sendBuf_ok [OF Q i1, of True] n(1) obtain q1 where q1: "content q1 = []"
    "drain_sendBuf Q True i s1 = Inr (set_sess i (\<lambda>x. x\<lparr>sendBuf := q1\<rparr>)
       (s1\<lparr>packets := fold pkt_SubRef (content (sendBuf (sess s i))) (packets s1)\<rparr>))"
    by (auto simp: same)
  define s2 where "s2 = set_sess i (\<lambda>x. x\<lparr>sendBuf := q1\<rparr>)
       (s1\<lparr>packets := fold pkt_SubRef (content (sendBuf (sess s i))) (packets s1)\<rparr>)"
  have i2: "i < length (sessionArray s2)" and c2: "completeSendBuf (sess s2 i) = completeSendBuf (sess s i)"
    using i1 by (simp_all add: s2_def same)
  from drain_completeSendBuf_ok [OF Q i2, of True] n(2) obtain q2 where q2: "content q2 = []"
    "drain_completeSendBuf Q True i s2 = Inr (set_sess i (\<lambda>x. x\<lparr>completeSendBuf := q2\<rparr>)
       (s2\<lparr>packets := fold pkt_SubRef (content (completeSendBuf (sess s i))) (packets s2)\<rparr>))"
    by (auto simp: c2)
  define s3 where "s3 = set_sess i (\<lambda>x. x\<lparr>completeSendBuf := q2\<rparr>)
       (s2\<lparr>packets := fold pkt_SubRef (content (completeSendBuf (sess s i))) (packets s2)\<rparr>)"
  define s4 where "s4 = set_sess i (\<lambda>x. x\<lparr>recvBuf := rb_ClearBuffer (recvBuf x)\<rparr>) s3"
  have s4: "i < length (sessionArray s4)" "content (sendBuf (sess s4 i)) = []" "content (completeSendBuf (sess s4 i)) = []"
    "iFrontPos (recvBuf (sess s4 i)) = 0" "iRearPos (recvBuf (sess s4 i)) = 0"
    "\<And>j. j \<noteq> i \<Longrightarrow> sess s4 j = sess s j" "length (sessionArray s4) = length (sessionArray s)"
    "packets s4 = fold pkt_SubRef (content (sendBuf (sess s i)) @ content (completeSendBuf (sess s i))) (packets s1)"
    "indexStack s4 = indexStack s1" "sessionCount s4 = sessionCount s1" "now s4 = now s1"
    "IOCPServer.more s4 = IOCPServer.more s1"
    using i1 i2 q1 q2 leave(2) by (simp_all add: s4_def s3_def s2_def same rb_ClearBuffer_def)
  from Session_Init_ok [OF Q s4(1-5)] obtain s5 where s5: "Session_Init Q i s4 = Inr s5"
    "slot_clean content (sess s5 i)" "\<forall>j. j \<noteq> i \<longrightarrow> sess s5 j = sess s4 j" "length (sessionArray s5) = length (sessionArray s4)"
    "packets s5 = packets s4" "indexStack s5 = indexStack s4" "sessionCount s5 = sessionCount s4"
    "now s5 = now s4" "IOCPServer.more s5 = IOCPServer.more s4" by blast
  have idx: "index (sess s3 i) = index (sess s i)" using i2 i1 by (simp add: s3_def s2_def same)
  have "ReleaseSession Q leave i s = Inr ((PushIndex (index (sess s i)) s5)\<lparr>sessionCount := sessionCount s5 - 1\<rparr>)"
    by (simp add: ReleaseSession_def leave(1) q1(2) s2_def [symmetric] q2(2) s3_def [symmetric] Let_def
        s4_def [symmetric] s5(1) idx PushIndex_def)
  with s5 s4 show ?thesis by (simp add: PushIndex_def sess_def)
qed

section \<open>Releasing twice\<close>

lemma set_sess_idle: "i < length (sessionArray s) \<Longrightarrow> f (sess s i) = sess s i \<Longrightarrow> set_sess i f s = s"
  by (simp add: set_sess_def sess_def list_update_id)

lemma set_sess_twice: "i < length (sessionArray s) \<Longrightarrow> set_sess i g (set_sess i f s) = set_sess i (\<lambda>x. g (f x)) s"
  by (simp add: set_sess_def)

text \<open>
  A session that is disconnected while an operation of it is pending is marked and its socket closed; the slot stays
  until that operation is done.
\<close>

definition disconnected :: "nat \<Rightarrow> ('q, 'a) srv \<Rightarrow> ('q, 'a) srv" where
  "disconnected i s =
     (let k = sock (sess s i)
      in s\<lparr>sessionArray := (sessionArray s)[i := (sess s i)\<lparr>isReleased := True, sock := INVALID_SOCKET\<rparr>],
           os_calls := os_calls s @ [OsShutdown k, OsCancelIo k, OsLinger k, OsClose k]\<rparr>)"

lemma Disconnect_held:
  assumes "unat (GET_SESSION_INDEX sid) = i" and i: "i < length (sessionArray s)" and "sessionID (sess s i) = sid"
    and "\<not> isReleased (sess s i)" and "1 \<le> ioCount (sess s i)"
  shows "Disconnect Q leave sid s = Inr (disconnected i s)"
proof -
  let ?x = "sess s i"
  let ?k = "sock ?x" and ?y = "?x\<lparr>ioCount := ioCount ?x + 1\<rparr>"
  define s1 where "s1 = set_sess i (\<lambda>x. x\<lparr>ioCount := ioCount x + 1\<rparr>) s"
  have 1: "SessionLock Q leave sid s = Inr (Some i, s1)" "sess s1 i = ?y" "i < length (sessionArray s1)"
    using assms by (simp_all add: SessionLock_def s1_def Let_def)
  define s2 where "s2 = set_sess i (\<lambda>x. x\<lparr>sock := INVALID_SOCKET\<rparr>) (add_call (OsClose ?k) (add_call (OsLinger ?k)
    (add_call (OsCancelIo ?k) (add_call (OsShutdown ?k) (set_sess i (\<lambda>x. x\<lparr>isReleased := True\<rparr>) s1)))))"
  have 2: "DisConnect Q leave i s1 = Inr s2" "sess s2 i = ?y\<lparr>isReleased := True, sock := INVALID_SOCKET\<rparr>" "i < length (sessionArray s2)"
    using assms(4,5) 1 by (simp_all add: DisConnect_def s2_def Let_def)
  define s3 where "s3 = set_sess i (\<lambda>x. x\<lparr>ioCount := ioCount x - 1\<rparr>) s2"
  have "SessionUnLock Q leave i s2 = Inr s3"
    using assms(5) 2 by (simp add: SessionUnLock_def io_done_def s3_def Let_def)
  then have "Disconnect Q leave sid s = Inr s3" by (simp add: Disconnect_def 1 2)
  moreover have "disconnected i s = s3"
    using i by (simp add: disconnected_def s3_def s2_def s1_def set_sess_def add_call_def sess_def Let_def)
  ultimately show ?thesis by simp
qed

lemma SessionLock_stale:
  assumes i: "i = unat (GET_SESSION_INDEX sid)" "i < length (sessionArray s)"
    and stale: "sid \<noteq> sessionID (sess s i)" and idle: "ioCount (sess s i) = 0"
  shows "SessionLock Q leave sid s = andThen (ReleaseSession Q leave i s) (\<lambda>s2. Inr (None, s2))"
  using i(2) stale idle
  by (simp add: SessionLock_def i(1) [symmetric] io_done_def set_sess_twice set_sess_idle)

text \<open>
  C26. A late reference to a session that is gone frees its slot once more. When a client's id is
  used after its slot was released and before it is taken again - by a chat message whose
  targets were collected earlier, or by the heartbeat's kick list - \<open>SessionLock\<close> finds another
  id there, counts the slot's I/O from 0 to 1 and back to 0, and releases the slot a second
  time without looking at \<open>isReleased\<close>: index 0 is pushed on the stack of free slots and the
  session count drops by one although no session ended.
\<close>

theorem stale_id_releases_again:
  assumes Q: "queue_laws cap content Q" and i: "i = unat (GET_SESSION_INDEX sid)" "i < length (sessionArray s)"
    and clean: "slot_clean content (sess s i)" and sid: "sid \<noteq> - 1"
    and leave: "leave (- 1) s = Inr s1" "sessionArray s1 = sessionArray s" "indexStack s1 = indexStack s"
      "sessionCount s1 = sessionCount s"
  shows "\<exists>s'. SessionLock Q leave sid s = Inr (None, s') \<and> indexStack s' = 0 # indexStack s \<and>
    sessionCount s' = sessionCount s - 1 \<and> slot_clean content (sess s' i)"
proof -
  have x: "sessionID (sess s i) = - 1" "ioCount (sess s i) = 0" "index (sess s i) = 0"
    "content (sendBuf (sess s i)) = []" "content (completeSendBuf (sess s i)) = []"
    using clean by (auto simp: slot_clean_def)
  have l: "leave (sessionID (sess s i)) s = Inr s1" using x(1) leave(1) by simp
  from ReleaseSession_effect [where leave = leave, OF Q i(2) l leave(2)] x obtain s'
    where "ReleaseSession Q leave i s = Inr s'" "slot_clean content (sess s' i)" "indexStack s' = 0 # indexStack s1"
      "sessionCount s' = sessionCount s1 - 1" by auto
  with SessionLock_stale [OF i, of Q leave] x sid leave show ?thesis by simp
qed

text \<open>
  C27. The first receive of a session that fails releases its slot twice. \<open>PostRecv\<close> releases the
  session when the count drops to 0 and then disconnects the slot it has just reset, which
  releases it again: after an accepted connection whose first \<open>WSARecv\<close> fails, both the slot's
  index and index 0 are on the stack of free slots, and the session count is one too low.
\<close>

theorem failed_first_receive_releases_twice:
  assumes Q: "queue_laws cap content Q" and i: "i < length (sessionArray s)"
    and x: "\<not> isReleased (sess s i)" "ioCount (sess s i) = 0" "content (sendBuf (sess s i)) = []"
      "content (completeSendBuf (sess s i)) = []"
    and fails: "os_WSARecv W (now s) = IoError"
    and leave: "\<And>sid t. \<exists>t'. leave sid t = Inr t' \<and> sessionArray t' = sessionArray t \<and> indexStack t' = indexStack t \<and>
      sessionCount t' = sessionCount t"
  shows "\<exists>s'. PostRecv W Q leave i s = Inr (False, s') \<and> indexStack s' = 0 # index (sess s i) # indexStack s \<and>
    sessionCount s' = sessionCount s - 2"
proof -
  define s3 where "s3 = set_sess i (\<lambda>x. x\<lparr>ioCount := ioCount x - 1\<rparr>)
    (tick (add_call (OsRecv (sock (sess s i)) (recv_regions (recvBuf (sess s i)))) (set_sess i (\<lambda>x. x\<lparr>ioCount := ioCount x + 1\<rparr>) s)))"
  have s3: "i < length (sessionArray s3)" "sess s3 i = sess s i" "indexStack s3 = indexStack s" "sessionCount s3 = sessionCount s"
    using i by (simp_all add: s3_def)
  obtain t where t: "leave (sessionID (sess s3 i)) s3 = Inr t" "sessionArray t = sessionArray s3"
    "indexStack t = indexStack s3" "sessionCount t = sessionCount s3" using leave by blast
  from ReleaseSession_effect [where leave = leave, OF Q s3(1) t(1,2)] x s3(2) obtain s4 where
    s4: "ReleaseSession Q leave i s3 = Inr s4" "slot_clean content (sess s4 i)" "length (sessionArray s4) = length (sessionArray s3)"
      "indexStack s4 = index (sess s i) # indexStack s" "sessionCount s4 = sessionCount s - 1"
    using t(3,4) s3(3,4) by auto
  define s5 where "s5 = set_sess i (\<lambda>x. x\<lparr>sock := INVALID_SOCKET\<rparr>)
    (add_call (OsClose (sock (sess s4 i))) (add_call (OsLinger (sock (sess s4 i))) (add_call (OsCancelIo (sock (sess s4 i)))
      (add_call (OsShutdown (sock (sess s4 i))) (set_sess i (\<lambda>x. x\<lparr>isReleased := True\<rparr>) s4)))))"
  have i4: "i < length (sessionArray s4)" using s4(3) s3(1) by simp
  have s5: "i < length (sessionArray s5)" "sess s5 i = (sess s4 i)\<lparr>isReleased := True, sock := INVALID_SOCKET\<rparr>"
    "indexStack s5 = indexStack s4" "sessionCount s5 = sessionCount s4"
    using i4 by (simp_all add: s5_def)
  obtain t5 where t5: "leave (sessionID (sess s5 i)) s5 = Inr t5" "sessionArray t5 = sessionArray s5"
    "indexStack t5 = indexStack s5" "sessionCount t5 = sessionCount s5" using leave by blast
  have c5: "content (sendBuf (sess s5 i)) = []" "content (completeSendBuf (sess s5 i)) = []" "index (sess s5 i) = 0"
    using s4(2) by (simp_all add: s5(2) slot_clean_def)
  from ReleaseSession_effect [where leave = leave, OF Q s5(1) t5(1,2)] c5 obtain s6 where
    s6: "ReleaseSession Q leave i s5 = Inr s6" "indexStack s6 = 0 # indexStack s4" "sessionCount s6 = sessionCount s4 - 1"
    using t5(3,4) s5(3,4) by auto
  have "DisConnect Q leave i s4 = Inr s6"
    using s4(2) i4 s6(1) by (simp add: DisConnect_def Let_def slot_clean_def s5_def)
  then have "PostRecv W Q leave i s = Inr (False, s6)"
    using x i fails s4(1) by (simp add: PostRecv_def Let_def s3_def)
  with s6 s4 show ?thesis by simp
qed

section \<open>A server with one slot\<close>

definition one_slot :: "nat list IOCPServer" where
  "one_slot =
     \<lparr>sessionArray = [Session_new (list_queue 4096)], indexStack = [], srv_sessionID = 1, maxClientCount = 1,
      sessionCount = 1, sendTPS = 0, recvTPS = 0, acceptTPS = 0, acceptCount = 0, packets = pool_new pkt_new,
      os_calls = [], now = 0\<rparr>"

lemma one_slot_facts:
  "0 < length (sessionArray one_slot)" "sess one_slot 0 = Session_new (list_queue 4096)"
  "indexStack one_slot = []" "sessionCount one_slot = 1"
  by (simp_all add: one_slot_def sess_def)

lemma slot_clean_new: "slot_clean (\<lambda>q. q) (Session_new (list_queue 4096))"
  by (simp add: slot_clean_def Session_new_def list_queue_def rb_new_def)

theorem ReleaseSession_effect_witness:
  "\<exists>s'. ReleaseSession (list_queue 4096) (\<lambda>_. Inr) 0 one_slot = Inr s' \<and> indexStack s' = [0] \<and> sessionCount s' = 0"
  using ReleaseSession_effect [OF queue_laws_list [of 4096] one_slot_facts(1), of "\<lambda>_. Inr" one_slot] slot_clean_new
  by (auto simp: one_slot_facts slot_clean_def)

theorem stale_id_releases_again_witness:
  "\<exists>s'. SessionLock (list_queue 4096) (\<lambda>_. Inr) (COMBINE_ID_INDEX 1 0) one_slot = Inr (None, s') \<and>
     indexStack s' = [0] \<and> sessionCount s' = 0"
proof -
  have "unat (GET_SESSION_INDEX (COMBINE_ID_INDEX 1 0)) = 0" "COMBINE_ID_INDEX 1 0 \<noteq> - 1"
    by (simp_all add: GET_SESSION_INDEX_def COMBINE_ID_INDEX_def)
  then show ?thesis
    using stale_id_releases_again [OF queue_laws_list [of 4096], of 0 "COMBINE_ID_INDEX 1 0" one_slot "\<lambda>_. Inr" one_slot]
      slot_clean_new one_slot_facts(1)
    by (auto simp: one_slot_facts)
qed

theorem failed_first_receive_releases_twice_witness:
  "\<exists>s'. PostRecv (plain_os\<lparr>os_WSARecv := \<lambda>_. IoError\<rparr>) (list_queue 4096) (\<lambda>_. Inr) 0 one_slot = Inr (False, s') \<and>
     indexStack s' = [0, 0] \<and> sessionCount s' = - 1"
  using failed_first_receive_releases_twice
    [OF queue_laws_list [of 4096] one_slot_facts(1), of "plain_os\<lparr>os_WSARecv := \<lambda>_. IoError\<rparr>" "\<lambda>_. Inr"] slot_clean_new
  by (auto simp: one_slot_facts slot_clean_def Session_new_def)

end
