(* ===== verification/Holding.thy ===== *)
theory Holding
  imports Server Sessions
begin

text \<open>
  A session that has an operation pending keeps its slot (IOCPServer.cpp): whatever the handlers do to it and to other
  sessions, it is not released, so its id and the bytes in its ring stay. Used for the receive loop, which runs the
  handlers while the receive it completes is still counted, and for the kicks of the heartbeat thread.
\<close>

section \<open>What is kept\<close>

text \<open>From \<open>s\<close> to \<open>s'\<close> the session in slot \<open>i\<close> stays, and its count of pending operations changes by at least \<open>c\<close>.\<close>

definition counted :: "int \<Rightarrow> nat \<Rightarrow> ('q, 'a) srv \<Rightarrow> ('q, 'a) srv \<Rightarrow> bool" where
  "counted c i s s' \<longleftrightarrow>
     length (sessionArray s') = length (sessionArray s) \<and> recvBuf (sess s' i) = recvBuf (sess s i) \<and>
     sessionID (sess s' i) = sessionID (sess s i) \<and> ioCount (sess s i) + c \<le> ioCount (sess s' i)"

abbreviation kept :: "nat \<Rightarrow> ('q, 'a) srv \<Rightarrow> ('q, 'a) srv \<Rightarrow> bool" where
  "kept \<equiv> counted 0"

lemma counted_trans: "counted a i s t \<Longrightarrow> counted b i t u \<Longrightarrow> counted (a + b) i s u"
  by (simp add: counted_def)

lemma kept_trans [trans]: "kept i s t \<Longrightarrow> kept i t u \<Longrightarrow> kept i s u"
  using counted_trans [of 0 i s t 0 u] by simp

lemma kept_same: "sessionArray s' = sessionArray s \<Longrightarrow> kept i s s'"
  by (simp add: counted_def sess_def)

lemma kept_refl [simp]: "kept i s s"
  by (simp add: kept_same)

lemma counted_same:
  assumes "sessionArray s' = sessionArray s"
  shows "counted c i s' t = counted c i s t" "counted c i t s' = counted c i t s"
  using assms by (simp_all add: counted_def sess_def)

lemma counted_packets [simp]:
  "counted c i (s\<lparr>packets := h\<rparr>) t = counted c i s t" "counted c i t (s\<lparr>packets := h\<rparr>) = counted c i t s"
  "counted c i (tick s) t = counted c i s t" "counted c i t (tick s) = counted c i t s"
  "counted c i (add_call k s) t = counted c i s t" "counted c i t (add_call k s) = counted c i t s"
  "counted c i t (s\<lparr>sessionCount := m\<rparr>) = counted c i t s" "counted c i t (s\<lparr>indexStack := st\<rparr>) = counted c i t s"
  "counted c i t (IocpServer.PushIndex idx s) = counted c i t s"
  by (simp_all add: counted_def IocpServer.PushIndex_def)

lemma sess_other: "j \<noteq> i \<Longrightarrow> sess (set_sess j f s) i = sess s i"
  by (simp add: sess_def set_sess_def)

lemma kept_other: "j \<noteq> i \<Longrightarrow> kept i t (set_sess j f s) = kept i t s"
  by (simp add: counted_def sess_other)

lemma kept_set_sess:
  assumes "recvBuf (f (sess s i)) = recvBuf (sess s i)" and "sessionID (f (sess s i)) = sessionID (sess s i)"
    and "ioCount (sess s i) \<le> ioCount (f (sess s i))"
  shows "kept i s (set_sess j f s)"
proof (cases "j = i \<and> i < length (sessionArray s)")
  case True
  with assms show ?thesis by (simp add: counted_def)
next
  case False
  then have "sess (set_sess j f s) i = sess s i"
    by (cases "j = i") (simp_all add: sess_other, simp add: set_sess_def sess_def list_update_beyond)
  then show ?thesis by (simp add: counted_def)
qed

lemma kept_step:
  assumes "kept i t s" and "recvBuf (f (sess s i)) = recvBuf (sess s i)" and "sessionID (f (sess s i)) = sessionID (sess s i)"
    and "ioCount (sess s i) \<le> ioCount (f (sess s i))"
  shows "kept i t (set_sess j f s)"
  by (rule kept_trans [OF assms(1) kept_set_sess [of f s i j, OF assms(2-4)]])

lemma kept_on_packet: "on_packet p f s = Inr s' \<Longrightarrow> kept i s s'"
  by (auto simp: on_packet_def andThen_eq_Inr)

section \<open>The operations of the network server\<close>

text \<open>\<open>OnClientLeave\<close> changes no session.\<close>

locale quiet_leave =
  fixes leave :: "('q, 'a) leave"
  assumes leave_array: "leave sid s = Inr s' \<Longrightarrow> sessionArray s' = sessionArray s"
begin

lemma kept_drain:
  assumes "j \<noteq> i"
  shows "drain_sendBuf Q c j s = Inr s' \<Longrightarrow> kept i s s'" "drain_completeSendBuf Q c j s = Inr s' \<Longrightarrow> kept i s s'"
  using assms by (auto simp: drain_sendBuf_def drain_completeSendBuf_def andThen_eq_Inr kept_other)

lemma kept_Session_Init:
  assumes "Session_Init Q j s = Inr s'" and ne: "j \<noteq> i"
  shows "kept i s s'"
proof -
  from assms(1) obtain f g s1 s2 where "drain_sendBuf Q False j (set_sess j f s) = Inr s1"
    "drain_completeSendBuf Q False j s1 = Inr s2" "s' = set_sess j g s2"
    by (auto simp: Session_Init_def andThen_eq_Inr Let_def)
  then show ?thesis using kept_drain [OF ne] kept_other [OF ne] kept_refl kept_trans by metis
qed

lemma kept_ReleaseSession:
  assumes "ReleaseSession Q leave j s = Inr s'" and ne: "j \<noteq> i"
  shows "kept i s s'"
proof -
  from assms(1) obtain f s1 s2 s3 s5 idx where l: "leave (sessionID (sess s j)) s = Inr s1"
    and d: "drain_sendBuf Q True j s1 = Inr s2" "drain_completeSendBuf Q True j s2 = Inr s3"
    "Session_Init Q j (set_sess j f s3) = Inr s5"
    and s': "s' = (IocpServer.PushIndex idx s5)\<lparr>sessionCount := sessionCount (IocpServer.PushIndex idx s5) - 1\<rparr>"
    by (auto simp: ReleaseSession_def andThen_eq_Inr Let_def)
  have "kept i s s3" using kept_same [OF leave_array [OF l]] kept_drain(1) [OF ne d(1)] kept_drain(2) [OF ne d(2)] kept_trans by blast
  then have "kept i s (set_sess j f s3)" using kept_other [OF ne] by blast
  from kept_trans [OF this kept_Session_Init [OF d(3) ne]] show ?thesis by (simp add: s')
qed

text \<open>A count of 2 or more survives the end of one operation, and one of 1 a disconnection.\<close>

lemma counted_io_done:
  assumes r: "io_done Q leave c j s = Inr s'" and n: "j = i \<Longrightarrow> 2 \<le> ioCount (sess s i)"
  shows "counted (if j = i then - 1 else 0) i s s'"
proof (cases "j = i")
  case True
  let ?s = "set_sess i (\<lambda>x. x\<lparr>ioCount := ioCount x - 1\<rparr>) s"
  show ?thesis
  proof (cases "i < length (sessionArray s)")
    case i: True
    have "s' = ?s" using r n True i by (simp add: io_done_def Let_def split: if_splits)
    then show ?thesis using True i by (simp add: counted_def)
  next
    case False
    then have "?s = s" by (simp add: set_sess_def list_update_beyond)
    with r n True have "s' = s" by (simp add: io_done_def Let_def split: if_splits)
    then show ?thesis by (simp add: counted_def True)
  qed
next
  case False
  let ?s = "set_sess j (\<lambda>x. x\<lparr>ioCount := ioCount x - 1\<rparr>) s"
  have "kept i s ?s" using False by (simp add: kept_other)
  moreover have "kept i ?s s'" using r kept_ReleaseSession [OF _ False] by (auto simp: io_done_def Let_def split: if_splits)
  ultimately show ?thesis using False kept_trans by simp
qed

lemma kept_DisConnect:
  assumes r: "DisConnect Q leave j s = Inr s'" and n: "1 \<le> ioCount (sess s i)"
  shows "kept i s s'"
proof (cases "isReleased (sess s j)")
  case False
  define s3 where "s3 = set_sess j (\<lambda>x. x\<lparr>sock := INVALID_SOCKET\<rparr>) (add_call (OsClose (sock (sess s j))) (add_call (OsLinger (sock (sess s j)))
    (add_call (OsCancelIo (sock (sess s j))) (add_call (OsShutdown (sock (sess s j))) (set_sess j (\<lambda>x. x\<lparr>isReleased := True\<rparr>) s)))))"
  have "kept i s (set_sess j (\<lambda>x. x\<lparr>isReleased := True\<rparr>) s)" by (rule kept_set_sess) simp_all
  then have b: "kept i s s3" unfolding s3_def by (intro kept_step) simp_all
  have c: "s' = s3 \<or> ioCount (sess s3 j) = 0 \<and> ReleaseSession Q leave j s3 = Inr s'"
    using r False by (auto simp: DisConnect_def Let_def s3_def [symmetric] split: if_splits)
  show ?thesis
  proof (cases "j = i")
    case True
    with b n have "ioCount (sess s3 j) \<noteq> 0" by (simp add: counted_def)
    with b c show ?thesis by simp
  next
    case False
    with b c kept_ReleaseSession kept_trans show ?thesis by metis
  qed
qed (use r in \<open>simp add: DisConnect_def\<close>)

text \<open>\<open>SessionLock\<close> counts itself when it finds the session.\<close>

lemma counted_SessionLock:
  assumes r: "SessionLock Q leave sid s = Inr (who, s')" and n: "1 \<le> ioCount (sess s i)"
  shows "counted (if who = Some i then 1 else 0) i s s'"
proof -
  let ?j = "unat (GET_SESSION_INDEX sid)"
  let ?s = "set_sess ?j (\<lambda>x. x\<lparr>ioCount := ioCount x + 1\<rparr>) s"
  have j: "?j < length (sessionArray s)" using r by (simp add: SessionLock_def Let_def split: if_splits)
  have a: "counted (if ?j = i then 1 else 0) i s ?s" using j by (simp add: counted_def)
  from r j consider "who = Some ?j" "s' = ?s" | "who = None" "io_done Q leave True ?j ?s = Inr s'"
    by (auto simp: SessionLock_def Let_def andThen_eq_Inr split: if_splits)
  then show ?thesis
  proof cases
    case 2
    have "2 \<le> ioCount (sess ?s i)" if "?j = i" using that n j by simp
    from counted_trans [OF a counted_io_done [OF 2(2) this]] show ?thesis using 2(1) by (cases "?j = i") simp_all
  qed (use a in auto)
qed

text \<open>What is done between \<open>SessionLock\<close> and \<open>SessionUnLock\<close> keeps the session.\<close>

lemma kept_locked:
  assumes lock: "SessionLock Q leave sid s = Inr (Some j, s1)" and n: "1 \<le> ioCount (sess s i)" and b: "kept i s1 s2"
    and unlock: "SessionUnLock Q leave j s2 = Inr s'"
  shows "kept i s s'"
proof -
  note a = counted_SessionLock [OF lock n]
  have "2 \<le> ioCount (sess s2 i)" if "j = i" using a b n that by (simp add: counted_def)
  note u = counted_io_done [OF unlock [unfolded SessionUnLock_def] this]
  show ?thesis using counted_trans [OF counted_trans [OF a b] u] by (cases "j = i") auto
qed

lemma kept_Disconnect:
  assumes r: "Disconnect Q leave sid s = Inr s'" and n: "1 \<le> ioCount (sess s i)"
  shows "kept i s s'"
proof -
  from r obtain who s1 where l: "SessionLock Q leave sid s = Inr (who, s1)"
    and rest: "case who of None \<Rightarrow> s' = s1 | Some j \<Rightarrow> \<exists>s2. DisConnect Q leave j s1 = Inr s2 \<and> SessionUnLock Q leave j s2 = Inr s'"
    by (auto simp: Disconnect_def andThen_eq_Inr split: option.splits)
  note a = counted_SessionLock [OF l n]
  then have n1: "1 \<le> ioCount (sess s1 i)" using n by (auto simp: counted_def split: if_splits)
  show ?thesis
  proof (cases who)
    case None
    with rest a show ?thesis by simp
  next
    case (Some j)
    with rest obtain s2 where "DisConnect Q leave j s1 = Inr s2" "SessionUnLock Q leave j s2 = Inr s'" by auto
    with kept_locked [of Q sid s j s1 i s2 s'] l Some n kept_DisConnect n1 show ?thesis by blast
  qed
qed

lemma kept_PostSend:
  assumes r: "PostSend W Q leave j s = Inr (b, s')" and n: "1 \<le> ioCount (sess s i)"
  shows "kept i s s'"
proof -
  define s1 where "s1 = set_sess j (\<lambda>x. x\<lparr>isSendFlag := True\<rparr>) s"
  have k1: "kept i s s1" unfolding s1_def by (rule kept_set_sess) simp_all
  show ?thesis
  proof (cases "isSendFlag (sess s j)")
    case False
    with r obtain pktCount wBuf q cq where
      "gather_loop Q (packets s1) 0 [] (sendBuf (sess s1 j)) (completeSendBuf (sess s1 j)) = Some (pktCount, wBuf, q, cq)"
      by (auto simp: PostSend_def Let_def s1_def [symmetric] split: option.splits)
    note g = this
    define s2 where "s2 = set_sess j (\<lambda>x. x\<lparr>sendBuf := q, completeSendBuf := cq\<rparr>) s1"
    define s3 where "s3 = set_sess j (\<lambda>x. x\<lparr>sendCount := pktCount, ioCount := ioCount x + 1\<rparr>) s2"
    define s4 where "s4 = tick (add_call (OsSend (sock (sess s3 j)) wBuf) s3)"
    define s5 where "s5 = set_sess j (\<lambda>x. x\<lparr>ioCount := ioCount x - 1\<rparr>) s4"
    have k2: "kept i s s2" using k1 by (rule kept_trans) (unfold s2_def, rule kept_set_sess; simp)
    have k4: "kept i s s4" using k2 by (rule kept_trans) (simp add: s4_def s3_def, rule kept_set_sess; simp)
    have k5: "kept i s s5"
    proof (cases "j = i \<and> i < length (sessionArray s)")
      case True
      then have "i < length (sessionArray s2)" using k2 by (simp add: counted_def)
      with True k2 show ?thesis by (simp add: counted_def s5_def s4_def s3_def)
    next
      case False
      show ?thesis
      proof (cases "j = i")
        case True
        then have "length (sessionArray s4) \<le> j" using k4 False by (simp add: counted_def)
        then have "s5 = s4" by (simp add: s5_def set_sess_def list_update_beyond)
        with k4 show ?thesis by simp
      qed (use k4 in \<open>simp add: s5_def kept_other\<close>)
    qed
    consider "s' = set_sess j (\<lambda>x. x\<lparr>isSendFlag := False\<rparr>) s2" | "s' = set_sess j (\<lambda>x. x\<lparr>sendOverlap := True\<rparr>) s4" | "s' = s5"
      | "ioCount (sess s5 j) = 0" "ReleaseSession Q leave j s5 = Inr s'"
      using r False by (auto simp: PostSend_def Let_def s1_def [symmetric] g s2_def [symmetric] s3_def [symmetric] s4_def [symmetric]
          s5_def [symmetric] andThen_eq_Inr split: if_splits)
    then show ?thesis
    proof cases
      case 1
      show ?thesis unfolding 1 by (rule kept_trans [OF k2], rule kept_set_sess) simp_all
    next
      case 2
      show ?thesis unfolding 2 by (rule kept_trans [OF k4], rule kept_set_sess) simp_all
    next
      case 4
      then have "j \<noteq> i" using k5 n by (auto simp: counted_def)
      from kept_trans [OF k5 kept_ReleaseSession [OF 4(2) this]] show ?thesis .
    qed (use k5 in simp)
  qed (use r in \<open>simp add: PostSend_def\<close>)
qed

lemma kept_SendPacket:
  assumes r: "SendPacket W Q leave sid p s = Inr s'" and n: "1 \<le> ioCount (sess s i)"
  shows "kept i s s'"
proof -
  from r obtain who s1 where l: "SessionLock Q leave sid s = Inr (who, s1)" by (auto simp: SendPacket_def andThen_eq_Inr)
  note a = counted_SessionLock [OF l n]
  then have n1: "1 \<le> ioCount (sess s1 i)" using n by (auto simp: counted_def split: if_splits)
  show ?thesis
  proof (cases who)
    case None
    with r l a show ?thesis by (simp add: SendPacket_def)
  next
    case (Some j)
    with r l obtain s2 where op: "on_packet p (pkt_SetEncodingCode (os_rand W (now s1))) (s1\<lparr>packets := pkt_AddRef p (packets s1)\<rparr>) = Inr s2"
      by (auto simp: SendPacket_def andThen_eq_Inr)
    define s3 where "s3 = set_sess j (\<lambda>x. x\<lparr>sendBuf := fst (q_push Q p (sendBuf x))\<rparr>) (tick s2)"
    from r l Some op obtain s4 where body: "s4 = s3 \<or> (\<exists>b. PostSend W Q leave j s3 = Inr (b, s4))"
      and u: "SessionUnLock Q leave j s4 = Inr s'"
      by (auto simp: SendPacket_def andThen_eq_Inr Let_def s3_def [symmetric] split: if_splits)
    have k3: "kept i s1 s3"
    proof -
      have "kept i s1 (tick s2)" using kept_on_packet [OF op, of i] by simp
      then show ?thesis by (rule kept_trans) (unfold s3_def, rule kept_set_sess; simp)
    qed
    then have "1 \<le> ioCount (sess s3 i)" using n1 by (simp add: counted_def)
    with body k3 kept_PostSend kept_trans have "kept i s1 s4" by blast
    from kept_locked [OF l [unfolded Some] n this u] show ?thesis .
  qed
qed

end

section \<open>The handlers of the chat server\<close>

interpretation quiet: quiet_leave "OnClientLeave :: UINT64 \<Rightarrow> ('q, 'r, 'd, 'a) chat \<Rightarrow> ('q, 'r, 'd, 'a) chat res"
  by unfold_locales (auto simp: OnClientLeave_def LeaveProc_def ReleasePlayer_def AddRefPlayer_def set_player_def Let_def
      split: option.splits)

text \<open>Reading and building packets changes no session.\<close>

lemma array_ops:
  "read_value p old s = Inr (v, s') \<Longrightarrow> sessionArray s' = sessionArray s"
  "get_data p dst n s = Inr (v, s') \<Longrightarrow> sessionArray s' = sessionArray s"
  "write_value p v s = Inr s' \<Longrightarrow> sessionArray s' = sessionArray s"
  "put_data p src n s = Inr s' \<Longrightarrow> sessionArray s' = sessionArray s"
  "alloc_packet W s = Inr (q, s') \<Longrightarrow> sessionArray s' = sessionArray s"
  "encode_packet W p s = Inr s' \<Longrightarrow> sessionArray s' = sessionArray s"
  by (auto simp: read_value_def get_data_def read_packet_def write_value_def put_data_def alloc_packet_def encode_packet_def
      on_packet_def andThen_eq_Inr)

lemma array_answers:
  "Res_SectorMove W a x y s = Inr (p, s') \<Longrightarrow> sessionArray s' = sessionArray s"
  "Res_Chat W pl msg len s = Inr (p, s') \<Longrightarrow> sessionArray s' = sessionArray s"
  by (auto simp: Res_SectorMove_def Res_Chat_def andThen_eq_Inr dest!: array_ops)

lemma array_players [simp]:
  "sessionArray (set_player q f s) = sessionArray s" "sessionArray (AddRefPlayer q s) = sessionArray s"
  "sessionArray (ReleasePlayer q s) = sessionArray s" "sessionArray (sub_ref p s) = sessionArray s"
  by (simp_all add: set_player_def AddRefPlayer_def ReleasePlayer_def sub_ref_def Let_def)

lemma array_AcquirePlayer: "AcquirePlayer sid s = (who, s') \<Longrightarrow> sessionArray s' = sessionArray s"
  by (auto simp: AcquirePlayer_def Let_def split: option.splits if_splits)

lemma array_Req_Login: "Req_Login_Redis J sid pl p s = (ok, s') \<Longrightarrow> sessionArray s' = sessionArray s"
  by (auto simp: Req_Login_Redis_def EnqueueRedis_def split: if_splits)

lemma kept_count: "kept i s t \<Longrightarrow> 1 \<le> ioCount (sess s i) \<Longrightarrow> 1 \<le> ioCount (sess t i)"
  by (simp add: counted_def)

lemma count_same: "sessionArray t = sessionArray s \<Longrightarrow> ioCount (sess t i) = ioCount (sess s i)"
  by (simp add: sess_def)

lemma kept_send_all: "send_all W Q p sids s = Inr s' \<Longrightarrow> 1 \<le> ioCount (sess s i) \<Longrightarrow> kept i s s'"
proof (induction sids arbitrary: s)
  case (Cons sid sids)
  then obtain s1 where s1: "SendPacket W Q OnClientLeave sid p s = Inr s1" "send_all W Q p sids s1 = Inr s'"
    by (auto simp: andThen_eq_Inr)
  note k = quiet.kept_SendPacket [OF s1(1) Cons.prems(2)]
  from kept_trans [OF k Cons.IH [OF s1(2) kept_count [OF k Cons.prems(2)]]] show ?case .
qed simp

lemma kept_Req_Chat:
  assumes r: "Req_Chat W Q U sid pl p s = Inr (ok, s')" and n: "1 \<le> ioCount (sess s i)"
  shows "kept i s s'"
proof -
  show ?thesis
  proof (cases "isLogined (player s pl)")
    case True
    with r obtain ab s1 lb s2 where rd: "read_value p (INT64_bytes 0) s = Inr (ab, s1)" "read_value p (WORD_bytes 0) s1 = Inr (lb, s2)"
      by (auto simp: Req_Chat_def andThen_eq_Inr)
    have a2: "sessionArray s2 = sessionArray s" using array_ops(1) [OF rd(1)] array_ops(1) [OF rd(2)] by simp
    show ?thesis
    proof (cases "WORD_of lb = 0")
      case False
      with r True rd obtain msg s3 res s4 where ms: "get_data p (junk U 2048) (int (unat (WORD_of lb))) s2 = Inr (msg, s3)"
        "Res_Chat W pl msg (WORD_of lb) s3 = Inr (res, s4)"
        and rest: "s' = sub_ref res s4 \<or>
          (\<exists>s5. send_all W Q res (chat_targets (sectorX (player s4 pl)) (sectorY (player s4 pl)) s4) s4 = Inr s5 \<and> s' = sub_ref res s5)"
        by (auto simp: Req_Chat_def Let_def andThen_eq_Inr split: if_splits)
      have a4: "sessionArray s4 = sessionArray s" using array_ops(2) [OF ms(1)] array_answers(2) [OF ms(2)] a2 by simp
      then have n4: "1 \<le> ioCount (sess s4 i)" using n count_same by metis
      from rest show ?thesis
      proof (elim disjE exE conjE)
        fix s5 assume "send_all W Q res (chat_targets (sectorX (player s4 pl)) (sectorY (player s4 pl)) s4) s4 = Inr s5" "s' = sub_ref res s5"
        then show ?thesis using kept_send_all [OF _ n4]
          by (simp add: counted_same(1) [OF a4, symmetric] counted_same(2) [of "sub_ref res s5" s5])
      qed (simp add: kept_same a4)
    qed (use r True rd a2 in \<open>simp add: Req_Chat_def kept_same\<close>)
  qed (use r in \<open>simp add: Req_Chat_def\<close>)
qed

lemma kept_move_player:
  assumes r: "move_player W Q sid pl account x y s = Inr (ok, s')" and n: "1 \<le> ioCount (sess s i)"
  shows "kept i s s'"
proof (cases "IsValidSector x y")
  case True
  define s2 where "s2 = tick (set_player pl (\<lambda>z. z\<lparr>sectorX := x, sectorY := y, p_lastRecvTime := os_tick W (now s)\<rparr>)
      (s\<lparr>sector := move_sector pl (sectorX (player s pl), sectorY (player s pl)) (x, y) (sector s)\<rparr>))"
  obtain res s3 s4 where res: "Res_SectorMove W account x y s2 = Inr (res, s3)"
    and send: "SendPacket W Q OnClientLeave sid res s3 = Inr s4" and s': "s' = sub_ref res s4"
    using r True by (auto simp: move_player_def Let_def andThen_eq_Inr s2_def)
  have a: "sessionArray s3 = sessionArray s" using array_answers(1) [OF res] by (simp add: s2_def)
  have "kept i s3 s4" using quiet.kept_SendPacket [OF send] n count_same [OF a] by simp
  then show ?thesis by (simp add: s' counted_same [OF a] counted_same [of "sub_ref res s4" s4])
qed (use r in \<open>simp add: move_player_def\<close>)

lemma kept_Req_SectorMove:
  assumes r: "Req_SectorMove W Q U sid pl p s = Inr (ok, s')" and n: "1 \<le> ioCount (sess s i)"
  shows "kept i s s'"
proof -
  from r obtain a x y s3 where a: "sessionArray s3 = sessionArray s" and m: "move_player W Q sid pl a x y s3 = Inr (ok, s')"
    by (auto simp: Req_SectorMove_def andThen_eq_Inr dest!: array_ops(1))
  have "kept i s3 s'" using kept_move_player [OF m] n count_same [OF a] by simp
  then show ?thesis by (simp add: counted_same [OF a])
qed

lemma kept_RecvProc:
  assumes r: "RecvProc W Q J U sid p s = Inr (ok, s')" and n: "1 \<le> ioCount (sess s i)"
  shows "kept i s s'"
proof (cases "AcquirePlayer sid s")
  case (Pair who s1)
  note a1 = array_AcquirePlayer [OF Pair]
  show ?thesis
  proof (cases who)
    case None
    with r Pair a1 show ?thesis by (simp add: RecvProc_def kept_same)
  next
    case (Some pl)
    define s2 where "s2 = tick (set_player pl (\<lambda>x. x\<lparr>p_lastRecvTime := os_tick W (now s1)\<rparr>) s1)"
    from r Pair Some obtain tb s3 s4 where
      rd: "read_value p (WORD_bytes 0) s2 = Inr (tb, s3)"
      and h: "Req_Login_Redis J sid pl p s3 = (ok, s4) \<or> Req_SectorMove W Q U sid pl p s3 = Inr (ok, s4) \<or>
        Req_Chat W Q U sid pl p s3 = Inr (ok, s4) \<or> s4 = s3"
      and s': "s' = ReleasePlayer pl s4"
      by (auto simp: RecvProc_def s2_def [symmetric] andThen_eq_Inr Let_def split: if_splits)
    have a3: "sessionArray s3 = sessionArray s" using array_ops(1) [OF rd] a1 by (simp add: s2_def)
    then have n3: "1 \<le> ioCount (sess s3 i)" using n count_same [OF a3] by simp
    from h n3 have "kept i s3 s4"
      using kept_same [OF array_Req_Login] kept_Req_SectorMove kept_Req_Chat by (metis kept_refl)
    then show ?thesis by (simp add: s' counted_same [OF a3] counted_same [of "ReleasePlayer pl s4" s4])
  qed
qed

lemma kept_OnRecv:
  assumes r: "OnRecv W Q J U sid p s = Inr s'" and n: "1 \<le> ioCount (sess s i)"
  shows "kept i s s'"
proof -
  from r obtain ok s1 where s1: "RecvProc W Q J U sid p s = Inr (ok, s1)" "s' = s1 \<or> Disconnect Q OnClientLeave sid s1 = Inr s'"
    by (auto simp: OnRecv_def andThen_eq_Inr split: if_splits)
  note k = kept_RecvProc [OF s1(1) n]
  from s1(2) show ?thesis using k kept_trans [OF k quiet.kept_Disconnect [OF _ kept_count [OF k n]]] by blast
qed

end
