(* ===== verification/Sending.thy ===== *)
theory Sending
  imports Sessions
begin

text \<open>
  Sending (\<open>SendPacket\<close>, \<open>PostSend\<close> and \<open>SendComplete\<close> of IOCPServer.cpp) as a refinement of an
  abstract sender: a list of packets that wait and the list of packets of the one send that was
  handed to \<open>WSASend\<close> last. Whether \<open>WSASend\<close> accepts a send is up to the system: a session whose send was
  refused while another operation of it is pending keeps its mark and sends nothing more.
\<close>

section \<open>The abstract sender\<close>

type_synonym sender = "nat list \<times> nat list"

text \<open>When nothing is outstanding, up to 100 waiting packets leave as one batch.\<close>

definition post_batch :: "sender \<Rightarrow> sender \<times> nat list list" where
  "post_batch st =
     (if snd st \<noteq> [] \<or> fst st = [] then (st, []) else ((drop 100 (fst st), take 100 (fst st)), [take 100 (fst st)]))"

text \<open>A packet is handed to \<open>SendPacket\<close>, or the completion port reports that a send is done.\<close>

datatype send_event = Push nat | Sent nat

fun spec_send :: "nat \<Rightarrow> send_event \<Rightarrow> sender \<Rightarrow> sender \<times> nat list list" where
  "spec_send cap (Push p) st = post_batch (if length (fst st) < cap then fst st @ [p] else fst st, snd st)"
| "spec_send cap (Sent n) st = post_batch (fst st, [])"

fun spec_sends :: "nat \<Rightarrow> send_event list \<Rightarrow> sender \<Rightarrow> sender \<times> nat list list" where
  "spec_sends cap [] st = (st, [])"
| "spec_sends cap (e # es) st =
     (let (st1, bs1) = spec_send cap e st; (st2, bs2) = spec_sends cap es st1 in (st2, bs1 @ bs2))"

text \<open>A completion comes only for a send that is outstanding.\<close>

fun sendable :: "nat \<Rightarrow> send_event list \<Rightarrow> sender \<Rightarrow> bool" where
  "sendable cap [] st \<longleftrightarrow> True"
| "sendable cap (Push p # es) st \<longleftrightarrow> sendable cap es (fst (spec_send cap (Push p) st))"
| "sendable cap (Sent n # es) st \<longleftrightarrow> snd st \<noteq> [] \<and> sendable cap es (fst (spec_send cap (Sent n) st))"

text \<open>The packets that found room in the queue of \<open>cap\<close> entries when they were pushed.\<close>

fun taken :: "nat \<Rightarrow> send_event list \<Rightarrow> sender \<Rightarrow> nat list" where
  "taken cap [] st = []"
| "taken cap (Push p # es) st = (if length (fst st) < cap then [p] else []) @ taken cap es (fst (spec_send cap (Push p) st))"
| "taken cap (Sent n # es) st = taken cap es (fst (spec_send cap (Sent n) st))"

fun pushed :: "send_event list \<Rightarrow> nat list" where
  "pushed [] = []"
| "pushed (Push p # es) = p # pushed es"
| "pushed (Sent n # es) = pushed es"

fun completions :: "send_event list \<Rightarrow> nat" where
  "completions [] = 0"
| "completions (Push p # es) = completions es"
| "completions (Sent n # es) = Suc (completions es)"

text \<open>
  Packets leave in the order they were pushed, and a batch leaves only when the one before it is
  done.
\<close>

lemma post_batch_fifo:
  "post_batch st = (st', bs) \<Longrightarrow> concat bs @ fst st' = fst st \<and> (\<forall>b\<in>set bs. b \<noteq> [] \<and> length b \<le> 100) \<and>
     length bs + (if snd st \<noteq> [] then 1 else 0) = (if snd st' \<noteq> [] then 1 else 0)"
  by (auto simp: post_batch_def split: if_splits)

lemma spec_send_fifo:
  assumes "sendable cap (e # es) st" and "spec_send cap e st = (st', bs)"
  shows "concat bs @ fst st' = fst st @ taken cap [e] st \<and> (\<forall>b\<in>set bs. b \<noteq> [] \<and> length b \<le> 100) \<and>
    length bs + (if snd st \<noteq> [] then 1 else 0) = completions [e] + (if snd st' \<noteq> [] then 1 else 0)"
proof (cases e)
  case (Push p)
  with assms(2) have "post_batch (if length (fst st) < cap then fst st @ [p] else fst st, snd st) = (st', bs)" by simp
  from post_batch_fifo [OF this] show ?thesis by (simp add: Push)
next
  case (Sent n)
  with assms(2) have "post_batch (fst st, []) = (st', bs)" by simp
  from post_batch_fifo [OF this] assms(1) show ?thesis by (simp add: Sent)
qed

lemma taken_Cons: "taken cap (e # es) st = taken cap [e] st @ taken cap es (fst (spec_send cap e st))"
  by (cases e) simp_all

lemma completions_Cons: "completions (e # es) = completions [e] + completions es"
  by (cases e) simp_all

lemma sendable_Cons: "sendable cap (e # es) st \<Longrightarrow> sendable cap es (fst (spec_send cap e st))"
  by (cases e) simp_all

lemma spec_sends_fifo:
  "sendable cap es st \<Longrightarrow> spec_sends cap es st = (st', bs) \<Longrightarrow>
    concat bs @ fst st' = fst st @ taken cap es st \<and> (\<forall>b\<in>set bs. b \<noteq> [] \<and> length b \<le> 100) \<and>
    length bs + (if snd st \<noteq> [] then 1 else 0) = completions es + (if snd st' \<noteq> [] then 1 else 0)"
proof (induction es arbitrary: st bs)
  case (Cons e es)
  obtain st1 bs1 where 1: "spec_send cap e st = (st1, bs1)" by fastforce
  obtain bs2 where 2: "spec_sends cap es st1 = (st', bs2)" "bs = bs1 @ bs2"
    using Cons.prems(2) 1 by (auto split: prod.splits)
  have "sendable cap es st1" using sendable_Cons [OF Cons.prems(1)] 1 by simp
  note IH = Cons.IH [OF this 2(1)]
  note one = spec_send_fifo [OF Cons.prems(1) 1]
  have "concat bs @ fst st' = fst st @ taken cap (e # es) st"
    using one IH append_assoc unfolding taken_Cons [of cap e es] 1 2(2) fst_conv concat_append by metis
  then show ?case using one IH by (auto simp: 2(2) completions_Cons [of e es])
qed simp

lemma post_batch_length: "length (fst (fst (post_batch st))) \<le> length (fst st)"
  by (simp add: post_batch_def)

lemma taken_all: "length (fst st) + length (pushed es) \<le> cap \<Longrightarrow> taken cap es st = pushed es"
proof (induction es arbitrary: st)
  case (Cons e es)
  show ?case
  proof (cases e)
    case (Push p)
    have "length (fst (fst (spec_send cap (Push p) st))) \<le> Suc (length (fst st))"
      using post_batch_length [of "(if length (fst st) < cap then fst st @ [p] else fst st, snd st)"] by (auto split: if_splits)
    with Cons Push show ?thesis by (auto intro!: Cons.IH simp del: spec_send.simps)
  next
    case (Sent n)
    then show ?thesis using Cons.prems post_batch_length [of "(fst st, [])"] by (simp add: Cons.IH)
  qed
qed simp

section \<open>One session as a sender\<close>

definition sender_of :: "('q \<Rightarrow> nat list) \<Rightarrow> nat \<Rightarrow> ('q, 'a) srv \<Rightarrow> sender" where
  "sender_of content i s = (content (sendBuf (sess s i)), content (completeSendBuf (sess s i)))"

definition sending :: "nat \<Rightarrow> ('q, 'a) srv \<Rightarrow> int" where
  "sending i s = (if sendOverlap (sess s i) then 1 else 0)"

text \<open>
  A session in use is not released. \<open>isSendFlag\<close> is set and \<open>sendCount\<close> counts exactly the packets
  of the last send while it is not done; beside an outstanding send another I/O is outstanding.
\<close>

definition send_flags :: "('q \<Rightarrow> nat list) \<Rightarrow> nat \<Rightarrow> ('q, 'a) srv \<Rightarrow> bool" where
  "send_flags content i s \<longleftrightarrow>
     i < length (sessionArray s) \<and> \<not> isReleased (sess s i) \<and>
     isSendFlag (sess s i) = (content (completeSendBuf (sess s i)) \<noteq> []) \<and>
     (sendOverlap (sess s i) \<longrightarrow> content (completeSendBuf (sess s i)) \<noteq> []) \<and>
     sendCount (sess s i) = int (length (content (completeSendBuf (sess s i)))) \<and>
     0 \<notin> set (content (sendBuf (sess s i))) \<and> 0 \<notin> set (content (completeSendBuf (sess s i)))"

definition send_ok :: "('q \<Rightarrow> nat list) \<Rightarrow> nat \<Rightarrow> ('q, 'a) srv \<Rightarrow> bool" where
  "send_ok content i s \<longleftrightarrow> send_flags content i s \<and> ioCount (sess s i) \<ge> 1 + sending i s"

text \<open>What sending leaves alone.\<close>

definition send_frame :: "('q \<Rightarrow> nat list) \<Rightarrow> nat \<Rightarrow> ('q, 'a) srv \<Rightarrow> ('q, 'a) srv \<Rightarrow> bool" where
  "send_frame content i s s' \<longleftrightarrow>
     length (sessionArray s') = length (sessionArray s) \<and> (\<forall>j. j \<noteq> i \<longrightarrow> sess s' j = sess s j) \<and>
     sock (sess s' i) = sock (sess s i) \<and> sessionID (sess s' i) = sessionID (sess s i) \<and>
     recvBuf (sess s' i) = recvBuf (sess s i) \<and>
     ioCount (sess s' i) - sending i s' = ioCount (sess s i) - sending i s \<and>
     indexStack s' = indexStack s \<and> sessionCount s' = sessionCount s \<and> IOCPServer.more s' = IOCPServer.more s"

lemma send_frame_trans: "send_frame c i s t \<Longrightarrow> send_frame c i t u \<Longrightarrow> send_frame c i s u"
  by (simp add: send_frame_def)

text \<open>Bytes of packets: reference counts do not matter.\<close>

definition same_bytes :: "CPacket pool \<Rightarrow> CPacket pool \<Rightarrow> bool" where
  "same_bytes h h' \<longleftrightarrow> (\<forall>p. packet_bufs (pl_objs h' p) = packet_bufs (pl_objs h p) \<and>
     m_bIsEncoded (pl_objs h' p) = m_bIsEncoded (pl_objs h p))"

lemma same_bytes_refs [simp]:
  "same_bytes h (pkt_AddRef p h)" "same_bytes h (pkt_SubRef p h)" "same_bytes h h"
  by (simp_all add: same_bytes_def pkt_AddRef_def pkt_SubRef_def pool_upd_def pool_Free_def Let_def
      packet_bufs_def pkt_buf_def pkt_GetDataSize_def)

lemma same_bytes_trans: "same_bytes h h1 \<Longrightarrow> same_bytes h1 h2 \<Longrightarrow> same_bytes h h2"
  by (simp add: same_bytes_def)

definition batch_bufs :: "CPacket pool \<Rightarrow> nat list \<Rightarrow> byte list list" where
  "batch_bufs h b = concat (map (\<lambda>p. packet_bufs (pl_objs h p)) b)"

lemma same_bytes_batch: "same_bytes h h' \<Longrightarrow> batch_bufs h' = batch_bufs h"
  by (simp add: same_bytes_def batch_bufs_def fun_eq_iff)

lemma batch_bufs_wire: "concat (batch_bufs h b) = concat (map (\<lambda>p. pkt_wire (pl_objs h p)) b)"
  by (induction b) (simp_all add: batch_bufs_def packet_bufs_def pkt_wire_def)

lemma gather_loop_ok:
  assumes Q: "queue_laws cap content Q"
  shows "n \<le> 100 \<Longrightarrow> length wBuf = 2 * n \<Longrightarrow> 0 \<notin> set (content q) \<Longrightarrow> length (content cq) + (100 - n) \<le> cap \<Longrightarrow>
    \<exists>q' cq'. gather_loop Q h (int n) wBuf q cq =
        Some (int (n + length (take (100 - n) (content q))), wBuf @ batch_bufs h (take (100 - n) (content q)), q', cq') \<and>
      content q' = drop (100 - n) (content q) \<and> content cq' = content cq @ take (100 - n) (content q)"
proof (induction "100 - n" arbitrary: n wBuf q cq)
  case 0
  then have "n = 100" by simp
  with 0 show ?case by (subst gather_loop.simps) (simp add: batch_bufs_def)
next
  case (Suc k)
  then have n: "n < 100" "100 - n = Suc k" by simp_all
  then have guard: "int n < 100 \<and> length wBuf + 2 \<le> 200" using Suc.prems(2) by simp
  show ?case
  proof (cases "content q")
    case Nil
    with queue_pop_Nil [OF Q this] guard show ?thesis by (subst gather_loop.simps) (simp add: batch_bufs_def)
  next
    case (Cons p ps)
    from queue_pop_Cons [OF Q Cons] obtain q1 where q1: "q_pop Q q = Some (p, q1)" "content q1 = ps" by blast
    have p: "p \<noteq> 0" "0 \<notin> set (content q1)" using Suc.prems(3) Cons q1(2) by auto
    let ?c1 = "fst (q_push Q p cq)"
    have c1: "content ?c1 = content cq @ [p]" using Suc.prems(4) n by (simp add: queue_push [OF Q])
    have k: "k = 100 - Suc n" using n by simp
    have 1: "Suc n \<le> 100" "length (wBuf @ packet_bufs (pl_objs h p)) = 2 * Suc n"
      "length (content ?c1) + (100 - Suc n) \<le> cap"
      using Suc.prems n c1 by (simp_all add: packet_bufs_def)
    from Suc.hyps(1) [OF k 1(1,2) p(2) 1(3)] obtain q' cq'
      where "gather_loop Q h (int (Suc n)) (wBuf @ packet_bufs (pl_objs h p)) q1 ?c1 =
          Some (int (Suc n + length (take (100 - Suc n) ps)),
            (wBuf @ packet_bufs (pl_objs h p)) @ batch_bufs h (take (100 - Suc n) ps), q', cq')"
        "content q' = drop (100 - Suc n) ps" "content cq' = content ?c1 @ take (100 - Suc n) ps"
      unfolding q1(2) by blast
    moreover have "gather_loop Q h (int n) wBuf q cq = gather_loop Q h (int (Suc n)) (wBuf @ packet_bufs (pl_objs h p)) q1 ?c1"
      using guard q1(1) p(1) by (subst gather_loop.simps) (simp add: algebra_simps)
    ultimately show ?thesis
      using Cons c1 n k by (simp add: batch_bufs_def)
  qed
qed

section \<open>The operations refine the abstract sender\<close>

text \<open>The batches of the abstract sender are the calls of \<open>WSASend\<close>.\<close>

definition sent_by :: "('q \<Rightarrow> nat list) \<Rightarrow> nat \<Rightarrow> ('q, 'a) srv \<Rightarrow> nat list list \<Rightarrow> ('q, 'a) srv \<Rightarrow> bool" where
  "sent_by content i s bs s' \<longleftrightarrow>
     send_flags content i s' \<and> send_frame content i s s' \<and> same_bytes (packets s) (packets s') \<and>
     os_calls s' = os_calls s @ map (\<lambda>b. OsSend (sock (sess s i)) (batch_bufs (packets s) b)) bs"

lemma sent_by_trans:
  "sent_by c i s bs t \<Longrightarrow> sent_by c i t bs' u \<Longrightarrow> sent_by c i s (bs @ bs') u"
  by (auto simp: sent_by_def same_bytes_batch dest: send_frame_trans same_bytes_trans) (simp add: send_frame_def)

text \<open>
  A batch is handed over whatever \<open>WSASend\<close> answers; when it refuses, the session keeps its other pending operation
  and with it its place.
\<close>

lemma PostSend_refines:
  assumes Q: "queue_laws cap content Q" and cap: "100 \<le> cap" and ok: "send_flags content i s"
    and io: "1 \<le> ioCount (sess s i)"
  shows "\<exists>b s' bs. PostSend W Q leave i s = Inr (b, s') \<and>
    post_batch (sender_of content i s) = (sender_of content i s', bs) \<and> sent_by content i s bs s' \<and>
    sendOverlap (sess s' i) = (sendOverlap (sess s i) \<or> bs \<noteq> [] \<and> os_WSASend W (now s) \<noteq> IoError)"
proof (cases "content (completeSendBuf (sess s i)) = []")
  case False
  then have "PostSend W Q leave i s = Inr (False, s)" using ok by (simp add: PostSend_def send_flags_def)
  moreover have "sent_by content i s [] s" using ok by (simp add: sent_by_def send_frame_def)
  ultimately show ?thesis using False by (auto simp: sender_of_def post_batch_def)
next
  case True
  let ?x = "sess s i"
  have i: "i < length (sessionArray s)" and f: "\<not> isSendFlag ?x" "0 \<notin> set (content (sendBuf ?x))" "\<not> isReleased ?x"
    "sendCount ?x = 0" "\<not> sendOverlap ?x"
    using ok True by (simp_all add: send_flags_def)
  have w0: "length ([] :: byte list list) = 2 * 0" "(0 :: nat) \<le> 100"
    "length (content (completeSendBuf ?x)) + (100 - 0) \<le> cap" using True cap by simp_all
  from gather_loop_ok [OF Q w0(2,1) f(2) w0(3), of "packets s"] True obtain q' cq' where
    g: "gather_loop Q (packets s) 0 [] (sendBuf ?x) (completeSendBuf ?x) =
        Some (int (length (take 100 (content (sendBuf ?x)))), batch_bufs (packets s) (take 100 (content (sendBuf ?x))), q', cq')"
      "content q' = drop 100 (content (sendBuf ?x))" "content cq' = take 100 (content (sendBuf ?x))"
    by auto
  show ?thesis
  proof (cases "content (sendBuf ?x) = []")
    case e: True
    define s' where "s' = set_sess i (\<lambda>x. x\<lparr>isSendFlag := False\<rparr>)
      (set_sess i (\<lambda>x. x\<lparr>sendBuf := q', completeSendBuf := cq'\<rparr>) (set_sess i (\<lambda>x. x\<lparr>isSendFlag := True\<rparr>) s))"
    have "PostSend W Q leave i s = Inr (False, s')"
      using f g e i by (simp add: PostSend_def Let_def s'_def)
    moreover have "sess s' i = ?x\<lparr>isSendFlag := False, sendBuf := q', completeSendBuf := cq'\<rparr>"
      using i by (simp add: s'_def)
    ultimately show ?thesis
      using g e f i True
      by (auto simp: sender_of_def post_batch_def sent_by_def send_frame_def send_flags_def sending_def)
        (simp_all add: s'_def)
  next
    case e: False
    let ?b = "take 100 (content (sendBuf ?x))"
    let ?ok = "os_WSASend W (now s) \<noteq> IoError"
    define s4 where "s4 = tick (add_call (OsSend (sock ?x) (batch_bufs (packets s) ?b))
      (set_sess i (\<lambda>x. x\<lparr>sendCount := int (length ?b), ioCount := ioCount x + 1\<rparr>)
      (set_sess i (\<lambda>x. x\<lparr>sendBuf := q', completeSendBuf := cq'\<rparr>) (set_sess i (\<lambda>x. x\<lparr>isSendFlag := True\<rparr>) s))))"
    have x4: "sess s4 i = ?x\<lparr>isSendFlag := True, sendBuf := q', completeSendBuf := cq', sendCount := int (length ?b),
        ioCount := ioCount ?x + 1\<rparr>" and i4: "i < length (sessionArray s4)"
      using i by (simp_all add: s4_def del: length_take)
    define s' where "s' = (if ?ok then set_sess i (\<lambda>x. x\<lparr>sendOverlap := True\<rparr>) s4
      else set_sess i (\<lambda>x. x\<lparr>ioCount := ioCount x - 1\<rparr>) s4)"
    have b: "?b \<noteq> []" using e by simp
    have b0: "length ?b \<noteq> 0" unfolding length_0_conv by (rule b)
    have x: "sess s' i = ?x\<lparr>isSendFlag := True, sendBuf := q', completeSendBuf := cq', sendCount := int (length ?b),
        ioCount := ioCount ?x + (if ?ok then 1 else 0), sendOverlap := ?ok\<rparr>"
      using i4 x4 f(5) by (simp add: s'_def)
    have "PostSend W Q leave i s = Inr (True, s')"
      using f(1) i b0 io x4 i4
      by (simp add: PostSend_def Let_def g(1) s'_def s4_def [symmetric] del: length_take)
    moreover have "sent_by content i s [?b] s'"
    proof -
      have "sess s' j = sess s j" if "j \<noteq> i" for j using that by (simp add: s'_def s4_def sess_def set_sess_def add_call_def tick_def)
      moreover have "os_calls s' = os_calls s @ [OsSend (sock ?x) (batch_bufs (packets s) ?b)]" "packets s' = packets s"
        "length (sessionArray s') = length (sessionArray s)" "indexStack s' = indexStack s" "sessionCount s' = sessionCount s"
        "IOCPServer.more s' = IOCPServer.more s"
        by (simp_all add: s'_def s4_def)
      ultimately show ?thesis
        using g(2,3) b f i True unfolding sent_by_def send_frame_def send_flags_def sending_def x
        by (auto dest: in_set_takeD in_set_dropD)
    qed
    moreover have "post_batch (sender_of content i s) = (sender_of content i s', [?b])"
      using g(2,3) e True by (simp add: sender_of_def post_batch_def x)
    moreover have "sendOverlap (sess s' i) = (sendOverlap ?x \<or> [?b] \<noteq> [] \<and> ?ok)" using f(5) by (simp add: x)
    ultimately show ?thesis by blast
  qed
qed

text \<open>\<open>SendPacket\<close> of an encoded packet to a session in use.\<close>

lemma SendPacket_refines:
  assumes Q: "queue_laws cap content Q" and cap: "100 \<le> cap" and ok: "send_ok content i s"
    and sid: "unat (GET_SESSION_INDEX sid) = i" "sessionID (sess s i) = sid"
    and p: "p \<noteq> 0" "m_bIsEncoded (pl_objs (packets s) p)"
  shows "\<exists>s' bs. SendPacket W Q leave sid p s = Inr s' \<and> spec_send cap (Push p) (sender_of content i s) = (sender_of content i s', bs) \<and>
    sent_by content i s bs s' \<and> send_ok content i s' \<and>
    sendOverlap (sess s' i) = (sendOverlap (sess s i) \<or> bs \<noteq> [] \<and> os_WSASend W (now s + 1) \<noteq> IoError)"
proof -
  let ?x = "sess s i" and ?h = "pkt_AddRef p (packets s)"
  have fl: "send_flags content i s" and i: "i < length (sessionArray s)" and io: "ioCount ?x \<ge> 1 + sending i s"
    and nr: "\<not> isReleased ?x"
    using ok by (simp_all add: send_ok_def send_flags_def)
  have enc: "pkt_SetEncodingCode r (pl_objs ?h p) = Inr (pl_objs ?h p)" for r
    using p(2) same_bytes_refs(1) [of "packets s" p] by (simp add: pkt_SetEncodingCode_def same_bytes_def)
  have idu: "pool_upd p (\<lambda>_. pl_objs ?h p) ?h = ?h" by (simp add: pool_upd_def)
  define s3 where "s3 = set_sess i (\<lambda>x. x\<lparr>sendBuf := fst (q_push Q p (sendBuf x))\<rparr>)
    (tick ((set_sess i (\<lambda>x. x\<lparr>ioCount := ioCount x + 1\<rparr>) s)\<lparr>packets := ?h\<rparr>))"
  have x3: "sess s3 i = ?x\<lparr>ioCount := ioCount ?x + 1, sendBuf := fst (q_push Q p (sendBuf ?x))\<rparr>"
    using i by (simp add: s3_def)
  have c3: "content (sendBuf (sess s3 i)) = (if length (content (sendBuf ?x)) < cap then content (sendBuf ?x) @ [p] else content (sendBuf ?x))"
    by (simp add: x3 queue_push [OF Q])
  have fl3: "send_flags content i s3"
    using fl p(1) i by (auto simp: send_flags_def c3) (auto simp: x3 s3_def)
  have io3: "1 \<le> ioCount (sess s3 i)" using io by (auto simp: x3 sending_def split: if_splits)
  from PostSend_refines [OF Q cap fl3 io3, of W leave] obtain b s4 bs where
    s4: "PostSend W Q leave i s3 = Inr (b, s4)" "post_batch (sender_of content i s3) = (sender_of content i s4, bs)"
      "sent_by content i s3 bs s4" "sendOverlap (sess s4 i) = (sendOverlap (sess s3 i) \<or> bs \<noteq> [] \<and> os_WSASend W (now s3) \<noteq> IoError)"
    by blast
  define s5 where "s5 = set_sess i (\<lambda>x. x\<lparr>ioCount := ioCount x - 1\<rparr>) s4"
  have i4: "i < length (sessionArray s4)" using s4(3) by (simp add: sent_by_def send_flags_def)
  have x5: "sess s5 i = (sess s4 i)\<lparr>ioCount := ioCount (sess s4 i) - 1\<rparr>" using i4 by (simp add: s5_def)
  have pos: "0 < sending i s4 + ioCount ?x - sending i s" "0 \<le> sending i s4"
    using io by (auto simp: sending_def split: if_splits)
  have io5: "ioCount (sess s5 i) = sending i s4 + ioCount ?x - sending i s"
    using s4(3) by (simp add: x5 sent_by_def send_frame_def x3 sending_def)
  have "SendPacket W Q leave sid p s = Inr s5"
  proof -
    let ?s1 = "set_sess i (\<lambda>x. x\<lparr>ioCount := ioCount x + 1\<rparr>) s"
    have "SessionLock Q leave sid s = Inr (Some i, ?s1)"
      using i sid nr by (simp add: SessionLock_def Let_def)
    moreover have "on_packet p (pkt_SetEncodingCode r) (?s1\<lparr>packets := ?h\<rparr>) = Inr (?s1\<lparr>packets := ?h\<rparr>)" for r
      by (simp add: on_packet_def enc idu)
    moreover have "\<not> isReleased (sess s3 i)" using nr by (simp add: x3)
    moreover have "SessionUnLock Q leave i s4 = Inr s5"
      using io5 pos(1) by (simp add: SessionUnLock_def io_done_def Let_def s5_def [symmetric])
    ultimately show ?thesis using s4(1) by (simp add: SendPacket_def Let_def s3_def [symmetric])
  qed
  moreover have so: "sender_of content i s5 = sender_of content i s4" "sending i s5 = sending i s4"
    by (simp_all add: sender_of_def sending_def x5)
  moreover have "sender_of content i s3 = (if length (fst (sender_of content i s)) < cap then fst (sender_of content i s) @ [p]
      else fst (sender_of content i s), snd (sender_of content i s))"
    using c3 by (simp add: sender_of_def x3)
  moreover have "sendOverlap (sess s5 i) = (sendOverlap ?x \<or> bs \<noteq> [] \<and> os_WSASend W (now s + 1) \<noteq> IoError)"
    using s4(4) by (simp add: x5 x3) (simp add: s3_def)
  moreover have "sent_by content i s bs s5"
  proof -
    have "send_flags content i s5" using s4(3) i4 by (simp add: sent_by_def send_flags_def x5) (simp add: s5_def)
    moreover have "send_frame content i s s5"
      using s4(3) io5 so(2) i i4 unfolding sent_by_def send_frame_def by (simp add: x3 x5) (simp add: s3_def s5_def)
    moreover have "same_bytes (packets s) (packets s5)"
      using s4(3) same_bytes_trans [OF same_bytes_refs(1) [of "packets s" p]] by (simp add: sent_by_def s3_def s5_def)
    moreover have "os_calls s5 = os_calls s @ map (\<lambda>b. OsSend (sock ?x) (batch_bufs (packets s) b)) bs"
      using s4(3) same_bytes_batch [OF same_bytes_refs(1) [of "packets s" p]]
      by (simp add: sent_by_def s5_def x3) (simp add: s3_def)
    ultimately show ?thesis by (simp add: sent_by_def)
  qed
  moreover have "send_ok content i s5"
    using \<open>sent_by content i s bs s5\<close> io io5 so(2) by (simp add: send_ok_def sent_by_def)
  ultimately show ?thesis using s4(2) by auto
qed

text \<open>A send that is done: its packets are dropped and the next batch leaves.\<close>

lemma complete_loop_ok:
  assumes Q: "queue_laws cap content Q"
  shows "i < length (sessionArray s) \<Longrightarrow> 0 \<notin> set (content (completeSendBuf (sess s i))) \<Longrightarrow>
    length (content (completeSendBuf (sess s i))) = k \<Longrightarrow>
    \<exists>cq n. content cq = [] \<and> complete_loop Q leave i k s =
      Inr ((set_sess i (\<lambda>x. x\<lparr>completeSendBuf := cq\<rparr>) s)
        \<lparr>packets := fold pkt_SubRef (content (completeSendBuf (sess s i))) (packets s), sendTPS := n\<rparr>)"
proof (induction k arbitrary: s)
  case 0
  have "set_sess i (\<lambda>x. x\<lparr>completeSendBuf := completeSendBuf (sess s i)\<rparr>) s = s"
    by (rule set_sess_idle) (use 0 in simp_all)
  with 0 show ?case by (intro exI [of _ "completeSendBuf (sess s i)"] exI [of _ "sendTPS s"]) simp
next
  case (Suc k)
  then obtain p ps where c: "content (completeSendBuf (sess s i)) = p # ps"
    by (cases "content (completeSendBuf (sess s i))") auto
  from queue_pop_Cons [OF Q c] obtain q where q: "q_pop Q (completeSendBuf (sess s i)) = Some (p, q)" "content q = ps" by blast
  define s1 where "s1 = (set_sess i (\<lambda>x. x\<lparr>completeSendBuf := q\<rparr>) s)
    \<lparr>packets := pkt_SubRef p (packets s), sendTPS := low_increment (sendTPS s)\<rparr>"
  have x1: "sess s1 i = (sess s i)\<lparr>completeSendBuf := q\<rparr>" and i1: "i < length (sessionArray s1)"
    using Suc.prems(1) by (simp_all add: s1_def sess_def set_sess_def)
  from Suc.IH [OF i1] Suc.prems(2,3) c obtain cq n where cq: "content cq = []" "complete_loop Q leave i k s1 =
      Inr ((set_sess i (\<lambda>x. x\<lparr>completeSendBuf := cq\<rparr>) s1)\<lparr>packets := fold pkt_SubRef ps (packets s1), sendTPS := n\<rparr>)"
    by (auto simp: x1 q(2))
  moreover have "complete_loop Q leave i (Suc k) s = complete_loop Q leave i k s1"
    using q(1) c Suc.prems(2) by (simp add: s1_def set_sess_def)
  moreover have "(set_sess i (\<lambda>x. x\<lparr>completeSendBuf := cq\<rparr>) s1)\<lparr>packets := fold pkt_SubRef ps (packets s1), sendTPS := n\<rparr> =
      (set_sess i (\<lambda>x. x\<lparr>completeSendBuf := cq\<rparr>) s)\<lparr>packets := fold pkt_SubRef (p # ps) (packets s), sendTPS := n\<rparr>"
    using Suc.prems(1) by (simp add: s1_def set_sess_def)
  ultimately show ?case unfolding c by metis
qed

lemma same_bytes_SubRefs [simp]: "same_bytes h (fold pkt_SubRef ps h)"
proof (induction ps arbitrary: h)
  case (Cons p ps)
  have "same_bytes h (pkt_SubRef p h)" "same_bytes (pkt_SubRef p h) (fold pkt_SubRef ps (pkt_SubRef p h))"
    using Cons by simp_all
  then show ?case by (metis fold_simps(2) same_bytes_trans)
qed simp

lemma SendDone_refines:
  assumes Q: "queue_laws cap content Q" and cap: "100 \<le> cap" and ok: "send_ok content i s"
    and n: "0 < n" and pend: "sendOverlap (sess s i)"
  shows "\<exists>s' bs. worker_step W Q leave recv i (SendDone n) s = Inr s' \<and>
    spec_send cap (Sent n) (sender_of content i s) = (sender_of content i s', bs) \<and>
    sent_by content i s bs s' \<and> send_ok content i s'"
proof -
  let ?x = "sess s i" and ?f = "content (completeSendBuf (sess s i))"
  have i: "i < length (sessionArray s)" and io: "ioCount ?x \<ge> 2" and nr: "\<not> isReleased ?x" and cnt: "sendCount ?x = int (length ?f)"
    and nz: "0 \<notin> set ?f" "0 \<notin> set (content (sendBuf ?x))"
    using ok pend by (auto simp: send_ok_def send_flags_def sending_def)
  define s1 where "s1 = set_sess i (\<lambda>x. x\<lparr>sendCount := 0\<rparr>) (set_sess i (\<lambda>x. x\<lparr>sendOverlap := False\<rparr>) s)"
  have x1: "sess s1 i = ?x\<lparr>sendOverlap := False, sendCount := 0\<rparr>" "i < length (sessionArray s1)" using i by (simp_all add: s1_def)
  from complete_loop_ok [OF Q x1(2), of "length ?f" leave] nz(1) obtain cq tps where
    cq: "content cq = []" "complete_loop Q leave i (length ?f) s1 = Inr ((set_sess i (\<lambda>x. x\<lparr>completeSendBuf := cq\<rparr>) s1)
        \<lparr>packets := fold pkt_SubRef ?f (packets s), sendTPS := tps\<rparr>)"
    by (auto simp: x1(1)) (simp add: s1_def)
  define s3 where "s3 = set_sess i (\<lambda>x. x\<lparr>isSendFlag := False\<rparr>)
    ((set_sess i (\<lambda>x. x\<lparr>completeSendBuf := cq\<rparr>) s1)\<lparr>packets := fold pkt_SubRef ?f (packets s), sendTPS := tps\<rparr>)"
  have x3: "sess s3 i = ?x\<lparr>sendOverlap := False, sendCount := 0, completeSendBuf := cq, isSendFlag := False\<rparr>"
    using x1 by (simp add: s3_def)
  have fl3: "send_flags content i s3"
    using nr nz cq(1) i by (simp add: send_flags_def x3) (simp add: s3_def s1_def)
  have io3: "1 \<le> ioCount (sess s3 i)" using io by (simp add: x3)
  from PostSend_refines [OF Q cap fl3 io3, of W leave] obtain b s4 bs where
    s4: "PostSend W Q leave i s3 = Inr (b, s4)" "post_batch (sender_of content i s3) = (sender_of content i s4, bs)"
      "sent_by content i s3 bs s4" by blast
  define s5 where "s5 = set_sess i (\<lambda>x. x\<lparr>ioCount := ioCount x - 1\<rparr>) s4"
  have i4: "i < length (sessionArray s4)" using s4(3) by (simp add: sent_by_def send_flags_def)
  have x5: "sess s5 i = (sess s4 i)\<lparr>ioCount := ioCount (sess s4 i) - 1\<rparr>" using i4 by (simp add: s5_def)
  have io5: "ioCount (sess s5 i) = ioCount ?x - 1 + sending i s4"
    using s4(3) cq(1) by (simp add: x5 sent_by_def send_frame_def x3 sending_def)
  have s5eq: "s4\<lparr>sessionArray := (sessionArray s4)[i := (sessionArray s4 ! i)\<lparr>ioCount := ioCount (sessionArray s4 ! i) - 1\<rparr>]\<rparr> = s5"
    by (simp add: s5_def set_sess_def)
  have pos: "ioCount (sess s5 i) \<noteq> 0" using io io5 by (simp add: sending_def)
  have "SendComplete W Q leave i n (set_sess i (\<lambda>x. x\<lparr>sendOverlap := False\<rparr>) s) = Inr s4"
    using n cnt i nr by (simp add: SendComplete_def Let_def s1_def [symmetric] cq(2) s3_def [symmetric] x3 s4(1))
  then have "worker_step W Q leave recv i (SendDone n) s = Inr s5"
    using pos by (simp add: worker_step_def io_done_def Let_def s5_def [symmetric])
  moreover have so: "sender_of content i s5 = sender_of content i s4" "sending i s5 = sending i s4"
    by (simp_all add: sender_of_def sending_def x5)
  moreover have "sender_of content i s3 = (fst (sender_of content i s), [])"
    using cq(1) by (simp add: sender_of_def x3)
  moreover have "sent_by content i s bs s5"
  proof -
    have "send_flags content i s5" using s4(3) i4 by (simp add: sent_by_def send_flags_def x5) (simp add: s5_def)
    moreover have "send_frame content i s s5"
      using s4(3) io5 so(2) i i4 pend unfolding sent_by_def send_frame_def
      by (simp add: x3 x5) (simp add: s3_def s5_def s1_def sending_def)
    moreover have "same_bytes (packets s) (packets s5)"
      using s4(3) same_bytes_trans [OF same_bytes_SubRefs [of "packets s" ?f]] by (simp add: sent_by_def s3_def s5_def)
    moreover have "os_calls s5 = os_calls s @ map (\<lambda>b. OsSend (sock ?x) (batch_bufs (packets s) b)) bs"
      using s4(3) same_bytes_batch [OF same_bytes_SubRefs [of "packets s" ?f]]
      by (simp add: sent_by_def s5_def x3) (simp add: s3_def s1_def)
    ultimately show ?thesis by (simp add: sent_by_def)
  qed
  moreover have "send_ok content i s5"
    using \<open>sent_by content i s bs s5\<close> io io5 so(2) by (simp add: send_ok_def sent_by_def)
  ultimately show ?thesis using s4(2) by auto
qed

section \<open>A session over time\<close>

text \<open>
  Packets are pushed at will; the completion port reports a send only when one is outstanding, and here with some
  bytes, so another report is skipped. The run returns what happened.
\<close>

fun send_run ::
  "os \<Rightarrow> (nat, 'q) queue_ops \<Rightarrow> ('q, 'a) leave \<Rightarrow> ('q, 'a) recv \<Rightarrow> UINT64 \<Rightarrow> send_event list \<Rightarrow> ('q, 'a) srv \<Rightarrow>
   (send_event list \<times> ('q, 'a) srv) res" where
  "send_run W Q leave recv sid [] s = Inr ([], s)"
| "send_run W Q leave recv sid (Push p # es) s =
     andThen (SendPacket W Q leave sid p s) (\<lambda>s1. andThen (send_run W Q leave recv sid es s1) (\<lambda>(es', s2). Inr (Push p # es', s2)))"
| "send_run W Q leave recv sid (Sent n # es) s =
     (let i = unat (GET_SESSION_INDEX sid)
      in if n = 0 \<or> \<not> sendOverlap (sess s i) then send_run W Q leave recv sid es s
         else andThen (worker_step W Q leave recv i (SendDone n) s) (\<lambda>s1.
              andThen (send_run W Q leave recv sid es s1) (\<lambda>(es', s2). Inr (Sent n # es', s2))))"

text \<open>After a refused send nothing leaves; when every send is refused none is ever done.\<close>

definition refusals :: "os \<Rightarrow> nat \<Rightarrow> ('q, 'a) srv \<Rightarrow> send_event list \<Rightarrow> nat list list \<Rightarrow> ('q, 'a) srv \<Rightarrow> bool" where
  "refusals W i s es bs s' \<longleftrightarrow>
     (isSendFlag (sess s i) \<and> \<not> sendOverlap (sess s i) \<longrightarrow> bs = [] \<and> isSendFlag (sess s' i) \<and> \<not> sendOverlap (sess s' i)) \<and>
     ((\<forall>n. os_WSASend W n = IoError) \<and> \<not> sendOverlap (sess s i) \<longrightarrow> completions es = 0 \<and> \<not> sendOverlap (sess s' i))"

lemma flag_of_sender: "send_ok content i s \<Longrightarrow> isSendFlag (sess s i) = (snd (sender_of content i s) \<noteq> [])"
  by (simp add: send_ok_def send_flags_def sender_of_def)

lemma refusals_push:
  assumes "send_ok content i s" "send_ok content i s1" "spec_send cap (Push p) (sender_of content i s) = (sender_of content i s1, bs)"
    and "sendOverlap (sess s1 i) = (sendOverlap (sess s i) \<or> bs \<noteq> [] \<and> os_WSASend W n \<noteq> IoError)"
    and "refusals W i s1 es bs' s'"
  shows "refusals W i s (Push p # es) (bs @ bs') s'"
proof -
  have "snd (sender_of content i s) \<noteq> [] \<Longrightarrow> bs = [] \<and> snd (sender_of content i s1) = snd (sender_of content i s)"
    using assms(3) unfolding spec_send.simps by (simp only: post_batch_def fst_conv snd_conv) (metis prod.inject snd_conv)
  then have "isSendFlag (sess s i) \<Longrightarrow> bs = [] \<and> isSendFlag (sess s1 i)"
    using flag_of_sender [OF assms(1)] flag_of_sender [OF assms(2)] by simp
  with assms(4,5) show ?thesis by (auto simp: refusals_def)
qed

lemma send_run_refines:
  assumes Q: "queue_laws cap content Q" and cap: "100 \<le> cap" and i: "i = unat (GET_SESSION_INDEX sid)"
  shows "send_ok content i s \<Longrightarrow> sessionID (sess s i) = sid \<Longrightarrow>
    \<forall>p\<in>set (pushed es). p \<noteq> 0 \<and> m_bIsEncoded (pl_objs (packets s) p) \<Longrightarrow>
    \<exists>es' s' bs. send_run W Q leave recv sid es s = Inr (es', s') \<and> pushed es' = pushed es \<and> sendable cap es' (sender_of content i s) \<and>
      spec_sends cap es' (sender_of content i s) = (sender_of content i s', bs) \<and> sent_by content i s bs s' \<and> send_ok content i s' \<and>
      refusals W i s es' bs s'"
proof (induction es arbitrary: s)
  case Nil
  then show ?case by (simp add: sent_by_def send_frame_def send_ok_def refusals_def)
next
  case (Cons e es)
  have rest: "\<exists>es' s' bs'. send_run W Q leave recv sid es s1 = Inr (es', s') \<and> pushed es' = pushed es \<and>
      sendable cap es' (sender_of content i s1) \<and> spec_sends cap es' (sender_of content i s1) = (sender_of content i s', bs') \<and>
      sent_by content i s (bs @ bs') s' \<and> send_ok content i s' \<and> refusals W i s1 es' bs' s'"
    if "sent_by content i s bs s1" "send_ok content i s1" for s1 bs
  proof -
    have "sessionID (sess s1 i) = sid" using that(1) Cons.prems(2) by (simp add: sent_by_def send_frame_def)
    moreover have "\<forall>p\<in>set (pushed es). p \<noteq> 0 \<and> m_bIsEncoded (pl_objs (packets s1) p)"
      using Cons.prems(3) that(1) by (cases e) (auto simp: sent_by_def same_bytes_def)
    ultimately show ?thesis using Cons.IH [OF that(2)] sent_by_trans [OF that(1)] by blast
  qed
  show ?case
  proof (cases e)
    case (Push p)
    have "p \<noteq> 0" "m_bIsEncoded (pl_objs (packets s) p)" using Cons.prems(3) by (simp_all add: Push)
    from SendPacket_refines [OF Q cap Cons.prems(1) i [symmetric] Cons.prems(2) this, of W leave] obtain s1 bs where
      s1: "SendPacket W Q leave sid p s = Inr s1" "spec_send cap (Push p) (sender_of content i s) = (sender_of content i s1, bs)"
        "sent_by content i s bs s1" "send_ok content i s1"
        "sendOverlap (sess s1 i) = (sendOverlap (sess s i) \<or> bs \<noteq> [] \<and> os_WSASend W (now s + 1) \<noteq> IoError)" by blast
    from rest [OF s1(3,4)] obtain es' s' bs' where
      r: "send_run W Q leave recv sid es s1 = Inr (es', s')" "pushed es' = pushed es" "sendable cap es' (sender_of content i s1)"
        "spec_sends cap es' (sender_of content i s1) = (sender_of content i s', bs')" "sent_by content i s (bs @ bs') s'"
        "send_ok content i s'" "refusals W i s1 es' bs' s'" by blast
    note refusals_push [OF Cons.prems(1) s1(4,2,5) r(7)]
    then show ?thesis
      using s1(1,2) r by (intro exI [of _ "Push p # es'"] exI [of _ s'] exI [of _ "bs @ bs'"]) (simp add: Push)
  next
    case (Sent n)
    show ?thesis
    proof (cases "n = 0 \<or> \<not> sendOverlap (sess s i)")
      case True
      have "send_run W Q leave recv sid (e # es) s = send_run W Q leave recv sid es s" using True by (simp add: Sent i)
      moreover have "pushed (e # es) = pushed es" by (simp add: Sent)
      ultimately show ?thesis using Cons.IH [OF Cons.prems(1,2)] Cons.prems(3) by simp
    next
      case False
      then have n: "0 < n" "sendOverlap (sess s i)" by simp_all
      from SendDone_refines [OF Q cap Cons.prems(1) n, of W leave recv] obtain s1 bs where
        s1: "worker_step W Q leave recv i (SendDone n) s = Inr s1"
          "spec_send cap (Sent n) (sender_of content i s) = (sender_of content i s1, bs)" "sent_by content i s bs s1" "send_ok content i s1"
        by blast
      from rest [OF s1(3,4)] obtain es' s' bs' where
        r: "send_run W Q leave recv sid es s1 = Inr (es', s')" "pushed es' = pushed es" "sendable cap es' (sender_of content i s1)"
          "spec_sends cap es' (sender_of content i s1) = (sender_of content i s', bs')" "sent_by content i s (bs @ bs') s'"
          "send_ok content i s'" by blast
      have "isSendFlag (sess s i)" using Cons.prems(1) n(2) by (simp add: send_ok_def send_flags_def)
      then have out: "snd (sender_of content i s) \<noteq> []" using flag_of_sender [OF Cons.prems(1)] by simp
      have "send_run W Q leave recv sid (e # es) s = Inr (Sent n # es', s')"
        using n s1(1) r(1) by (simp add: Sent i)
      moreover have "refusals W i s (Sent n # es') (bs @ bs') s'" using n(2) by (simp add: refusals_def)
      ultimately show ?thesis
        using s1(2) r(2-6) out by (intro exI [of _ "Sent n # es'"] exI [of _ s'] exI [of _ "bs @ bs'"]) (simp add: Sent)
    qed
  qed
qed

text \<open>
  C6. Sending refines a queue of batches. Take a session in use with an operation pending beside the send, encoded
  packets that handlers hand to \<open>SendPacket\<close> and completions of its sends with at least one byte, in any sequence and
  whatever \<open>WSASend\<close> answers. Nothing fails, and every packet that finds room among the 4096 of the queue leaves in the
  order they were handed over - only one that finds the queue full is dropped - in batches of 1 to 100 packets whose
  buffers are their frames, and a batch leaves only when the one before it is done. After a batch that \<open>WSASend\<close> refuses nothing
  leaves on the session any more.
\<close>

theorem send_stream:
  assumes "queue_laws cap content Q" and "100 \<le> cap"
    and "i = unat (GET_SESSION_INDEX sid)" and "send_ok content i s" and "sessionID (sess s i) = sid"
    and "\<forall>p\<in>set (pushed es). p \<noteq> 0 \<and> m_bIsEncoded (pl_objs (packets s) p)"
  shows "\<exists>es' s' batches. send_run W Q leave recv sid es s = Inr (es', s') \<and> send_ok content i s' \<and> pushed es' = pushed es \<and>
    concat batches @ content (sendBuf (sess s' i)) = content (sendBuf (sess s i)) @ taken cap es' (sender_of content i s) \<and>
    (length (content (sendBuf (sess s i))) + length (pushed es) \<le> cap \<longrightarrow> taken cap es' (sender_of content i s) = pushed es) \<and>
    (\<forall>b\<in>set batches. b \<noteq> [] \<and> length b \<le> 100) \<and>
    os_calls s' = os_calls s @ map (\<lambda>b. OsSend (sock (sess s i)) (concat (map (\<lambda>p. packet_bufs (pl_objs (packets s) p)) b))) batches \<and>
    length batches + (if isSendFlag (sess s i) then 1 else 0) = completions es' + (if isSendFlag (sess s' i) then 1 else 0) \<and>
    refusals W i s es' batches s'"
proof -
  from send_run_refines [OF assms(1-6)] obtain es' s' bs where r: "send_run W Q leave recv sid es s = Inr (es', s')"
    "pushed es' = pushed es" "sendable cap es' (sender_of content i s)"
    "spec_sends cap es' (sender_of content i s) = (sender_of content i s', bs)" "sent_by content i s bs s'" "send_ok content i s'"
    "refusals W i s es' bs s'" by blast
  note fifo = spec_sends_fifo [OF r(3,4), folded flag_of_sender [OF assms(4)] flag_of_sender [OF r(6)]]
  have "length (content (sendBuf (sess s i))) + length (pushed es) \<le> cap \<longrightarrow> taken cap es' (sender_of content i s) = pushed es"
    using taken_all [of "sender_of content i s" es' cap] r(2) by (simp add: sender_of_def)
  then show ?thesis
    using r(1,2,5-7) fifo by (intro exI [of _ es'] exI [of _ s'] exI [of _ bs]) (simp add: sender_of_def sent_by_def batch_bufs_def)
qed

definition busy_slot :: "nat list IOCPServer" where
  "busy_slot = one_slot
     \<lparr>sessionArray := [(Session_new (list_queue 4096))\<lparr>sock := 5, sessionID := COMBINE_ID_INDEX 1 0, ioCount := 1\<rparr>],
      packets := (pool_new pkt_new)\<lparr>pl_objs := \<lambda>_. pkt_new\<lparr>m_bIsEncoded := True\<rparr>\<rparr>\<rparr>"

theorem send_stream_witness:
  "\<exists>es s' bs. send_run plain_os (list_queue 4096) (\<lambda>_. Inr) (\<lambda>_ _. Inr) (COMBINE_ID_INDEX 1 0) [Push 8, Push 9, Sent 1] busy_slot = Inr (es, s') \<and>
     concat bs @ sendBuf (sess s' 0) = [8, 9]"
proof -
  have i: "0 = unat (GET_SESSION_INDEX (COMBINE_ID_INDEX 1 0))" by (simp add: GET_SESSION_INDEX_def COMBINE_ID_INDEX_def)
  have x: "sess busy_slot 0 = (Session_new (list_queue 4096))\<lparr>sock := 5, sessionID := COMBINE_ID_INDEX 1 0, ioCount := 1\<rparr>"
    "length (sessionArray busy_slot) = 1"
    by (simp_all add: busy_slot_def sess_def)
  have ok: "send_ok (\<lambda>q. q) 0 busy_slot" "sessionID (sess busy_slot 0) = COMBINE_ID_INDEX 1 0"
    by (simp_all add: send_ok_def send_flags_def sending_def x Session_new_def list_queue_def)
  have e: "\<forall>p\<in>set (pushed [Push 8, Push 9, Sent 1]). p \<noteq> 0 \<and> m_bIsEncoded (pl_objs (packets busy_slot) p)"
    by (simp add: busy_slot_def)
  have q: "sendBuf (sess busy_slot 0) = []" by (simp add: x Session_new_def list_queue_def)
  from send_stream [OF queue_laws_list [of 4096] _ i ok e, of plain_os "\<lambda>_. Inr" "\<lambda>_ _. Inr"] q show ?thesis
    by auto
qed

end
