(* ===== verification/PacketRefs.thy ===== *)
theory PacketRefs
  imports Sending "HOL-Library.Multiset"
begin

text \<open>
  Who holds references to packets (CPacket.cpp, IOCPServer.cpp): the queues of the sessions, the
  subclass, and the handlers in progress. A packet that is held anywhere is in use in the pool
  and its count is at least the number of its holders, so that no queue ever holds a packet that
  was given back. The count may be larger: a push on a full queue loses a reference.
\<close>

section \<open>References to the packets of a pool\<close>

text \<open>
  \<open>R\<close> is the multiset of the references held. The blocks of the pool are those \<open>malloc\<close> returned
  before its call \<open>n\<close>.
\<close>

definition refs_ok :: "os \<Rightarrow> nat \<Rightarrow> nat multiset \<Rightarrow> CPacket pool \<Rightarrow> bool" where
  "refs_ok W n R h \<longleftrightarrow> pool_ok (\<lambda>_. True) h \<and> blocks (pl_list h) \<subseteq> os_malloc W ` {..<n} \<and>
     (\<forall>p. p \<in># R \<longrightarrow> p \<in> pool_live h \<and> int (count R p) \<le> m_lRefCount (pl_objs h p))"

lemma refs_okD: "refs_ok W n R h \<Longrightarrow> p \<in># R \<Longrightarrow> p \<in> pool_live h \<and> int (count R p) \<le> m_lRefCount (pl_objs h p)"
  by (simp add: refs_ok_def)

lemma refs_ok_nonnull:
  assumes "malloc_laws W" and "refs_ok W n R h" and "p \<in># R"
  shows "p \<noteq> 0"
proof -
  have "p \<in> blocks (pl_list h)"
    using assms fl_pool.live_mapped [of "pl_list h"] by (auto simp: refs_ok_def pool_ok_def)
  then have "p \<in> os_malloc W ` {..<n}" using assms(2) by (auto simp: refs_ok_def)
  with assms(1) show ?thesis by (auto simp: malloc_laws_def)
qed

lemma refs_ok_mono: "refs_ok W n R h \<Longrightarrow> n \<le> m \<Longrightarrow> R' \<subseteq># R \<Longrightarrow> refs_ok W m R' h"
proof -
  assume a: "refs_ok W n R h" "n \<le> m" "R' \<subseteq># R"
  then have "{..<n} \<subseteq> {..<m}" by auto
  then have "os_malloc W ` {..<n} \<subseteq> os_malloc W ` {..<m}" by (rule image_mono)
  moreover have "count R' p \<le> count R p" for p using a(3) by (rule mset_subset_eq_count)
  then have "int (count R' p) \<le> int (count R p)" for p by simp
  ultimately show ?thesis
    using a mset_subset_eqD [OF a(3)] unfolding refs_ok_def by (meson order_trans)
qed

lemma refs_ok_AddRef: "refs_ok W n R h \<Longrightarrow> p \<in># R \<Longrightarrow> refs_ok W n (add_mset p R) (pkt_AddRef p h)"
  by (auto simp: refs_ok_def pkt_AddRef_def pool_ok_def)

lemma refs_ok_SubRef:
  assumes "refs_ok W n (add_mset p R) h"
  shows "refs_ok W n R (pkt_SubRef p h)"
proof -
  let ?h = "pool_upd p (\<lambda>x. x\<lparr>m_lRefCount := m_lRefCount x - 1\<rparr>) h"
  have live: "p \<in> pool_live h" "int (count R p) + 1 \<le> m_lRefCount (pl_objs h p)"
    using refs_okD [OF assms, of p] by auto
  have ok: "pool_ok (\<lambda>_. True) ?h" using assms by (simp add: refs_ok_def pool_ok_def)
  have R: "q \<in> pool_live h \<and> int (count R q) \<le> m_lRefCount (pl_objs ?h q)" if "q \<in># R" for q
    using refs_okD [OF assms, of q] that live by (auto split: if_splits)
  show ?thesis
  proof (cases "m_lRefCount (pl_objs ?h p) = 0")
    case True
    then have "count R p = 0" using live by simp
    then have "p \<notin># R" by (simp add: not_in_iff)
    with True R ok pool_Free_ok [OF ok, of p] live assms show ?thesis
      by (auto simp: refs_ok_def pkt_SubRef_def Let_def simp del: pool_Free_simps(2) split: if_splits)
  next
    case False
    with R ok assms show ?thesis by (auto simp: refs_ok_def pkt_SubRef_def Let_def)
  qed
qed

lemma refs_ok_SubRefs: "refs_ok W n (R + mset ps) h \<Longrightarrow> refs_ok W n R (fold pkt_SubRef ps h)"
proof (induction ps arbitrary: h)
  case (Cons p ps)
  then have "refs_ok W n (add_mset p (R + mset ps)) h" by simp
  with Cons.IH refs_ok_SubRef show ?case by simp
qed simp

lemma refs_ok_upd:
  "refs_ok W n R h \<Longrightarrow> m_lRefCount (f (pl_objs h p)) = m_lRefCount (pl_objs h p) \<Longrightarrow> refs_ok W n R (pool_upd p f h)"
  by (auto simp: refs_ok_def pool_ok_def)

lemma refs_ok_Alloc:
  assumes "malloc_laws W" and "refs_ok W n R h" and "pkt_Alloc (os_malloc W n) h = Inr (p, h')"
  shows "refs_ok W (Suc n) (add_mset p R) h'"
proof -
  have ok: "pool_ok (\<lambda>_. True) h" using assms(2) by (simp add: refs_ok_def)
  have "os_malloc W n \<notin> os_malloc W ` {..<n}" using assms(1) by (auto simp: malloc_laws_def dest: injD)
  then have new: "os_malloc W n \<noteq> 0" "os_malloc W n \<notin> blocks (pl_list h)"
    using assms(1,2) by (auto simp: malloc_laws_def refs_ok_def)
  from pool_Alloc_ok [OF ok TrueI new, of pkt_new] obtain q h1 where h1: "pool_Alloc pkt_new (os_malloc W n) h = Inr (q, h1)"
    "pool_ok (\<lambda>_. True) h1" "q \<notin> pool_live h" "pool_live h1 = insert q (pool_live h)"
    "blocks (pl_list h1) \<subseteq> insert (os_malloc W n) (blocks (pl_list h))" "\<And>r. r \<noteq> q \<Longrightarrow> pl_objs h1 r = pl_objs h r"
    by blast
  have e: "p = q" "h' = pool_upd q (\<lambda>p. p\<lparr>m_lRefCount := 1\<rparr>) (pool_upd q pkt_Clear h1)"
    using assms(3) h1(1) by (auto simp: pkt_Alloc_def)
  have q: "q \<notin># R" using refs_okD [OF assms(2), of q] h1(3) by blast
  then have "count R q = 0" by (simp add: not_in_iff)
  moreover have "blocks (pl_list h1) \<subseteq> os_malloc W ` {..<Suc n}"
    using h1(5) assms(2) by (auto simp: refs_ok_def lessThan_Suc)
  ultimately show ?thesis
    using h1(2,4,6) refs_okD [OF assms(2)] q by (auto simp: refs_ok_def e pool_ok_def)
qed

section \<open>Operations on packets keep the count\<close>

lemma memcpy_refs: "payload_write off src n x = Inr y \<Longrightarrow> m_lRefCount y = m_lRefCount x"
  by (auto simp: payload_write_def andThen_eq_Inr split: option.splits)

lemma Increase_refs: "pkt_IncreaseBufferSize ok add x = Inr y \<Longrightarrow> m_lRefCount y = m_lRefCount x"
  by (auto simp: pkt_IncreaseBufferSize_def andThen_eq_Inr Let_def split: option.splits if_splits)

lemma pkt_op_refs:
  "pkt_WriteValue ok v x = Inr y \<Longrightarrow> m_lRefCount y = m_lRefCount x"
  "pkt_PutData ok v n x = Inr y \<Longrightarrow> m_lRefCount y = m_lRefCount x"
  "pkt_SetMessageHeader b n x = Inr y \<Longrightarrow> m_lRefCount y = m_lRefCount x"
  "pkt_ReadValue v x = Inr (w, y) \<Longrightarrow> m_lRefCount y = m_lRefCount x"
  "pkt_GetData v n x = Inr (w, y) \<Longrightarrow> m_lRefCount y = m_lRefCount x"
  "pkt_SetDecodingCode x = Inr (b', y) \<Longrightarrow> m_lRefCount y = m_lRefCount x"
  "m_lRefCount (fst (pkt_MoveWritePos n x)) = m_lRefCount x"
  "m_lRefCount (pkt_Clear x) = m_lRefCount x"
  "dequeue_into n rb x = Inr (k, rb', y) \<Longrightarrow> m_lRefCount y = m_lRefCount x"
  by (auto simp: pkt_WriteValue_def pkt_PutData_def pkt_SetMessageHeader_def pkt_ReadValue_def pkt_GetData_def pkt_rewind_def
      pkt_SetDecodingCode_def pkt_MoveWritePos_def pkt_Clear_def dequeue_into_def andThen_eq_Inr Let_def
      dest!: memcpy_refs Increase_refs split: option.splits if_splits)

lemma encode_refs: "pkt_SetEncodingCode r x = Inr y \<Longrightarrow> m_lRefCount y = m_lRefCount x"
  by (auto simp: pkt_SetEncodingCode_def andThen_eq_Inr Let_def dest!: memcpy_refs pkt_op_refs(3) split: option.splits if_splits)

section \<open>References held by the server\<close>

definition session_refs :: "('q \<Rightarrow> nat list) \<Rightarrow> 'q Session \<Rightarrow> nat multiset" where
  "session_refs content x = mset (content (sendBuf x)) + mset (content (completeSendBuf x))"

definition queued :: "('q \<Rightarrow> nat list) \<Rightarrow> ('q, 'a) srv \<Rightarrow> nat multiset" where
  "queued content s = sum_list (map (session_refs content) (sessionArray s))"

text \<open>
  \<open>K\<close> are the references handlers in progress hold, \<open>E s\<close> those the subclass keeps; the server has
  \<open>L\<close> slots. \<open>env\<close> are the laws of the environment.
\<close>

definition packets_safe ::
  "bool \<Rightarrow> os \<Rightarrow> ('q \<Rightarrow> nat list) \<Rightarrow> (('q, 'a) srv \<Rightarrow> nat multiset) \<Rightarrow> nat \<Rightarrow> nat multiset \<Rightarrow> ('q, 'a) srv \<Rightarrow> bool" where
  "packets_safe env W content E L K s \<longleftrightarrow>
     env \<and> length (sessionArray s) = L \<and> refs_ok W (now s) (K + queued content s + E s) (packets s)"

lemma sum_list_update_refs:
  "i < length xs \<Longrightarrow> sum_list (map f (xs[i := y])) + f (xs ! i) = sum_list (map f xs) + (f y :: 'b multiset)"
proof (induction xs arbitrary: i)
  case (Cons x xs)
  then show ?case by (cases i) (simp_all add: ac_simps)
qed simp

lemma queued_set_sess:
  "i < length (sessionArray s) \<Longrightarrow>
    queued content (set_sess i f s) + session_refs content (sess s i) = queued content s + session_refs content (f (sess s i))"
  using sum_list_update_refs [of i "sessionArray s" "session_refs content"] by (simp add: queued_def set_sess_def sess_def)

lemma sum_list_member_refs: "i < length xs \<Longrightarrow> f (xs ! i) \<subseteq># sum_list (map f xs :: 'b multiset list)"
proof (induction xs arbitrary: i)
  case (Cons x xs)
  then show ?case
    by (cases i) (auto intro: subset_mset.order_trans [OF _ mset_subset_eq_add_right])
qed simp

lemma session_refs_queued: "i < length (sessionArray s) \<Longrightarrow> session_refs content (sess s i) \<subseteq># queued content s"
  using sum_list_member_refs [of i "sessionArray s" "session_refs content"] by (simp add: queued_def sess_def)

lemma queued_frame [simp]:
  "queued content (tick s) = queued content s" "queued content (add_call c s) = queued content s"
  "queued content (s\<lparr>packets := h\<rparr>) = queued content s"
  by (simp_all add: queued_def)

text \<open>
  What the network server needs of its subclass: it keeps its references in its own members, and
  \<open>OnClientLeave\<close> touches neither packets nor sessions.
\<close>

locale packet_holder =
  fixes env :: bool and W :: os and content :: "'q \<Rightarrow> nat list" and cap :: nat and Q :: "(nat, 'q) queue_ops"
    and E :: "('q, 'a) srv \<Rightarrow> nat multiset" and leave :: "('q, 'a) leave"
  assumes queue: "env \<Longrightarrow> queue_laws cap content Q" and malloc: "env \<Longrightarrow> malloc_laws W"
    and E_frame: "IOCPServer.more s' = IOCPServer.more s \<Longrightarrow> E s' = E s"
    and leave_refs: "leave sid s = Inr s' \<Longrightarrow>
      packets s' = packets s \<and> sessionArray s' = sessionArray s \<and> E s' = E s \<and> now s \<le> now s'"
begin

abbreviation safe :: "nat \<Rightarrow> nat multiset \<Rightarrow> ('q, 'a) srv \<Rightarrow> bool" where
  "safe \<equiv> packets_safe env W content E"

lemma safe_env: "safe L K s \<Longrightarrow> env"
  by (simp add: packets_safe_def)

lemmas safe_queue = queue [OF safe_env] and safe_malloc = malloc [OF safe_env]

lemma safeI:
  assumes env and "length (sessionArray s) = L" and "refs_ok W n R h" and "n \<le> now s" and "packets s = h"
    and "K + queued content s + E s \<subseteq># R"
  shows "safe L K s"
  using assms refs_ok_mono by (simp add: packets_safe_def)

lemma safe_frame:
  assumes "safe L K s" and "sessionArray s' = sessionArray s" and "packets s' = packets s"
    and "IOCPServer.more s' = IOCPServer.more s" and "now s \<le> now s'"
  shows "safe L K s'"
  using assms E_frame [OF assms(4)] by (intro safeI [of s' L "now s", OF safe_env [OF assms(1)]]) (auto simp: packets_safe_def queued_def)

lemma safe_simps [simp]:
  "safe L K s \<Longrightarrow> safe L K (tick s)"
  "safe L K s \<Longrightarrow> safe L K (add_call c s)"
  "safe L K s \<Longrightarrow> safe L K (s\<lparr>sessionCount := n\<rparr>)"
  "safe L K s \<Longrightarrow> safe L K (s\<lparr>indexStack := st\<rparr>)"
  "safe L K s \<Longrightarrow> safe L K (s\<lparr>recvTPS := t\<rparr>)"
  "safe L K s \<Longrightarrow> safe L K (s\<lparr>sendTPS := t\<rparr>)"
  "safe L K s \<Longrightarrow> safe L K (PushIndex idx s)"
  by (erule safe_frame; simp add: PushIndex_def)+

lemma safe_length: "safe L K s \<Longrightarrow> length (sessionArray s) = L"
  by (simp add: packets_safe_def)

lemma safe_drop: "safe L (A + K) s \<Longrightarrow> safe L K s"
  by (rule safeI [of s L "now s" "A + K + queued content s + E s", OF safe_env]) (auto simp: packets_safe_def)

lemma safe_drop1: "safe L (add_mset p K) s \<Longrightarrow> safe L K s"
  using safe_drop [of L "{#p#}" K s] by simp

lemma safe_set_sess [simp]:
  assumes "safe L K s" and "session_refs content (f (sess s i)) = session_refs content (sess s i)"
  shows "safe L K (set_sess i f s)"
proof (cases "i < length (sessionArray s)")
  case True
  from queued_set_sess [OF this, of content f] assms(2) have "queued content (set_sess i f s) = queued content s" by simp
  with assms(1) E_frame [of "set_sess i f s" s] show ?thesis by (simp add: packets_safe_def)
next
  case False
  then have "set_sess i f s = s" by (simp add: set_sess_def list_update_beyond)
  with assms show ?thesis by simp
qed

lemma safe_members [simp]:
  "session_refs content (x\<lparr>ioCount := n\<rparr>) = session_refs content x"
  "session_refs content (x\<lparr>isReleased := b\<rparr>) = session_refs content x"
  "session_refs content (x\<lparr>isReleased := b, ioCount := n\<rparr>) = session_refs content x"
  "session_refs content (x\<lparr>isSendFlag := b\<rparr>) = session_refs content x"
  "session_refs content (x\<lparr>sendCount := n\<rparr>) = session_refs content x"
  "session_refs content (x\<lparr>sendCount := n, ioCount := m\<rparr>) = session_refs content x"
  "session_refs content (x\<lparr>sock := k\<rparr>) = session_refs content x"
  "session_refs content (x\<lparr>recvBuf := rb\<rparr>) = session_refs content x"
  "session_refs content (x\<lparr>sendOverlap := b\<rparr>) = session_refs content x"
  "session_refs content (x\<lparr>recvOverlap := b\<rparr>) = session_refs content x"
  "session_refs content (x\<lparr>recvOverlap := b, recvBuf := rb\<rparr>) = session_refs content x"
  "session_refs content (x\<lparr>lastRecvTime := t\<rparr>) = session_refs content x"
  by (simp_all add: session_refs_def)

lemma safe_queue_nonnull:
  assumes s: "safe L K s" and i: "i < L"
  shows "0 \<notin> set (content (sendBuf (sess s i)))" and "0 \<notin> set (content (completeSendBuf (sess s i)))"
proof -
  have "session_refs content (sess s i) \<subseteq># queued content s"
    using s i session_refs_queued [of i s content] by (simp add: packets_safe_def)
  then have "p \<in># K + queued content s + E s" if "p \<in># session_refs content (sess s i)" for p
    using that by (auto dest: mset_subset_eqD)
  with s refs_ok_nonnull [OF safe_malloc [OF s]] have "p \<noteq> 0" if "p \<in># session_refs content (sess s i)" for p
    using that unfolding packets_safe_def by blast
  then show "0 \<notin> set (content (sendBuf (sess s i)))" "0 \<notin> set (content (completeSendBuf (sess s i)))"
    by (auto simp: session_refs_def)
qed

text \<open>The two queues of a session are emptied: their references are dropped.\<close>

lemma safe_emptied:
  assumes s: "safe L K s" and i: "i < L" and x: "session_refs content (f (sess s i)) + mset ps = session_refs content (sess s i)"
  shows "safe L K (set_sess i f (s\<lparr>packets := fold pkt_SubRef ps (packets s)\<rparr>))"
proof -
  let ?s = "set_sess i f (s\<lparr>packets := fold pkt_SubRef ps (packets s)\<rparr>)"
  have i': "i < length (sessionArray (s\<lparr>packets := fold pkt_SubRef ps (packets s)\<rparr>))" using s i by (simp add: packets_safe_def)
  have "queued content ?s + mset ps = queued content s"
  proof -
    have "queued content ?s + (session_refs content (f (sess s i)) + mset ps) = queued content s + session_refs content (f (sess s i))"
      using queued_set_sess [OF i', of content f] by (simp add: x)
    then have "(queued content ?s + mset ps) + session_refs content (f (sess s i)) = queued content s + session_refs content (f (sess s i))"
      by (simp only: ac_simps)
    then show ?thesis by (rule add_right_imp_eq)
  qed
  moreover have "E ?s = E s" by (rule E_frame) simp
  moreover have "refs_ok W (now s) (K + queued content s + E s) (packets s)" using s by (simp add: packets_safe_def)
  ultimately have "refs_ok W (now s) ((K + queued content ?s + E ?s) + mset ps) (packets s)" by (simp add: ac_simps)
  from refs_ok_SubRefs [OF this] s show ?thesis by (simp add: packets_safe_def)
qed

lemma safe_drain_sendBuf:
  assumes "drain_sendBuf Q c i s = Inr s'" and s: "safe L K s" and i: "i < L"
  shows "safe L K s'"
proof -
  have l: "i < length (sessionArray s)" using s i by (simp add: packets_safe_def)
  from drain_sendBuf_ok [OF safe_queue [OF s] l safe_queue_nonnull(1) [OF s i], of c] assms(1) obtain q where
    "content q = []" "s' = set_sess i (\<lambda>x. x\<lparr>sendBuf := q\<rparr>) (s\<lparr>packets := fold pkt_SubRef (content (sendBuf (sess s i))) (packets s)\<rparr>)"
    by auto
  then show ?thesis using safe_emptied [OF s i, of "\<lambda>x. x\<lparr>sendBuf := q\<rparr>" "content (sendBuf (sess s i))"]
    by (simp add: session_refs_def)
qed

lemma safe_drain_completeSendBuf:
  assumes "drain_completeSendBuf Q c i s = Inr s'" and s: "safe L K s" and i: "i < L"
  shows "safe L K s'"
proof -
  have l: "i < length (sessionArray s)" using s i by (simp add: packets_safe_def)
  from drain_completeSendBuf_ok [OF safe_queue [OF s] l safe_queue_nonnull(2) [OF s i], of c] assms(1) obtain q where
    "content q = []" "s' = set_sess i (\<lambda>x. x\<lparr>completeSendBuf := q\<rparr>) (s\<lparr>packets := fold pkt_SubRef (content (completeSendBuf (sess s i))) (packets s)\<rparr>)"
    by auto
  then show ?thesis using safe_emptied [OF s i, of "\<lambda>x. x\<lparr>completeSendBuf := q\<rparr>" "content (completeSendBuf (sess s i))"]
    by (simp add: session_refs_def)
qed

lemmas safe_drain = safe_drain_sendBuf safe_drain_completeSendBuf

lemma safe_Session_Init:
  assumes "Session_Init Q i s = Inr s'" and "safe L K s" and i: "i < L"
  shows "safe L K s'"
proof -
  let ?s = "set_sess i (\<lambda>x. x\<lparr>sock := INVALID_SOCKET, sessionID := - 1, index := 0,
      isSendFlag := False, sendCount := 0, lastRecvTime := 0\<rparr>) s"
  have s: "safe L K ?s" by (rule safe_set_sess [OF assms(2)]) (simp add: session_refs_def)
  from assms(1) obtain s2 s3 where d: "drain_sendBuf Q False i ?s = Inr s2" "drain_completeSendBuf Q False i s2 = Inr s3"
    and s': "s' = set_sess i (\<lambda>x. x\<lparr>isReleased := False, ioCount := 0\<rparr>) s3"
    unfolding Session_Init_def Let_def andThen_eq_Inr by blast
  have "safe L K s3" using safe_drain(2) [OF d(2) safe_drain(1) [OF d(1) s i] i] .
  then show ?thesis by (simp add: s')
qed

lemma safe_leave: "leave sid s = Inr s' \<Longrightarrow> safe L K s \<Longrightarrow> safe L K s'"
  using leave_refs [of sid s s'] refs_ok_mono [of W "now s" "K + queued content s + E s" "packets s" "now s'"]
  by (simp add: packets_safe_def queued_def)

lemma safe_ReleaseSession:
  assumes r: "ReleaseSession Q leave i s = Inr s'" and s: "safe L K s" and i: "i < L"
  shows "safe L K s'"
proof -
  from r obtain s1 s2 s3 s5 where l: "leave (sessionID (sess s i)) s = Inr s1"
    and d: "drain_sendBuf Q True i s1 = Inr s2" "drain_completeSendBuf Q True i s2 = Inr s3"
    and n: "Session_Init Q i (set_sess i (\<lambda>x. x\<lparr>recvBuf := rb_ClearBuffer (recvBuf x)\<rparr>) s3) = Inr s5"
    and e: "s' = PushIndex (index (sess s3 i)) s5\<lparr>sessionCount := sessionCount (PushIndex (index (sess s3 i)) s5) - 1\<rparr>"
    unfolding ReleaseSession_def Let_def andThen_eq_Inr by blast
  have "safe L K s3" using safe_leave [OF l s] d safe_drain i by blast
  then have "safe L K (set_sess i (\<lambda>x. x\<lparr>recvBuf := rb_ClearBuffer (recvBuf x)\<rparr>) s3)" by (rule safe_set_sess) simp
  with safe_Session_Init [OF n _ i] show ?thesis by (simp add: e)
qed

lemma safe_DisConnect: "DisConnect Q leave i s = Inr s' \<Longrightarrow> safe L K s \<Longrightarrow> i < L \<Longrightarrow> safe L K s'"
  by (auto simp: DisConnect_def Let_def elim!: safe_ReleaseSession split: if_splits)

lemma safe_io_done: "io_done Q leave c i s = Inr s' \<Longrightarrow> safe L K s \<Longrightarrow> i < L \<Longrightarrow> safe L K s'"
  by (auto simp: io_done_def Let_def elim!: safe_ReleaseSession split: if_splits)

lemma safe_SessionUnLock: "SessionUnLock Q leave i s = Inr s' \<Longrightarrow> safe L K s \<Longrightarrow> i < L \<Longrightarrow> safe L K s'"
  by (auto simp: SessionUnLock_def dest: safe_io_done)

lemma safe_SessionLock:
  assumes "SessionLock Q leave sid s = Inr (r, s')" and s: "safe L K s"
  shows "safe L K s' \<and> (\<forall>i. r = Some i \<longrightarrow> i < L)"
proof -
  let ?i = "unat (GET_SESSION_INDEX sid)"
  have i: "?i < L" using assms by (cases "L \<le> ?i") (simp_all add: SessionLock_def packets_safe_def Let_def)
  have "safe L K (set_sess ?i (\<lambda>x. x\<lparr>ioCount := ioCount x + 1\<rparr>) s)" by (rule safe_set_sess [OF s]) simp
  with assms(1) i show ?thesis
    by (auto simp: SessionLock_def Let_def andThen_eq_Inr elim!: safe_io_done split: if_splits)
qed

lemma safe_Disconnect: "Disconnect Q leave sid s = Inr s' \<Longrightarrow> safe L K s \<Longrightarrow> safe L K s'"
  by (auto simp: Disconnect_def andThen_eq_Inr dest!: safe_SessionLock
      dest: safe_DisConnect safe_SessionUnLock split: option.splits)

text \<open>References move between the handler and the queues of a session, or are lost.\<close>

lemma safe_move:
  assumes s: "safe L (A + K) s" and i: "i < L"
    and x: "session_refs content (f (sess s i)) + B \<subseteq># session_refs content (sess s i) + A"
  shows "safe L (B + K) (set_sess i f s)"
proof -
  let ?s = "set_sess i f s"
  have i': "i < length (sessionArray s)" using s i by (simp add: packets_safe_def)
  have e: "E ?s = E s" by (rule E_frame) simp
  have "queued content ?s + B \<subseteq># queued content s + A"
  proof -
    have "(queued content ?s + B) + session_refs content (sess s i) = queued content s + (session_refs content (f (sess s i)) + B)"
      using queued_set_sess [OF i', of content f] by (metis add.assoc add.commute)
    also have "\<dots> \<subseteq># queued content s + (session_refs content (sess s i) + A)" by (rule subset_mset.add_left_mono [OF x])
    finally show ?thesis by (simp add: add.commute [of "session_refs content (sess s i)"] flip: add.assoc)
  qed
  then have "(queued content ?s + B) + (K + E s) \<subseteq># (queued content s + A) + (K + E s)"
    by (rule subset_mset.add_right_mono)
  then have sub: "(B + K) + queued content ?s + E ?s \<subseteq># (A + K) + queued content s + E s"
    unfolding e by (simp only: ac_simps)
  have "refs_ok W (now s) ((A + K) + queued content s + E s) (packets s)" using s by (simp add: packets_safe_def)
  from safeI [OF safe_env [OF s] _ this _ _ sub] s show ?thesis by (simp add: packets_safe_def)
qed

lemma safe_sub:
  "safe L K s \<Longrightarrow> i < L \<Longrightarrow> session_refs content (f (sess s i)) \<subseteq># session_refs content (sess s i) \<Longrightarrow> safe L K (set_sess i f s)"
  using safe_move [of L "{#}" K s i f "{#}"] by simp

lemma push_refs: "env \<Longrightarrow> mset (content (fst (q_push Q p q))) \<subseteq># add_mset p (mset (content q))"
  by (simp add: queue_push [OF queue])

lemma gather_refs:
  assumes env and "gather_loop Q h c wb q cq = Some (c', wb', q', cq')"
  shows "mset (content q') + mset (content cq') \<subseteq># mset (content q) + mset (content cq)"
proof -
  have "Q' = Q \<longrightarrow> (\<forall>c' wb' q' cq'. r = (c', wb', q', cq') \<longrightarrow> mset (content q') + mset (content cq') \<subseteq># mset (content q) + mset (content cq))"
    if "gather_loop Q' h c wb q cq = Some r" for Q' r
    using that
  proof (induct rule: gather_loop.raw_induct [rotated, consumes 1])
    case (1 rec Q' h c wb q cq y)
    show ?case
    proof (intro impI allI)
      fix c' wb' q' cq' assume eq: "Q' = Q" and y: "y = (c', wb', q', cq')"
      show "mset (content q') + mset (content cq') \<subseteq># mset (content q) + mset (content cq)"
      proof (cases "(c < 100 \<and> length wb + 2 \<le> 200) \<and> q_pop Q q \<noteq> None")
        case True
        then obtain p q1 where pop: "q_pop Q q = Some (p, q1)" by auto
        have q: "mset (content q) = add_mset p (mset (content q1))"
          using queue_pop_Nil [OF queue, of q] queue_pop_Cons [OF queue, of q] pop assms(1) by (cases "content q") fastforce+
        show ?thesis
        proof (cases "p = 0")
          case p: True
          then have "rec Q h c wb q1 cq = Some y" using 1(2) True pop eq by simp
          from 1(1) [OF this] y have "mset (content q') + mset (content cq') \<subseteq># mset (content q1) + mset (content cq)" by simp
          also have "\<dots> \<subseteq># mset (content q) + mset (content cq)" by (simp add: q)
          finally show ?thesis .
        next
          case p: False
          let ?c = "fst (q_push Q p cq)"
          have "rec Q h (c + 1) (wb @ packet_bufs (pl_objs h p)) q1 ?c = Some y" using 1(2) True pop eq p by simp
          from 1(1) [OF this] y have "mset (content q') + mset (content cq') \<subseteq># mset (content q1) + mset (content ?c)" by simp
          also have "\<dots> \<subseteq># mset (content q1) + add_mset p (mset (content cq))" using push_refs [OF assms(1)] by simp
          finally show ?thesis by (simp add: q)
        qed
      next
        case False
        with 1(2) y eq show ?thesis by (cases "q_pop Q q") (auto split: if_splits)
      qed
    qed
  qed
  with assms show ?thesis by blast
qed

lemma safe_PostSend:
  assumes r: "PostSend W' Q leave i s = Inr (b, s')" and s: "safe L K s" and i: "i < L"
  shows "safe L K s'"
proof (cases "isSendFlag (sess s i)")
  case False
  let ?s1 = "set_sess i (\<lambda>x. x\<lparr>isSendFlag := True\<rparr>) s"
  have i': "i < length (sessionArray s)" using s i by (simp add: packets_safe_def)
  obtain n wb q cq where g: "gather_loop Q (packets ?s1) 0 [] (sendBuf (sess ?s1 i)) (completeSendBuf (sess ?s1 i)) = Some (n, wb, q, cq)"
    using r False by (auto simp: PostSend_def Let_def split: option.splits)
  define s2 where "s2 = set_sess i (\<lambda>x. x\<lparr>sendBuf := q, completeSendBuf := cq\<rparr>) ?s1"
  have s1: "safe L K ?s1" using s by simp
  have s2: "safe L K s2"
    unfolding s2_def by (rule safe_sub [OF s1 i]) (use gather_refs [OF safe_env [OF s] g] i' in \<open>simp add: session_refs_def\<close>)
  define s3 where "s3 = set_sess i (\<lambda>x. x\<lparr>sendCount := n, ioCount := ioCount x + 1\<rparr>) s2"
  have s3: "safe L K s3" using s2 by (simp add: s3_def)
  define s4 where "s4 = tick (add_call (OsSend (sock (sess s3 i)) wb) s3)"
  have s4: "safe L K s4" using s3 by (simp add: s4_def)
  define s5 where "s5 = set_sess i (\<lambda>x. x\<lparr>ioCount := ioCount x - 1\<rparr>) s4"
  have s5: "safe L K s5" using s4 by (simp add: s5_def)
  have "PostSend W' Q leave i s =
      (if n = 0 then Inr (False, set_sess i (\<lambda>x. x\<lparr>isSendFlag := False\<rparr>) s2)
       else if os_WSASend W' (now s3) = IoError
       then if ioCount (sess s5 i) = 0 then andThen (ReleaseSession Q leave i s5) (\<lambda>s6. Inr (False, s6)) else Inr (True, s5)
       else Inr (True, set_sess i (\<lambda>x. x\<lparr>sendOverlap := True\<rparr>) s4))"
    by (simp only: PostSend_def Let_def False g if_False option.case prod.case s2_def s3_def s4_def s5_def)
  with r s2 s4 s5 safe_ReleaseSession [OF _ s5 i] show ?thesis by (auto simp: andThen_eq_Inr split: if_splits)
qed (use r s in \<open>simp add: PostSend_def\<close>)

lemma safe_AddRef:
  "safe L (add_mset p K) s \<Longrightarrow> safe L (add_mset p (add_mset p K)) (s\<lparr>packets := pkt_AddRef p (packets s)\<rparr>)"
  using refs_ok_AddRef [of W "now s" "add_mset p K + queued content s + E s" "packets s" p]
    E_frame [of "s\<lparr>packets := pkt_AddRef p (packets s)\<rparr>" s]
  by (simp add: packets_safe_def)

lemma safe_SubRef [simp]:
  "safe L (add_mset p K) s \<Longrightarrow> safe L K (s\<lparr>packets := pkt_SubRef p (packets s)\<rparr>)"
  using refs_ok_SubRef [of W "now s" p "K + queued content s + E s" "packets s"]
    E_frame [of "s\<lparr>packets := pkt_SubRef p (packets s)\<rparr>" s]
  by (simp add: packets_safe_def)

lemma safe_upd:
  assumes "safe L K s" and "m_lRefCount x = m_lRefCount (pl_objs (packets s) p)"
  shows "safe L K (s\<lparr>packets := pool_upd p (\<lambda>_. x) (packets s)\<rparr>)"
  using assms refs_ok_upd [of W "now s" "K + queued content s + E s" "packets s" "\<lambda>_. x" p]
    E_frame [of "s\<lparr>packets := pool_upd p (\<lambda>_. x) (packets s)\<rparr>" s]
  by (simp add: packets_safe_def)

lemma safe_on_packet:
  assumes "on_packet p f s = Inr s'" and "safe L K s" and "\<And>x y. f x = Inr y \<Longrightarrow> m_lRefCount y = m_lRefCount x"
  shows "safe L K s'"
  using assms by (auto simp: on_packet_def andThen_eq_Inr intro: safe_upd)

lemma safe_Alloc:
  assumes "pkt_Alloc (os_malloc W (now s)) (packets s) = Inr (p, h)" and "safe L K s"
  shows "safe L (add_mset p K) (tick (s\<lparr>packets := h\<rparr>))"
  using assms(2) refs_ok_Alloc [OF safe_malloc [OF assms(2)] _ assms(1), of "K + queued content s + E s"]
    E_frame [of "tick (s\<lparr>packets := h\<rparr>)" s]
  by (simp add: packets_safe_def)

text \<open>Sending keeps the reference of the caller.\<close>

lemma safe_SendPacket:
  assumes r: "SendPacket W' Q leave sid p s = Inr s'" and s: "safe L (add_mset p K) s"
  shows "safe L (add_mset p K) s'"
proof -
  from r obtain who s1 where lock: "SessionLock Q leave sid s = Inr (who, s1)" by (auto simp: SendPacket_def andThen_eq_Inr)
  note s1 = safe_SessionLock [OF lock s]
  show ?thesis
  proof (cases who)
    case None
    with r lock s1 show ?thesis by (simp add: SendPacket_def)
  next
    case (Some i)
    with s1 have i: "i < L" by blast
    obtain s2 s4 where e: "on_packet p (pkt_SetEncodingCode (os_rand W' (now s1))) (s1\<lparr>packets := pkt_AddRef p (packets s1)\<rparr>) = Inr s2"
      and snd: "s4 = set_sess i (\<lambda>x. x\<lparr>sendBuf := fst (q_push Q p (sendBuf x))\<rparr>) (tick s2) \<or>
        (\<exists>b. PostSend W' Q leave i (set_sess i (\<lambda>x. x\<lparr>sendBuf := fst (q_push Q p (sendBuf x))\<rparr>) (tick s2)) = Inr (b, s4))"
      and u: "SessionUnLock Q leave i s4 = Inr s'"
      using r lock Some by (auto simp: SendPacket_def andThen_eq_Inr Let_def split: if_splits)
    have "safe L (add_mset p (add_mset p K)) (tick s2)"
      using safe_on_packet [OF e safe_AddRef] s1 encode_refs by simp
    then have "safe L ({#p#} + add_mset p K) (tick s2)" by simp
    from safe_move [OF this i, of "\<lambda>x. x\<lparr>sendBuf := fst (q_push Q p (sendBuf x))\<rparr>" "{#}"] push_refs [OF safe_env [OF s]]
    have "safe L (add_mset p K) (set_sess i (\<lambda>x. x\<lparr>sendBuf := fst (q_push Q p (sendBuf x))\<rparr>) (tick s2))"
      by (simp add: session_refs_def)
    with snd have "safe L (add_mset p K) s4" using safe_PostSend i by blast
    with safe_SessionUnLock [OF u] i show ?thesis by blast
  qed
qed

lemma safe_complete_loop:
  "complete_loop Q leave i k s = Inr s' \<Longrightarrow> safe L K s \<Longrightarrow> i < L \<Longrightarrow> safe L K s'"
proof (induction k arbitrary: s)
  case (Suc k)
  show ?case
  proof (cases "q_pop Q (completeSendBuf (sess s i))")
    case None
    with Suc.prems safe_DisConnect show ?thesis by auto
  next
    case (Some r)
    then obtain p q where pop: "q_pop Q (completeSendBuf (sess s i)) = Some (p, q)" by (cases r) auto
    define s1 where "s1 = set_sess i (\<lambda>x. x\<lparr>completeSendBuf := q\<rparr>) s"
    have "mset (content (completeSendBuf (sess s i))) = add_mset p (mset (content q))"
      using queue_pop_Nil [OF safe_queue [OF Suc.prems(2)], of "completeSendBuf (sess s i)"] pop
        queue_pop_Cons [OF safe_queue [OF Suc.prems(2)], of "completeSendBuf (sess s i)"]
      by (cases "content (completeSendBuf (sess s i))") fastforce+
    then have s1: "safe L (add_mset p K) s1"
      using safe_move [of L "{#}" K s i "\<lambda>x. x\<lparr>completeSendBuf := q\<rparr>" "{#p#}"] Suc.prems(2,3)
      by (simp add: session_refs_def s1_def)
    show ?thesis
    proof (cases "p = 0")
      case True
      with Suc.prems(1) pop have "DisConnect Q leave i s1 = Inr s'" by (simp add: s1_def)
      with safe_DisConnect [OF _ s1 Suc.prems(3)] safe_drop1 show ?thesis by blast
    next
      case False
      let ?s2 = "s1\<lparr>packets := pkt_SubRef p (packets s1), sendTPS := low_increment (sendTPS s1)\<rparr>"
      have "complete_loop Q leave i k ?s2 = Inr s'" using Suc.prems(1) pop False by (simp add: s1_def Let_def)
      moreover have "safe L K ?s2" by (rule safe_frame [OF safe_SubRef [OF s1]]) simp_all
      ultimately show ?thesis using Suc.IH Suc.prems(3) by blast
    qed
  qed
qed simp

lemma safe_SendComplete:
  assumes r: "SendComplete W' Q leave i n s = Inr s'" and s: "safe L K s" and i: "i < L"
  shows "safe L K s'"
proof -
  from r obtain s1 s2 where 1: "s1 = s \<or> DisConnect Q leave i s = Inr s1"
    and 2: "complete_loop Q leave i (nat (sendCount (sess s1 i))) (set_sess i (\<lambda>x. x\<lparr>sendCount := 0\<rparr>) s1) = Inr s2"
    and 3: "s' = set_sess i (\<lambda>x. x\<lparr>isSendFlag := False\<rparr>) s2 \<or>
      (\<exists>b. PostSend W' Q leave i (set_sess i (\<lambda>x. x\<lparr>isSendFlag := False\<rparr>) s2) = Inr (b, s'))"
    by (auto simp: SendComplete_def andThen_eq_Inr Let_def split: if_splits)
  have "safe L K s1" using 1 s safe_DisConnect i by blast
  then have "safe L K s2" using safe_complete_loop [OF 2 _ i] by simp
  then have "safe L K (set_sess i (\<lambda>x. x\<lparr>isSendFlag := False\<rparr>) s2)" by simp
  with 3 safe_PostSend i show ?thesis by blast
qed

lemma safe_PostRecv: "PostRecv W' Q leave i s = Inr (b, s') \<Longrightarrow> safe L K s \<Longrightarrow> i < L \<Longrightarrow> safe L K s'"
  by (auto simp: PostRecv_def andThen_eq_Inr Let_def elim!: safe_ReleaseSession safe_DisConnect split: if_splits)

text \<open>A turn of the receive loop: the packet it delivers is held by the handler.\<close>

lemma safe_recv_step:
  assumes r: "recv_step W i s = Inr (out, s')" and s: "safe L K s"
  shows "safe L (case out of Deliver p \<Rightarrow> add_mset p K | _ \<Rightarrow> K) s'"
proof -
  consider "s' = s" "\<And>p. out \<noteq> Deliver p"
    | hb rb1 p h1 s1 s2 got rb2 x len where "pkt_Alloc (os_malloc W (now s)) (packets s) = Inr (p, h1)"
      "s1 = tick (set_sess i (\<lambda>x. x\<lparr>recvBuf := rb1\<rparr>) (s\<lparr>packets := pool_upd p pkt_Clear h1\<rparr>))"
      "on_packet p (pkt_SetMessageHeader hb MESSAGE_HEADER_LEN) s1 = Inr s2"
      "dequeue_into len rb1 (pl_objs (packets s2) p) = Inr (got, rb2, x)"
      "(let s3 = set_sess i (\<lambda>y. y\<lparr>recvBuf := rb2\<rparr>) (s2\<lparr>packets := pool_upd p (\<lambda>_. x) (packets s2)\<rparr>)
        in if len \<noteq> got then Inr (Refuse, s3)
           else andThen (pkt_SetDecodingCode (fst (pkt_MoveWritePos len x))) (\<lambda>(ok, y).
             let s4 = s3\<lparr>packets := pool_upd p (\<lambda>_. y) (packets s3)\<rparr>
             in if \<not> ok then Inr (Refuse, s4\<lparr>packets := pkt_SubRef p (packets s4)\<rparr>)
                else Inr (Deliver p, s4\<lparr>recvTPS := low_increment (recvTPS s4)\<rparr>))) = Inr (out, s')"
    using r unfolding recv_step_def Let_def by (auto simp: andThen_eq_Inr split: if_splits)
  then show ?thesis
  proof cases
    case 1
    with s show ?thesis by (cases out) auto
  next
    case 2
    have "safe L (add_mset p K) (tick (s\<lparr>packets := h1\<rparr>))" by (rule safe_Alloc [OF 2(1) s])
    then have "safe L (add_mset p K) ((tick (s\<lparr>packets := h1\<rparr>))\<lparr>packets := pool_upd p (\<lambda>_. pkt_Clear (pl_objs h1 p)) h1\<rparr>)"
      using safe_upd [of L "add_mset p K" "tick (s\<lparr>packets := h1\<rparr>)" "pkt_Clear (pl_objs h1 p)" p] by (simp add: pkt_op_refs)
    then have "safe L (add_mset p K) (set_sess i (\<lambda>x. x\<lparr>recvBuf := rb1\<rparr>)
        ((tick (s\<lparr>packets := h1\<rparr>))\<lparr>packets := pool_upd p (\<lambda>_. pkt_Clear (pl_objs h1 p)) h1\<rparr>))" by simp
    then have "safe L (add_mset p K) s1"
      by (rule safe_frame) (simp_all add: 2(2) set_sess_def tick_def pool_upd_def)
    then have s2: "safe L (add_mset p K) s2" using safe_on_packet [OF 2(3)] pkt_op_refs(3) by blast
    define s3 where "s3 = set_sess i (\<lambda>y. y\<lparr>recvBuf := rb2\<rparr>) (s2\<lparr>packets := pool_upd p (\<lambda>_. x) (packets s2)\<rparr>)"
    have s3: "safe L (add_mset p K) s3" "pl_objs (packets s3) p = x"
      using safe_upd [OF s2 pkt_op_refs(9) [OF 2(4)]] by (simp_all add: s3_def)
    show ?thesis
    proof (cases "len = got")
      case False
      with 2(5) s3 safe_drop1 show ?thesis by (auto simp: s3_def)
    next
      case True
      with 2(5) obtain ok y where d: "pkt_SetDecodingCode (fst (pkt_MoveWritePos len x)) = Inr (ok, y)"
        by (auto simp: andThen_eq_Inr Let_def)
      then have "m_lRefCount y = m_lRefCount x" using pkt_op_refs(6,7) by simp
      with safe_upd [OF s3(1), of y p] s3(2) have s4: "safe L (add_mset p K) (s3\<lparr>packets := pool_upd p (\<lambda>_. y) (packets s3)\<rparr>)" by simp
      define s5 where "s5 = s3\<lparr>packets := pool_upd p (\<lambda>_. y) (packets s3)\<rparr>"
      have "out = Refuse \<and> s' = s5\<lparr>packets := pkt_SubRef p (packets s5)\<rparr> \<or>
          out = Deliver p \<and> s' = s5\<lparr>recvTPS := low_increment (recvTPS s5)\<rparr>"
        using 2(5) True d by (cases ok) (auto simp: s3_def s5_def Let_def)
      with safe_SubRef [OF s4] safe_simps(5) [OF s4] show ?thesis by (auto simp: s5_def)
    qed
  qed
qed

lemma safe_CreateSession:
  assumes "CreateSession W' k s = Inr (i, s')" and s: "safe L K s"
  shows "safe L K s' \<and> i < L"
proof -
  from assms(1) obtain idx st where st: "indexStack s = idx # st"
    and i: "0 \<le> idx" "idx < int (length (sessionArray s))" "i = nat idx"
    and s': "s' = (let s2 = add_call (OsKeepAlive k) (s\<lparr>indexStack := st, srv_sessionID := srv_sessionID s + 1\<rparr>);
             s3 = set_sess i (\<lambda>x. x\<lparr>sessionID := COMBINE_ID_INDEX (srv_sessionID s2) (of_int idx),
                                    index := idx, sock := k, recvBuf := rb_ClearBuffer (recvBuf x),
                                    lastRecvTime := os_tick W' (now s2)\<rparr>) s2
         in tick s3\<lparr>sessionCount := sessionCount s3 + 1, acceptTPS := acceptTPS s3 + 1, acceptCount := acceptCount s3 + 1\<rparr>)"
    by (auto simp: CreateSession_def PopIndex_def Let_def split: list.splits if_splits)
  have "safe L K (s\<lparr>indexStack := st, srv_sessionID := n\<rparr>)" for n by (rule safe_frame [OF s]) simp_all
  then have a: "safe L K (add_call c (s\<lparr>indexStack := st, srv_sessionID := n\<rparr>))" for c n by simp
  have b: "safe L K (set_sess i f (add_call c (s\<lparr>indexStack := st, srv_sessionID := n\<rparr>)))"
    if "\<And>x. session_refs content (f x) = session_refs content x" for f c n
    using safe_set_sess [OF a] that by blast
  have "safe L K s'"
    unfolding s' Let_def
    by (rule safe_frame [OF b]) (simp_all add: session_refs_def set_sess_def add_call_def tick_def)
  with i s show ?thesis by (simp add: packets_safe_def)
qed

end

text \<open>The subclass keeps the references right when it is handed a packet or a new session.\<close>

locale packet_server = packet_holder env W content cap Q E leave
  for env :: bool and W :: os and content :: "'q \<Rightarrow> nat list" and cap :: nat and Q :: "(nat, 'q) queue_ops"
    and E :: "('q, 'a) srv \<Rightarrow> nat multiset" and leave :: "('q, 'a) leave" +
  fixes recv :: "('q, 'a) recv" and join :: "UINT64 \<Rightarrow> ('q, 'a) srv \<Rightarrow> ('q, 'a) srv res"
  assumes recv_refs: "recv sid p s = Inr s' \<Longrightarrow> packets_safe env W content E L (add_mset p K) s \<Longrightarrow>
      packets_safe env W content E L (add_mset p K) s'"
    and join_refs: "join sid s = Inr s' \<Longrightarrow> packets_safe env W content E L K s \<Longrightarrow> packets_safe env W content E L K s'"
begin

lemma safe_recv_loop:
  assumes "recv_loop W Q leave recv i s = Some (Inr (b, s'))" and "safe L K s" and "i < L"
  shows "safe L K s'"
proof -
  have "V = W \<longrightarrow> Q' = Q \<longrightarrow> l = leave \<longrightarrow> r' = recv \<longrightarrow> i < L \<longrightarrow> safe L K s \<longrightarrow> (\<forall>b s'. r = Inr (b, s') \<longrightarrow> safe L K s')"
    if "recv_loop V Q' l r' i s = Some r" for V Q' l r' r
    using that
  proof (induct rule: recv_loop.raw_induct [rotated, consumes 1])
    case (1 rl V Q' l r' i s y)
    show ?case
    proof (intro impI allI)
      fix b s' assume eq: "V = W" "Q' = Q" "l = leave" "r' = recv" and i: "i < L" and s: "safe L K s" and y: "y = Inr (b, s')"
      obtain res s1 where step: "recv_step W i s = Inr (res, s1)"
        using 1(2) y eq by (cases "recv_step W i s") auto
      note s1 = safe_recv_step [OF step s]
      show "safe L K s'"
      proof (cases res)
        case (Deliver p)
        then obtain s2 where s2: "recv (sessionID (sess s1 i)) p s1 = Inr s2"
          and go_on: "rl W Q leave recv i (s2\<lparr>packets := pkt_SubRef p (packets s2)\<rparr>) = Some y"
          using 1(2) step eq y by (auto split: sum.splits)
        have "safe L K (s2\<lparr>packets := pkt_SubRef p (packets s2)\<rparr>)" using recv_refs [OF s2] s1 Deliver by simp
        with 1(1) [OF go_on] y i show ?thesis by blast
      qed (use 1(2) step eq y s1 i in \<open>auto simp: andThen_eq_Inr elim: safe_DisConnect\<close>)
    qed
  qed
  with assms show ?thesis by blast
qed

lemma safe_RecvComplete:
  assumes "RecvComplete W Q leave recv i n s = Inr s'" and s: "safe L K s" and i: "i < L"
  shows "safe L K s'"
proof (cases "n = 0")
  case True
  with assms safe_DisConnect show ?thesis by (auto simp: RecvComplete_def)
next
  case False
  with assms obtain rb r go s2 where
    loop: "returned (recv_loop W Q leave recv i
        (tick (set_sess i (\<lambda>x. x\<lparr>lastRecvTime := os_tick W (now s), recvBuf := rb\<rparr>) s))) = Inr (go, s2)"
    and rest: "s' = s2 \<or> (\<exists>b. PostRecv W Q leave i s2 = Inr (b, s'))"
    by (auto simp: RecvComplete_def andThen_eq_Inr Let_def split: if_splits)
  have "safe L K (tick (set_sess i (\<lambda>x. x\<lparr>lastRecvTime := os_tick W (now s), recvBuf := rb\<rparr>) s))" using s by simp
  then have "safe L K s2" using loop i by (auto simp: returned_def dest: safe_recv_loop split: option.splits)
  with rest safe_PostRecv i show ?thesis by blast
qed

lemma safe_worker_step:
  assumes "worker_step W Q leave recv i c s = Inr s'" and s: "safe L K s" and i: "i < L"
  shows "safe L K s'"
proof (cases c)
  case (RecvDone bytes)
  with assms obtain d s1 where "RecvComplete W Q leave recv i (length bytes)
      (set_sess i (\<lambda>x. x\<lparr>recvOverlap := False, recvBuf := (recvBuf x)\<lparr>rb_data := d\<rparr>\<rparr>) s) = Inr s1"
    "io_done Q leave False i s1 = Inr s'" by (auto simp: worker_step_def andThen_eq_Inr)
  with s i show ?thesis by (auto elim!: safe_io_done safe_RecvComplete)
next
  case (SendDone n)
  with assms obtain s1 where "SendComplete W Q leave i n (set_sess i (\<lambda>x. x\<lparr>sendOverlap := False\<rparr>) s) = Inr s1"
    "io_done Q leave False i s1 = Inr s'" by (auto simp: worker_step_def andThen_eq_Inr)
  with s i show ?thesis by (auto elim!: safe_io_done safe_SendComplete)
qed

lemma safe_accept_step:
  assumes "accept_step W Q leave join request k s = Inr s'" and s: "safe L K s"
  shows "safe L K s'"
proof -
  from assms(1) consider "s' = add_call (OsClose k) s"
    | i s1 s2 b where "CreateSession W k s = Inr (i, s1)" "join (sessionID (sess s1 i)) s1 = Inr s2"
      "PostRecv W Q leave i s2 = Inr (b, s')"
    by (auto simp: accept_step_def andThen_eq_Inr split: if_splits)
  then show ?thesis
  proof cases
    case 2
    with safe_CreateSession [OF 2(1) s] have "safe L K s2" "i < L" using join_refs by blast+
    with safe_PostRecv [OF 2(3)] show ?thesis by blast
  qed (simp add: s)
qed

lemma safe_monitor_step: "safe L K s \<Longrightarrow> safe L K (monitor_step s)"
  by (erule safe_frame) (simp_all add: monitor_step_def)

end

end
