(* ===== verification/ChatRefs.thy ===== *)
theory ChatRefs
  imports Server PacketRefs
begin

text \<open>
  The chat server holds packets in the queue of the Redis thread and while its handlers run. Every
  handler keeps the references right, which instantiates the locales of theory PacketRefs; so in
  every reachable state no queue holds a packet that was given back to the pool.
\<close>

section \<open>The operations on packets\<close>

context packet_holder
begin

lemma safe_read_value: "read_value p old s = Inr (v, s') \<Longrightarrow> safe L K s \<Longrightarrow> safe L K s'"
  by (auto simp: read_value_def read_packet_def andThen_eq_Inr dest!: pkt_op_refs(4) intro: safe_upd)

lemma safe_get_data: "get_data p dst n s = Inr (v, s') \<Longrightarrow> safe L K s \<Longrightarrow> safe L K s'"
  by (auto simp: get_data_def read_packet_def andThen_eq_Inr dest!: pkt_op_refs(5) intro: safe_upd)

lemma safe_write_value: "write_value p v s = Inr s' \<Longrightarrow> safe L K s \<Longrightarrow> safe L K s'"
  by (auto simp: write_value_def elim!: safe_on_packet dest: pkt_op_refs(1))

lemma safe_put_data: "put_data p src n s = Inr s' \<Longrightarrow> safe L K s \<Longrightarrow> safe L K s'"
  by (auto simp: put_data_def elim!: safe_on_packet dest: pkt_op_refs(2))

lemma safe_alloc_packet: "alloc_packet W s = Inr (p, s') \<Longrightarrow> safe L K s \<Longrightarrow> safe L (add_mset p K) s'"
  by (auto simp: alloc_packet_def andThen_eq_Inr dest: safe_Alloc)

lemma safe_encode_packet: "encode_packet W' p s = Inr s' \<Longrightarrow> safe L K s \<Longrightarrow> safe L K s'"
  by (auto simp: encode_packet_def andThen_eq_Inr dest!: safe_on_packet [OF _ _ encode_refs])

lemma safe_sub_ref: "safe L (add_mset p K) s \<Longrightarrow> safe L K (sub_ref p s)"
  by (simp add: sub_ref_def)

lemmas safe_packet_ops = safe_read_value safe_get_data safe_write_value safe_put_data safe_encode_packet

lemma safe_MakeLoginResult: "MakeLoginResult W a i n s = Inr (p, s') \<Longrightarrow> safe L K s \<Longrightarrow> safe L (add_mset p K) s'"
  by (auto simp: MakeLoginResult_def andThen_eq_Inr dest!: safe_alloc_packet safe_packet_ops)

lemma safe_Res_Login: "Res_Login W a st s = Inr (p, s') \<Longrightarrow> safe L K s \<Longrightarrow> safe L (add_mset p K) s'"
  by (auto simp: Res_Login_def andThen_eq_Inr dest!: safe_alloc_packet safe_packet_ops)

lemma safe_Res_SectorMove: "Res_SectorMove W a x y s = Inr (p, s') \<Longrightarrow> safe L K s \<Longrightarrow> safe L (add_mset p K) s'"
  by (auto simp: Res_SectorMove_def andThen_eq_Inr dest!: safe_alloc_packet safe_packet_ops)

end

section \<open>The chat server as a holder of packets\<close>

definition redis_refs :: "('r \<Rightarrow> st_Redis list) \<Rightarrow> ('q, 'r, 'd, 'a) chat \<Rightarrow> nat multiset" where
  "redis_refs contentJ s = mset (map snd (contentJ (redisQ s)))"

text \<open>What is assumed of \<open>malloc\<close> and of the two kinds of queues.\<close>

definition chat_env ::
  "os \<Rightarrow> nat \<Rightarrow> ('q \<Rightarrow> nat list) \<Rightarrow> (nat, 'q) queue_ops \<Rightarrow> nat \<Rightarrow> ('r \<Rightarrow> st_Redis list) \<Rightarrow> (st_Redis, 'r) queue_ops \<Rightarrow> bool" where
  "chat_env W cap content Q capJ contentJ J \<longleftrightarrow> malloc_laws W \<and> queue_laws cap content Q \<and> queue_laws capJ contentJ J"

lemma LeaveProc_frame:
  "packets (LeaveProc sid s) = packets s" "sessionArray (LeaveProc sid s) = sessionArray s"
  "redisQ (LeaveProc sid s) = redisQ s" "now (LeaveProc sid s) = now s"
  by (auto simp: LeaveProc_def ReleasePlayer_def AddRefPlayer_def set_player_def Let_def split: option.splits)

interpretation chat_refs: packet_holder "chat_env W cap content Q capJ contentJ J" W content cap Q
    "redis_refs contentJ :: ('q, 'r, 'd, 'a) chat \<Rightarrow> nat multiset" OnClientLeave
  for W cap content Q capJ contentJ J
proof
  fix s s' :: "('q, 'r, 'd, 'a) chat"
  show "redis_refs contentJ s' = redis_refs contentJ s" if "IOCPServer.more s' = IOCPServer.more s"
    using chat_more(5) [OF that] by (simp add: redis_refs_def)
next
  fix s s' :: "('q, 'r, 'd, 'a) chat" and sid
  show "packets s' = packets s \<and> sessionArray s' = sessionArray s \<and> redis_refs contentJ s' = redis_refs contentJ s \<and> now s \<le> now s'"
    if "OnClientLeave sid s = Inr s'"
    using that by (auto simp: OnClientLeave_def LeaveProc_frame redis_refs_def)
qed (simp_all add: chat_env_def)

text \<open>Operations on players do not touch packets.\<close>

abbreviation chat_safe where
  "chat_safe W cap content Q capJ contentJ J \<equiv> packets_safe (chat_env W cap content Q capJ contentJ J) W content (redis_refs contentJ)"

lemma chat_safe_frame:
  fixes s s' :: "('q, 'r, 'd, 'a) chat"
  assumes "chat_safe W cap content Q capJ contentJ J L K s" and "sessionArray s' = sessionArray s"
    and "packets s' = packets s" and "redisQ s' = redisQ s" and "now s \<le> now s'"
  shows "chat_safe W cap content Q capJ contentJ J L K s'"
proof -
  have "refs_ok W (now s') (K + queued content s + redis_refs contentJ s) (packets s)"
    using assms(1) refs_ok_mono [OF _ assms(5) subset_mset.order_refl] by (simp add: packets_safe_def)
  with assms show ?thesis by (simp add: packets_safe_def queued_def redis_refs_def)
qed

lemma chat_safe_players:
  assumes "chat_safe W cap content Q capJ contentJ J L K s"
  shows "chat_safe W cap content Q capJ contentJ J L K (set_player p f s)"
    "chat_safe W cap content Q capJ contentJ J L K (ReleasePlayer p s)"
    "chat_safe W cap content Q capJ contentJ J L K (AddRefPlayer p s)"
    "chat_safe W cap content Q capJ contentJ J L K (s\<lparr>accounts := a\<rparr>)"
    "chat_safe W cap content Q capJ contentJ J L K (s\<lparr>sector := g\<rparr>)"
    "chat_safe W cap content Q capJ contentJ J L K (s\<lparr>redis := d\<rparr>)"
    "chat_safe W cap content Q capJ contentJ J L K (s\<lparr>playerPool := pp\<rparr>)"
    "chat_safe W cap content Q capJ contentJ J L K (s\<lparr>players := ps\<rparr>)"
  by (rule chat_safe_frame [OF assms]; simp add: set_player_def ReleasePlayer_def AddRefPlayer_def Let_def)+

lemma AcquirePlayer_safe:
  "AcquirePlayer sid s = (who, s1) \<Longrightarrow> chat_safe W cap content Q capJ contentJ J L K s \<Longrightarrow>
    chat_safe W cap content Q capJ contentJ J L K s1"
  by (auto simp: AcquirePlayer_def Let_def intro: chat_safe_players split: option.splits if_splits)

lemma JoinProc_safe:
  "JoinProc W' sid s = Inr (ok, s1) \<Longrightarrow> chat_safe W cap content Q capJ contentJ J L K s \<Longrightarrow>
    chat_safe W cap content Q capJ contentJ J L K s1"
  by (auto simp: JoinProc_def Let_def andThen_eq_Inr intro!: chat_safe_players chat_refs.safe_simps(1) split: if_splits)

section \<open>The handlers\<close>

lemma Req_Login_safe:
  fixes s :: "('q, 'r, 'd, 'a) chat"
  assumes "Req_Login_Redis J sid pl p s = (ok, s')" and s: "chat_safe W cap content Q capJ contentJ J L (add_mset p K) s"
  shows "chat_safe W cap content Q capJ contentJ J L (add_mset p K) s'"
proof (cases "s' = s")
  case False
  define s1 where "s1 = s\<lparr>packets := pkt_AddRef p (packets s)\<rparr>"
  have s': "s' = s1\<lparr>redisQ := fst (q_push J (sid, p) (redisQ s1))\<rparr>"
    using assms(1) False by (auto simp: Req_Login_Redis_def EnqueueRedis_def s1_def split: if_splits)
  have s1: "chat_safe W cap content Q capJ contentJ J L (add_mset p (add_mset p K)) s1"
    unfolding s1_def by (rule chat_refs.safe_AddRef [OF s])
  then have "queue_laws capJ contentJ J" by (simp add: packets_safe_def chat_env_def)
  then have "redis_refs contentJ s' \<subseteq># add_mset p (redis_refs contentJ s1)"
    by (simp add: redis_refs_def s' queue_push)
  then have "(add_mset p K + queued content s1) + redis_refs contentJ s' \<subseteq># (add_mset p K + queued content s1) + add_mset p (redis_refs contentJ s1)"
    by (rule subset_mset.add_left_mono)
  then have sub: "add_mset p K + queued content s' + redis_refs contentJ s' \<subseteq>#
      add_mset p (add_mset p K) + queued content s1 + redis_refs contentJ s1"
    by (simp add: s' queued_def)
  have "refs_ok W (now s1) (add_mset p (add_mset p K) + queued content s1 + redis_refs contentJ s1) (packets s1)"
    using s1 by (simp add: packets_safe_def)
  from refs_ok_mono [OF this order_refl sub]
  have "refs_ok W (now s') (add_mset p K + queued content s' + redis_refs contentJ s') (packets s')"
    by (simp only: s') simp
  moreover have "length (sessionArray s') = L" "chat_env W cap content Q capJ contentJ J"
    using s1 by (simp_all add: packets_safe_def s')
  ultimately show ?thesis by (simp only: packets_safe_def simp_thms)
qed (use s in simp)

lemma Res_Chat_safe:
  "Res_Chat W pl msg len s = Inr (p, s') \<Longrightarrow> chat_safe W cap content Q capJ contentJ J L K s \<Longrightarrow>
    chat_safe W cap content Q capJ contentJ J L (add_mset p K) s'"
  by (auto simp: Res_Chat_def andThen_eq_Inr dest!: chat_refs.safe_alloc_packet chat_refs.safe_packet_ops)

lemma send_all_safe:
  "send_all W' Q p sids s = Inr s' \<Longrightarrow> chat_safe W cap content Q capJ contentJ J L (add_mset p K) s \<Longrightarrow>
    chat_safe W cap content Q capJ contentJ J L (add_mset p K) s'"
  by (induction sids arbitrary: s) (auto simp: andThen_eq_Inr dest!: chat_refs.safe_SendPacket)

lemma kick_all_safe:
  "kick_all Q sids s = Inr s' \<Longrightarrow> chat_safe W cap content Q capJ contentJ J L K s \<Longrightarrow>
    chat_safe W cap content Q capJ contentJ J L K s'"
  by (induction sids arbitrary: s) (auto simp: andThen_eq_Inr dest!: chat_refs.safe_Disconnect)

lemma Req_Chat_safe:
  "Req_Chat W Q U sid pl p s = Inr (ok, s') \<Longrightarrow> chat_safe W cap content Q capJ contentJ J L K s \<Longrightarrow>
    chat_safe W cap content Q capJ contentJ J L K s'"
  by (auto simp: Req_Chat_def andThen_eq_Inr Let_def dest!: chat_refs.safe_read_value chat_refs.safe_get_data
      Res_Chat_safe send_all_safe intro: chat_refs.safe_sub_ref split: if_splits)

lemma move_player_safe:
  assumes r: "move_player W Q sid pl account x y s = Inr (ok, s')" and s: "chat_safe W cap content Q capJ contentJ J L K s"
  shows "chat_safe W cap content Q capJ contentJ J L K s'"
proof (cases "IsValidSector x y")
  case True
  define s2 where "s2 = tick (set_player pl (\<lambda>z. z\<lparr>sectorX := x, sectorY := y, p_lastRecvTime := os_tick W (now s)\<rparr>)
      (s\<lparr>sector := move_sector pl (sectorX (player s pl), sectorY (player s pl)) (x, y) (sector s)\<rparr>))"
  have s2: "chat_safe W cap content Q capJ contentJ J L K s2"
    unfolding s2_def by (intro chat_refs.safe_simps(1) chat_safe_players s)
  obtain res s3 s4 where "Res_SectorMove W account x y s2 = Inr (res, s3)"
    "SendPacket W Q OnClientLeave sid res s3 = Inr s4" "s' = sub_ref res s4"
    using r True by (auto simp: move_player_def Let_def andThen_eq_Inr s2_def)
  with s2 show ?thesis using chat_refs.safe_Res_SectorMove chat_refs.safe_SendPacket chat_refs.safe_sub_ref by metis
qed (use assms in \<open>simp add: move_player_def\<close>)

lemma Req_SectorMove_safe:
  assumes "Req_SectorMove W Q U sid pl p s = Inr (ok, s')" and "chat_safe W cap content Q capJ contentJ J L K s"
  shows "chat_safe W cap content Q capJ contentJ J L K s'"
  using assms unfolding Req_SectorMove_def andThen_pair_eq by (metis chat_refs.safe_read_value move_player_safe)

lemma RecvProc_safe:
  assumes r: "RecvProc W Q J U sid p s = Inr (ok, s')" and s: "chat_safe W cap content Q capJ contentJ J L (add_mset p K) s"
  shows "chat_safe W cap content Q capJ contentJ J L (add_mset p K) s'"
proof (cases "AcquirePlayer sid s")
  case (Pair who s1)
  note s1 = AcquirePlayer_safe [OF Pair s]
  show ?thesis
  proof (cases who)
    case None
    with r Pair s1 show ?thesis by (simp add: RecvProc_def)
  next
    case (Some pl)
    define s2 where "s2 = tick (set_player pl (\<lambda>x. x\<lparr>p_lastRecvTime := os_tick W (now s1)\<rparr>) s1)"
    have s2: "chat_safe W cap content Q capJ contentJ J L (add_mset p K) s2"
      unfolding s2_def by (intro chat_refs.safe_simps(1) chat_safe_players s1)
    from r Pair Some obtain tb s3 s4 where
      rd: "read_value p (WORD_bytes 0) s2 = Inr (tb, s3)"
      and h: "Req_Login_Redis J sid pl p s3 = (ok, s4) \<or> Req_SectorMove W Q U sid pl p s3 = Inr (ok, s4) \<or>
        Req_Chat W Q U sid pl p s3 = Inr (ok, s4) \<or> s4 = s3"
      and s': "s' = ReleasePlayer pl s4"
      by (auto simp: RecvProc_def s2_def [symmetric] andThen_eq_Inr Let_def split: if_splits)
    have "chat_safe W cap content Q capJ contentJ J L (add_mset p K) s3" by (rule chat_refs.safe_read_value [OF rd s2])
    note s3 = this
    from h have "chat_safe W cap content Q capJ contentJ J L (add_mset p K) s4"
    proof (elim disjE)
      assume "s4 = s3"
      with s3 show ?thesis by simp
    qed (erule Req_Login_safe Req_SectorMove_safe Req_Chat_safe, rule s3)+
    then show ?thesis unfolding s' by (rule chat_safe_players)
  qed
qed

lemma OnRecv_safe:
  "OnRecv W Q J U sid p s = Inr s' \<Longrightarrow> chat_safe W cap content Q capJ contentJ J L (add_mset p K) s \<Longrightarrow>
    chat_safe W cap content Q capJ contentJ J L (add_mset p K) s'"
  by (auto simp: OnRecv_def andThen_eq_Inr dest!: RecvProc_safe chat_refs.safe_Disconnect split: if_splits)

lemma CheckTimeOut_safe:
  "CheckTimeOut W' Q s = Inr s' \<Longrightarrow> chat_safe W cap content Q capJ contentJ J L K s \<Longrightarrow>
    chat_safe W cap content Q capJ contentJ J L K s'"
  by (auto simp: CheckTimeOut_def Let_def dest!: kick_all_safe)

text \<open>The Redis thread: the job's reference is dropped at its end, like that of the result.\<close>

lemma CompleteLogin_safe:
  fixes s :: "('q, 'r, 'd, 'a) chat"
  assumes r: "CompleteLogin W Q U sid p success s = Inr (ok, s')" and s: "chat_safe W cap content Q capJ contentJ J L K s"
  shows "chat_safe W cap content Q capJ contentJ J L K s'"
proof (cases "AcquirePlayer sid s")
  case (Pair who s1)
  note s1 = AcquirePlayer_safe [OF Pair s]
  show ?thesis
  proof (cases "who = None \<or> p_sessionID (player s1 (the who)) \<noteq> sid \<or> closing (player s1 (the who))")
    case True
    from CompleteLogin_early [OF r Pair True] s1 chat_safe_players(2) show ?thesis by metis
  next
    case False
    then obtain pl where pl: "who = Some pl" "p_sessionID (player s1 pl) = sid" "\<not> closing (player s1 pl)" by (cases who) auto
    then have acquired: "AcquirePlayer sid s = (Some pl, s1)" using Pair by simp
    obtain ab s2 wid s3 nk s4 i n st s5 res s6 s7 where
      rd: "read_value p (INT64_bytes 0) s1 = Inr (ab, s2)" "get_data p (junk U 40) dfID_LEN s2 = Inr (wid, s3)"
        "get_data p (junk (\<lambda>k. U (k + 40)) 40) dfNiCK_LEN s3 = Inr (nk, s4)"
      and s5: "s5 = s4 \<or> s5 = set_player pl (\<lambda>x. x\<lparr>p_id := i, nick := n\<rparr>) (login_marked sid pl (INT64_of ab) s4) \<and>
        wcscpy_s20 (p_id (player (login_marked sid pl (INT64_of ab) s4) pl)) wid = Inr i \<and>
        wcscpy_s20 (nick (player (login_marked sid pl (INT64_of ab) s4) pl)) nk = Inr n"
      and rest: "Res_Login W (INT64_of ab) st s5 = Inr (res, s6)" "SendUnicast W Q sid res s6 = Inr s7"
      and s': "s' = ReleasePlayer pl (sub_ref res s7)"
      by (rule CompleteLogin_steps [OF r acquired pl(2,3)])
    have s4: "chat_safe W cap content Q capJ contentJ J L K s4"
      using rd s1 chat_refs.safe_read_value chat_refs.safe_get_data by metis
    have "chat_safe W cap content Q capJ contentJ J L K
        (set_player pl (\<lambda>x. x\<lparr>p_id := i, nick := n\<rparr>) (login_marked sid pl (INT64_of ab) s4))"
      unfolding login_marked_def by (intro chat_safe_players s4)
    with s5 s4 have "chat_safe W cap content Q capJ contentJ J L K s5" by blast
    then have "chat_safe W cap content Q capJ contentJ J L K (sub_ref res s7)"
      using rest chat_refs.safe_Res_Login chat_refs.safe_SendPacket chat_refs.safe_sub_ref unfolding SendUnicast_def by metis
    then show ?thesis unfolding s' by (rule chat_safe_players)
  qed
qed

lemma redis_job_safe:
  assumes "redis_job W Q R U (sid, p) s = Inr s'" and s: "chat_safe W cap content Q capJ contentJ J L (add_mset p K) s"
  shows "chat_safe W cap content Q capJ contentJ J L K s'"
proof -
  from assms(1) obtain ab s1 wid s2 nk s3 ck s4 db ok res s6 b s7 where
    rd: "read_value p (INT64_bytes 0) s = Inr (ab, s1)" "get_data p (replicate 40 0) dfID_LEN s1 = Inr (wid, s2)"
      "get_data p (replicate 40 0) dfNiCK_LEN s2 = Inr (nk, s3)" "get_data p (replicate 64 0) dfSESSIONKEY_LEN s3 = Inr (ck, s4)"
    and rest: "MakeLoginResult W (INT64_of ab) wid nk (s4\<lparr>redis := db\<rparr>) = Inr (res, s6)"
      "CompleteLogin W Q U sid res ok s6 = Inr (b, s7)" and s': "s' = sub_ref p (sub_ref res s7)"
    by (auto simp: redis_job_def andThen_eq_Inr Let_def)
  have "chat_safe W cap content Q capJ contentJ J L (add_mset p K) s4"
    using rd s chat_refs.safe_read_value chat_refs.safe_get_data by metis
  then have "chat_safe W cap content Q capJ contentJ J L (add_mset p K) (s4\<lparr>redis := db\<rparr>)" by (rule chat_safe_players)
  from CompleteLogin_safe [OF rest(2) chat_refs.safe_MakeLoginResult [OF rest(1) this]]
  show ?thesis unfolding s' by (intro chat_refs.safe_sub_ref)
qed

interpretation chat_packets: packet_server "chat_env W cap content Q capJ contentJ J" W content cap Q
    "redis_refs contentJ :: ('q, 'r, 'd, 'a) chat \<Rightarrow> nat multiset" OnClientLeave "OnRecv W Q J U" "OnClientJoin W"
  for W cap content Q capJ contentJ J U
proof
  fix s s' :: "('q, 'r, 'd, 'a) chat" and sid p L K
  show "chat_safe W cap content Q capJ contentJ J L (add_mset p K) s'"
    if "OnRecv W Q J U sid p s = Inr s'" "chat_safe W cap content Q capJ contentJ J L (add_mset p K) s"
    by (rule OnRecv_safe [OF that])
next
  fix s s' :: "('q, 'r, 'd, 'a) chat" and sid L K
  show "chat_safe W cap content Q capJ contentJ J L K s'"
    if "OnClientJoin W sid s = Inr s'" "chat_safe W cap content Q capJ contentJ J L K s"
    using that by (auto simp: OnClientJoin_def andThen_eq_Inr dest: JoinProc_safe)
qed

section \<open>Reachable states\<close>

lemma server_start_members:
  "sessionArray (server_start Q J db n s0) = replicate n (Session_new Q)"
  "packets (server_start Q J db n s0) = pool_new pkt_new"
  "redisQ (server_start Q J db n s0) = q_new J"
proof -
  have f: "sessionArray (fold (\<lambda>i s. s\<lparr>indexStack := int i # indexStack s\<rparr>) is s) = sessionArray s"
    "packets (fold (\<lambda>i s. s\<lparr>indexStack := int i # indexStack s\<rparr>) is s) = packets s" for "is" s
    by (induction "is" arbitrary: s) simp_all
  show "sessionArray (server_start Q J db n s0) = replicate n (Session_new Q)"
    "packets (server_start Q J db n s0) = pool_new pkt_new"
    by (simp_all add: server_start_def Start_def f chat_new_def)
  have "redisQ (server_start Q J db n s0) = redisQ (chat_new J db s0)" by (rule chat_more(5) [OF start_more(1)])
  then show "redisQ (server_start Q J db n s0) = q_new J" by (simp add: chat_new_def)
qed

lemma chat_safe_start:
  assumes "chat_env W cap content Q capJ contentJ J"
  shows "chat_safe W cap content Q capJ contentJ J n {#} (server_start Q J db n s0)"
proof -
  have "content (q_new Q) = []" "contentJ (q_new J) = []" using assms by (simp_all add: chat_env_def queue_laws_def)
  then have "sum_list (map (session_refs content) (replicate n (Session_new Q))) = {#}"
    by (induction n) (simp_all add: session_refs_def Session_new_def)
  moreover have "blocks (pl_list (pool_new pkt_new)) = {}" by (simp add: pool_new_def fl_new_def)
  ultimately show ?thesis
    using assms \<open>contentJ (q_new J) = []\<close> pool_ok_new [of "\<lambda>_. True" pkt_new]
    by (simp add: packets_safe_def server_start_members queued_def redis_refs_def refs_ok_def)
qed

lemma server_step_safe:
  assumes "server_step W Q J R s s'" and s: "chat_safe W cap content Q capJ contentJ J L {#} s"
  shows "chat_safe W cap content Q capJ contentJ J L {#} s'"
  using assms(1)
proof cases
  case (accepted k)
  then show ?thesis using chat_packets.safe_accept_step [OF _ s] by blast
next
  case (completed i U c)
  then have "i < L" using s by (simp add: packets_safe_def)
  then show ?thesis by (rule chat_packets.safe_worker_step [OF completed(2) s])
next
  case (login job q U)
  obtain sid p where job: "job = (sid, p)" by (cases job)
  have J: "queue_laws capJ contentJ J" using s by (simp add: packets_safe_def chat_env_def)
  have c: "contentJ (redisQ s) = (sid, p) # contentJ q"
    using queue_pop_Nil [OF J, of "redisQ s"] queue_pop_Cons [OF J, of "redisQ s"] login(1)
    by (cases "contentJ (redisQ s)") (fastforce simp: job)+
  have "chat_safe W cap content Q capJ contentJ J L (add_mset p {#}) (s\<lparr>redisQ := q\<rparr>)"
    using s by (simp add: packets_safe_def queued_def redis_refs_def c)
  with login(2) show ?thesis unfolding job by (rule redis_job_safe)
next
  case heartbeat
  then show ?thesis using CheckTimeOut_safe s by blast
next
  case monitor
  then show ?thesis using chat_packets.safe_monitor_step [OF s] by simp
qed

lemma reachable_safe:
  assumes "server_reachable W Q J R db n s0 s" and env: "chat_env W cap content Q capJ contentJ J"
  shows "chat_safe W cap content Q capJ contentJ J n {#} s"
  using assms(1) unfolding server_reachable_def
proof (induction rule: rtranclp_induct)
  case base
  show ?case by (rule chat_safe_start [OF env])
next
  case (step s s')
  then show ?case using server_step_safe by blast
qed

text \<open>
  C5. No dangling packets. In every reachable state every packet in the send queues of a session,
  in its queue of packets being sent, or in the queue of the Redis thread is in use in the pool,
  is not null, and is referenced at least as many times as it stands in these queues; so a worker
  that takes a packet out of a queue never touches one that was given back and handed out anew.
\<close>

theorem reachable_packets_live:
  assumes "server_reachable W Q J R db n s0 s" and "malloc_laws W" and "queue_laws cap content Q"
    and "queue_laws capJ contentJ J"
  shows "(\<forall>i p. i < length (sessionArray s) \<and>
      (p \<in> set (content (sendBuf (sess s i))) \<or> p \<in> set (content (completeSendBuf (sess s i)))) \<longrightarrow>
      p \<noteq> 0 \<and> p \<in> pool_live (packets s)) \<and>
    (\<forall>p. p \<in> snd ` set (contentJ (redisQ s)) \<longrightarrow> p \<noteq> 0 \<and> p \<in> pool_live (packets s)) \<and>
    (\<forall>p. p \<in># queued content s + mset (map snd (contentJ (redisQ s))) \<longrightarrow>
      int (count (queued content s + mset (map snd (contentJ (redisQ s)))) p) \<le> m_lRefCount (pl_objs (packets s) p))"
proof -
  have "chat_env W cap content Q capJ contentJ J" using assms(2-4) by (simp add: chat_env_def)
  from reachable_safe [OF assms(1) this] have r: "refs_ok W (now s) (queued content s + mset (map snd (contentJ (redisQ s)))) (packets s)"
    by (simp add: packets_safe_def redis_refs_def)
  note live = refs_okD [OF r] refs_ok_nonnull [OF assms(2) r]
  have q: "p \<in># queued content s"
    if "i < length (sessionArray s)" "p \<in> set (content (sendBuf (sess s i))) \<or> p \<in> set (content (completeSendBuf (sess s i)))" for i p
    using that(2) by (intro mset_subset_eqD [OF session_refs_queued [OF that(1)]]) (auto simp: session_refs_def)
  have j: "p \<in># mset (map snd (contentJ (redisQ s)))" if "p \<in> snd ` set (contentJ (redisQ s))" for p
    using that by simp
  let ?R = "queued content s + mset (map snd (contentJ (redisQ s)))"
  have "p \<noteq> 0 \<and> p \<in> pool_live (packets s)" if "p \<in># ?R" for p
    using live(1) [OF that] live(2) [OF that] by simp
  then have "p \<in># ?R \<Longrightarrow> p \<noteq> 0 \<and> p \<in> pool_live (packets s)" for p by blast
  note n = this
  show ?thesis
  proof (intro conjI allI impI; (elim conjE)?)
    show "p \<noteq> 0" "p \<in> pool_live (packets s)"
      if "i < length (sessionArray s)" "p \<in> set (content (sendBuf (sess s i))) \<or> p \<in> set (content (completeSendBuf (sess s i)))" for i p
      using n [of p] q [OF that] by simp_all
    show "p \<noteq> 0" "p \<in> pool_live (packets s)" if "p \<in> snd ` set (contentJ (redisQ s))" for p
      using n [of p] j [OF that] by simp_all
    show "int (count ?R p) \<le> m_lRefCount (pl_objs (packets s) p)" if "p \<in># ?R" for p
      using live(1) [OF that] by simp
  qed
qed

theorem reachable_packets_live_witness:
  "0 \<notin> set (sendBuf (sess one_client 0)) \<and> 0 \<notin> snd ` set (redisQ one_client)"
proof -
  have "length (sessionArray one_client) = 1"
    using reachable_safe [OF one_client_reachable, of 4096 "\<lambda>q. q" 65534 "\<lambda>q. q"] one_packet_server_ok(1)
    by (simp add: chat_env_def queue_laws_list packets_safe_def)
  with reachable_packets_live [OF one_client_reachable one_packet_server_ok(1) queue_laws_list queue_laws_list] show ?thesis
    by auto
qed

end
