(* ===== verification/Memory.thy ===== *)
theory Memory
  imports Server
begin

text \<open>
  The sizes of the memory the server works on never change. Each session of the array has its ring
  of \<open>BUF_SIZE\<close> bytes with both positions inside it, each slot number is an index of the array, each
  packet ever made has its 512 bytes, and each player its arrays for id, nick and key. Every handler
  keeps this, whatever the clients send: a copy that does not fit is a fault, and the loop that would
  replace the buffer of a packet never ends.
\<close>

section \<open>Rings\<close>

definition ring_typed :: "CRingBuffer \<Rightarrow> bool" where
  "ring_typed rb \<longleftrightarrow> rb_wf rb \<and> iBufSize rb = BUF_SIZE"

lemma ring_typed_new [simp]: "ring_typed rb_new"
  by (simp add: ring_typed_def rb_wf_new) (simp add: rb_new_def)

lemma ring_typed_clear [simp]: "ring_typed rb \<Longrightarrow> ring_typed (rb_ClearBuffer rb)"
  by (simp add: ring_typed_def rb_ClearBuffer_def rb_wf_def)

lemma ring_typed_data: "length d = length (rb_data rb) \<Longrightarrow> ring_typed (rb\<lparr>rb_data := d\<rparr>) = ring_typed rb"
  by (simp add: ring_typed_def rb_wf_def)

lemma c_mod_range: "c_mod a b = Inr r \<Longrightarrow> 0 \<le> a \<Longrightarrow> 0 < b \<Longrightarrow> 0 \<le> r \<and> r < b"
  by (auto simp: c_mod_def signed_modulo_int_def sgn_if split: if_splits)

lemma ring_typed_front:
  "ring_typed rb \<Longrightarrow> c_mod (iFrontPos rb + n) (iBufSize rb) = Inr f \<Longrightarrow> 0 \<le> n \<Longrightarrow> ring_typed (rb\<lparr>iFrontPos := f\<rparr>)"
  and ring_typed_rear:
  "ring_typed rb \<Longrightarrow> c_mod (iRearPos rb + n) (iBufSize rb) = Inr f \<Longrightarrow> 0 \<le> n \<Longrightarrow> ring_typed (rb\<lparr>iRearPos := f\<rparr>)"
  by (auto simp: ring_typed_def rb_wf_def dest!: c_mod_range)

lemma ring_typed_sizes: "ring_typed rb \<Longrightarrow> 0 \<le> rb_GetUseSize rb \<and> 0 \<le> rb_GetFreeSize rb"
  using rb_use_bound [of rb] by (simp add: ring_typed_def rb_GetFreeSize_length rb_GetUseSize_length)

lemma ring_typed_MoveFront: "rb_MoveFront n rb = Inr (rb', k) \<Longrightarrow> 0 \<le> n \<Longrightarrow> ring_typed rb \<Longrightarrow> ring_typed rb'"
  using ring_typed_sizes [of rb] by (auto simp: rb_MoveFront_def Let_def andThen_eq_Inr elim!: ring_typed_front split: if_splits)

lemma ring_typed_MoveRear: "rb_MoveRear n rb = Inr (rb', k) \<Longrightarrow> 0 \<le> n \<Longrightarrow> ring_typed rb \<Longrightarrow> ring_typed rb'"
  using ring_typed_sizes [of rb] by (auto simp: rb_MoveRear_def Let_def andThen_eq_Inr elim!: ring_typed_rear split: if_splits)

lemma ring_typed_Dequeue: "rb_Dequeue d n rb = Inr (rb', d', k) \<Longrightarrow> 0 \<le> n \<Longrightarrow> ring_typed rb \<Longrightarrow> ring_typed rb'"
  using ring_typed_sizes [of rb]
  by (auto simp: rb_Dequeue_def rb_copy_out_def Let_def andThen_eq_Inr elim!: ring_typed_front split: if_splits)

text \<open>Copies keep the length of what they write to.\<close>

lemma memcpy_length [dest]: "memcpy m off src n = Inr m' \<Longrightarrow> length m' = length m"
  using length_mem_write [of "nat off" "take (nat (size_t n)) src" m] pos_mod_bound [of "2 ^ 64" n]
  by (auto simp: memcpy_def size_t_def split: if_splits)

lemma memcpy_s_length [dest]: "memcpy_s m off k src n = Inr m' \<Longrightarrow> length m' = length m"
  by (auto simp: memcpy_s_def split: if_splits)

lemma rb_copy_out_length: "rb_copy_out d n rb = Inr (d', k) \<Longrightarrow> length d' = length d"
  by (auto simp: rb_copy_out_def Let_def andThen_eq_Inr dest!: memcpy_s_length split: if_splits)

lemma scatter_length: "scatter ws xs m = Inr m' \<Longrightarrow> length m' = length m"
  by (induction ws xs m rule: scatter.induct) (auto simp: andThen_eq_Inr Let_def split: if_splits)

section \<open>Packets\<close>

lemma pkt_512_fields [simp]:
  "pkt_512 (p\<lparr>m_iFront := a\<rparr>) = pkt_512 p" "pkt_512 (p\<lparr>m_iRear := b\<rparr>) = pkt_512 p"
  "pkt_512 (p\<lparr>m_iUsingSize := c\<rparr>) = pkt_512 p" "pkt_512 (p\<lparr>m_bIsEncoded := e\<rparr>) = pkt_512 p"
  "pkt_512 (p\<lparr>m_iRear := b, m_iUsingSize := c\<rparr>) = pkt_512 p" "pkt_512 (p\<lparr>m_iFront := b, m_iUsingSize := c\<rparr>) = pkt_512 p"
  "pkt_512 (p\<lparr>m_iFront := b, m_iRear := c\<rparr>) = pkt_512 p"
  by (simp_all add: pkt_512_def)

lemma pkt_512_reread [simp]: "pkt_512 (pkt_rewind p) = pkt_512 p"
  by (simp add: pkt_rewind_def)

lemma pkt_512_MoveWritePos [simp]: "pkt_512 (fst (pkt_MoveWritePos n p)) = pkt_512 p"
  by (simp add: pkt_MoveWritePos_def Let_def)

lemma pkt_512_grow: "pkt_IncreaseBufferSize ok n p = Inr p' \<Longrightarrow> p' = p"
  by (auto simp: pkt_IncreaseBufferSize_def Let_def grow_loop_None not_le split: if_splits)

lemma pkt_512_payload_write: "payload_write off src n p = Inr p' \<Longrightarrow> pkt_512 p \<Longrightarrow> pkt_512 p'"
  by (auto simp: payload_write_def andThen_eq_Inr pkt_512_def split: option.splits)

lemma pkt_512_WriteValue: "pkt_WriteValue ok v p = Inr p' \<Longrightarrow> pkt_512 p \<Longrightarrow> pkt_512 p'"
  and pkt_512_PutData: "pkt_PutData ok v n p = Inr p' \<Longrightarrow> pkt_512 p \<Longrightarrow> pkt_512 p'"
  by (auto simp: pkt_WriteValue_def pkt_PutData_def Let_def andThen_eq_Inr dest!: pkt_512_grow pkt_512_payload_write split: if_splits)

lemma pkt_512_ReadValue: "pkt_ReadValue v p = Inr (v', p') \<Longrightarrow> pkt_512 p \<Longrightarrow> pkt_512 p'"
  and pkt_512_GetData: "pkt_GetData v n p = Inr (v', p') \<Longrightarrow> pkt_512 p \<Longrightarrow> pkt_512 p'"
  by (auto simp: pkt_ReadValue_def pkt_GetData_def Let_def andThen_eq_Inr split: if_splits)

lemma pkt_GetData_length: "pkt_GetData v n p = Inr (v', p') \<Longrightarrow> length v' = length v"
  by (auto simp: pkt_GetData_def payload_read_def andThen_eq_Inr split: if_splits option.splits)

lemma pkt_512_SetMessageHeader: "pkt_SetMessageHeader h n p = Inr p' \<Longrightarrow> pkt_512 p \<Longrightarrow> pkt_512 p'"
  by (auto simp: pkt_SetMessageHeader_def andThen_eq_Inr pkt_512_def split: option.splits)

lemma pkt_512_SetEncodingCode: "pkt_SetEncodingCode r p = Inr p' \<Longrightarrow> pkt_512 p \<Longrightarrow> pkt_512 p'"
  by (auto simp: pkt_SetEncodingCode_def andThen_eq_Inr Let_def dest!: pkt_512_SetMessageHeader pkt_512_payload_write
      split: option.splits if_splits)

lemma pkt_512_SetDecodingCode: "pkt_SetDecodingCode p = Inr (ok, p') \<Longrightarrow> pkt_512 p \<Longrightarrow> pkt_512 p'"
  by (auto simp: pkt_SetDecodingCode_def andThen_eq_Inr Let_def dest!: pkt_512_payload_write split: option.splits if_splits)

lemma dequeue_into_typed:
  "dequeue_into n rb p = Inr (k, rb', p') \<Longrightarrow> 0 \<le> n \<Longrightarrow> ring_typed rb \<Longrightarrow> pkt_512 p \<Longrightarrow> ring_typed rb' \<and> pkt_512 p'"
proof -
  assume d: "dequeue_into n rb p = Inr (k, rb', p')" and n: "0 \<le> n" and rb: "ring_typed rb" and p: "pkt_512 p"
  then obtain b d where b: "m_cpHeadPtr p = Some b" and q: "rb_Dequeue (drop (nat eBUFFER_HEADER_SIZE) b) n rb = Inr (rb', d, k)"
    and p': "p' = p\<lparr>m_cpHeadPtr := Some (take (nat eBUFFER_HEADER_SIZE) b @ d)\<rparr>"
    by (auto simp: dequeue_into_def andThen_eq_Inr split: option.splits)
  have "length d = length (drop (nat eBUFFER_HEADER_SIZE) b)"
    using q by (auto simp: rb_Dequeue_def andThen_eq_Inr dest: rb_copy_out_length)
  with p b have "pkt_512 p'" by (auto simp: p' pkt_512_def pkt_consts)
  with ring_typed_Dequeue [OF q n rb] show ?thesis by simp
qed

definition packets_512 :: "CPacket pool \<Rightarrow> bool" where
  "packets_512 h \<longleftrightarrow> (\<forall>p. pkt_512 (pl_objs h p))"

lemma packets_512_upd [simp]: "packets_512 h \<Longrightarrow> pkt_512 (f (pl_objs h p)) \<Longrightarrow> packets_512 (pool_upd p f h)"
  by (simp add: packets_512_def)

lemma packets_512_refs [simp]:
  "packets_512 h \<Longrightarrow> packets_512 (pkt_AddRef p h)" "packets_512 h \<Longrightarrow> packets_512 (pkt_SubRef p h)"
  by (simp_all add: packets_512_def pkt_AddRef_def pkt_SubRef_def Let_def)

lemma packets_512_Alloc: "pkt_Alloc a h = Inr (p, h') \<Longrightarrow> packets_512 h \<Longrightarrow> packets_512 h'"
  using pkt_512_new pkt_Clear_512(1)
  by (auto simp: packets_512_def pkt_Alloc_def pool_Alloc_def andThen_eq_Inr)

section \<open>The network server\<close>

definition session_typed :: "nat \<Rightarrow> 'q Session \<Rightarrow> bool" where
  "session_typed L x \<longleftrightarrow> ring_typed (recvBuf x) \<and> 0 \<le> index x \<and> index x < int L"

definition memory_ok :: "nat \<Rightarrow> ('q, 'a) srv \<Rightarrow> bool" where
  "memory_ok L s \<longleftrightarrow>
     length (sessionArray s) = L \<and> (\<forall>x\<in>set (sessionArray s). session_typed L x) \<and>
     (\<forall>k\<in>set (indexStack s). 0 \<le> k \<and> k < int L) \<and> packets_512 (packets s)"

lemma session_typed_members [simp]:
  "session_typed L (x\<lparr>sock := a\<rparr>) = session_typed L x"
  "session_typed L (x\<lparr>sessionID := b\<rparr>) = session_typed L x"
  "session_typed L (x\<lparr>isSendFlag := c\<rparr>) = session_typed L x"
  "session_typed L (x\<lparr>sendCount := n\<rparr>) = session_typed L x"
  "session_typed L (x\<lparr>isReleased := c\<rparr>) = session_typed L x"
  "session_typed L (x\<lparr>ioCount := n\<rparr>) = session_typed L x"
  "session_typed L (x\<lparr>sendBuf := q\<rparr>) = session_typed L x"
  "session_typed L (x\<lparr>completeSendBuf := q\<rparr>) = session_typed L x"
  "session_typed L (x\<lparr>sendOverlap := c\<rparr>) = session_typed L x"
  "session_typed L (x\<lparr>recvOverlap := c\<rparr>) = session_typed L x"
  "session_typed L (x\<lparr>lastRecvTime := t\<rparr>) = session_typed L x"
  by (simp_all add: session_typed_def)

lemma session_typed_update [simp]:
  "session_typed L x \<Longrightarrow> ring_typed rb \<Longrightarrow> session_typed L (x\<lparr>recvBuf := rb\<rparr>)"
  "session_typed L x \<Longrightarrow> 0 \<le> k \<Longrightarrow> k < int L \<Longrightarrow> session_typed L (x\<lparr>index := k\<rparr>)"
  "session_typed L x \<Longrightarrow> session_typed L (x\<lparr>recvBuf := rb_ClearBuffer (recvBuf x)\<rparr>)"
  by (simp_all add: session_typed_def)

lemma memory_ok_simps [simp]:
  "memory_ok L (tick s) = memory_ok L s"
  "memory_ok L (s\<lparr>now := k\<rparr>) = memory_ok L s"
  "memory_ok L (add_call c s) = memory_ok L s"
  "memory_ok L (s\<lparr>sessionCount := n\<rparr>) = memory_ok L s"
  "memory_ok L (s\<lparr>recvTPS := t\<rparr>) = memory_ok L s"
  "memory_ok L (s\<lparr>sendTPS := t\<rparr>) = memory_ok L s"
  "memory_ok L (s\<lparr>srv_sessionID := t\<rparr>) = memory_ok L s"
  "memory_ok L (monitor_step s) = memory_ok L s"
  by (simp_all add: memory_ok_def tick_def add_call_def monitor_step_def)

lemma memory_ok_packets [simp]: "memory_ok L s \<Longrightarrow> packets_512 h \<Longrightarrow> memory_ok L (s\<lparr>packets := h\<rparr>)"
  by (simp add: memory_ok_def)

lemma memory_ok_512 [simp]: "memory_ok L s \<Longrightarrow> packets_512 (packets s)" "memory_ok L s \<Longrightarrow> pkt_512 (pl_objs (packets s) p)"
  by (simp_all add: memory_ok_def packets_512_def)

lemma memory_ok_sess: "memory_ok L s \<Longrightarrow> i < L \<Longrightarrow> session_typed L (sess s i)"
  by (simp add: memory_ok_def sess_def)

lemma memory_ok_ring [simp]: "memory_ok L s \<Longrightarrow> i < L \<Longrightarrow> ring_typed (recvBuf (sess s i))"
  using memory_ok_sess by (auto simp: session_typed_def)

lemma memory_ok_set_sess:
  assumes "memory_ok L s" and "i < L" and "session_typed L (sess s i) \<Longrightarrow> session_typed L (f (sess s i))"
  shows "memory_ok L (set_sess i f s)"
proof -
  have "session_typed L (f (sess s i))" using assms memory_ok_sess by blast
  with assms(1) show ?thesis
    using set_update_subset_insert [of "sessionArray s" i "f (sess s i)"] by (auto simp: memory_ok_def set_sess_def sess_def)
qed

lemma memory_ok_on_packet:
  "on_packet p f s = Inr s' \<Longrightarrow> memory_ok L s \<Longrightarrow> (\<And>x y. f x = Inr y \<Longrightarrow> pkt_512 x \<Longrightarrow> pkt_512 y) \<Longrightarrow> memory_ok L s'"
  by (auto simp: on_packet_def andThen_eq_Inr)

lemma packets_512_drain: "drain_loop Q c q h = Some (Inr (q', h')) \<Longrightarrow> packets_512 h \<Longrightarrow> packets_512 h'"
proof -
  have "packets_512 h \<longrightarrow> (\<forall>q' h'. r = Inr (q', h') \<longrightarrow> packets_512 h')" if "drain_loop Q c q h = Some r" for r
    using that
  proof (induct rule: drain_loop.raw_induct [rotated, consumes 1])
    case (1 rec Q c q h y)
    show ?case
    proof (cases "q_pop Q q")
      case None
      with 1(2) show ?thesis by auto
    next
      case (Some r)
      then obtain p q1 where pop: "q_pop Q q = Some (p, q1)" by (cases r) auto
      show ?thesis
      proof (cases "p = 0")
        case True
        with 1(2) pop show ?thesis using 1(1) [of Q c q1 h y] by (cases c) auto
      next
        case False
        with 1(2) pop have "rec Q c q1 (pkt_SubRef p h) = Some y" by simp
        from 1(1) [OF this] packets_512_refs(2) [of h p] show ?thesis by blast
      qed
    qed
  qed
  then show "drain_loop Q c q h = Some (Inr (q', h')) \<Longrightarrow> packets_512 h \<Longrightarrow> packets_512 h'" by blast
qed

lemma memory_ok_drain:
  "drain_sendBuf Q c i s = Inr s' \<Longrightarrow> memory_ok L s \<Longrightarrow> i < L \<Longrightarrow> memory_ok L s'"
  "drain_completeSendBuf Q c i s = Inr s' \<Longrightarrow> memory_ok L s \<Longrightarrow> i < L \<Longrightarrow> memory_ok L s'"
  by (auto simp: drain_sendBuf_def drain_completeSendBuf_def andThen_eq_Inr returned_def
      dest!: packets_512_drain intro!: memory_ok_set_sess split: option.splits)

lemma memory_ok_Session_Init:
  assumes "Session_Init Q i s = Inr s'" and "memory_ok L s" and "i < L"
  shows "memory_ok L s'"
proof -
  let ?s = "set_sess i (\<lambda>x. x\<lparr>sock := INVALID_SOCKET, sessionID := - 1, index := 0,
      isSendFlag := False, sendCount := 0, lastRecvTime := 0\<rparr>) s"
  have s: "memory_ok L ?s"
    using assms(3) by (intro memory_ok_set_sess [OF assms(2,3)]) (simp add: session_typed_def)
  from assms(1) obtain s2 s3 where "drain_sendBuf Q False i ?s = Inr s2" "drain_completeSendBuf Q False i s2 = Inr s3"
    and s': "s' = set_sess i (\<lambda>x. x\<lparr>isReleased := False, ioCount := 0\<rparr>) s3"
    unfolding Session_Init_def Let_def andThen_eq_Inr by blast
  with s assms(3) have "memory_ok L s3" using memory_ok_drain by blast
  with assms(3) show ?thesis unfolding s' by (intro memory_ok_set_sess) simp_all
qed

text \<open>\<open>OnClientLeave\<close> must leave the memory of the network server alone.\<close>

locale memory_holder =
  fixes leave :: "('q, 'a) leave"
  assumes leave_memory: "leave sid s = Inr s' \<Longrightarrow> memory_ok L s \<Longrightarrow> memory_ok L s'"
begin

lemma mem_ReleaseSession:
  assumes r: "ReleaseSession Q leave i s = Inr s'" and s: "memory_ok L s" and i: "i < L"
  shows "memory_ok L s'"
proof -
  from r obtain s1 s2 s3 s5 where l: "leave (sessionID (sess s i)) s = Inr s1"
    and d: "drain_sendBuf Q True i s1 = Inr s2" "drain_completeSendBuf Q True i s2 = Inr s3"
    and n: "Session_Init Q i (set_sess i (\<lambda>x. x\<lparr>recvBuf := rb_ClearBuffer (recvBuf x)\<rparr>) s3) = Inr s5"
    and e: "s' = IocpServer.PushIndex (index (sess s3 i)) s5\<lparr>sessionCount := sessionCount (IocpServer.PushIndex (index (sess s3 i)) s5) - 1\<rparr>"
    unfolding ReleaseSession_def Let_def andThen_eq_Inr by blast
  have s3: "memory_ok L s3" using leave_memory [OF l s] d memory_ok_drain i by blast
  then have "memory_ok L (set_sess i (\<lambda>x. x\<lparr>recvBuf := rb_ClearBuffer (recvBuf x)\<rparr>) s3)"
    using i by (intro memory_ok_set_sess) simp_all
  from memory_ok_Session_Init [OF n this i] memory_ok_sess [OF s3 i]
  show ?thesis by (simp add: e IocpServer.PushIndex_def session_typed_def memory_ok_def)
qed

lemma mem_DisConnect: "DisConnect Q leave i s = Inr s' \<Longrightarrow> memory_ok L s \<Longrightarrow> i < L \<Longrightarrow> memory_ok L s'"
  by (auto simp: DisConnect_def Let_def elim!: mem_ReleaseSession intro!: memory_ok_set_sess split: if_splits)

lemma mem_io_done: "io_done Q leave c i s = Inr s' \<Longrightarrow> memory_ok L s \<Longrightarrow> i < L \<Longrightarrow> memory_ok L s'"
  by (auto simp: io_done_def Let_def elim!: mem_ReleaseSession intro!: memory_ok_set_sess split: if_splits)

lemma mem_SessionUnLock: "SessionUnLock Q leave i s = Inr s' \<Longrightarrow> memory_ok L s \<Longrightarrow> i < L \<Longrightarrow> memory_ok L s'"
  by (auto simp: SessionUnLock_def dest: mem_io_done)

lemma mem_SessionLock:
  assumes "SessionLock Q leave sid s = Inr (r, s')" and s: "memory_ok L s"
  shows "memory_ok L s' \<and> (\<forall>i. r = Some i \<longrightarrow> i < L)"
proof -
  let ?i = "unat (GET_SESSION_INDEX sid)"
  have i: "?i < L" using assms by (cases "L \<le> ?i") (simp_all add: SessionLock_def memory_ok_def Let_def)
  have "memory_ok L (set_sess ?i (\<lambda>x. x\<lparr>ioCount := ioCount x + 1\<rparr>) s)" by (rule memory_ok_set_sess [OF s i]) simp
  with assms(1) i show ?thesis
    by (auto simp: SessionLock_def Let_def andThen_eq_Inr elim!: mem_io_done split: if_splits)
qed

lemma mem_Disconnect: "Disconnect Q leave sid s = Inr s' \<Longrightarrow> memory_ok L s \<Longrightarrow> memory_ok L s'"
  by (auto simp: Disconnect_def andThen_eq_Inr dest!: mem_SessionLock
      dest: mem_DisConnect mem_SessionUnLock split: option.splits)

lemma mem_PostSend:
  assumes r: "PostSend W Q leave i s = Inr (b, s')" and s: "memory_ok L s" and i: "i < L"
  shows "memory_ok L s'"
proof (cases "isSendFlag (sess s i)")
  case False
  have set1: "memory_ok L (set_sess i f t)" if "memory_ok L t" "\<And>x. session_typed L (f x) = session_typed L x" for f and t :: "('q, 'a) srv"
    using that i by (intro memory_ok_set_sess) simp_all
  show ?thesis using r False s i
    by (auto simp: PostSend_def Let_def andThen_eq_Inr intro!: set1 elim!: mem_ReleaseSession split: option.splits if_splits)
qed (use r s in \<open>simp add: PostSend_def\<close>)

lemma mem_SendPacket:
  assumes r: "SendPacket W Q leave sid p s = Inr s'" and s: "memory_ok L s"
  shows "memory_ok L s'"
proof -
  from r obtain who s1 where lock: "SessionLock Q leave sid s = Inr (who, s1)" by (auto simp: SendPacket_def andThen_eq_Inr)
  note s1 = mem_SessionLock [OF lock s]
  show ?thesis
  proof (cases who)
    case None
    with r lock s1 show ?thesis by (simp add: SendPacket_def)
  next
    case (Some i)
    with s1 have i: "i < L" by blast
    obtain s2 s4 where e: "on_packet p (pkt_SetEncodingCode (os_rand W (now s1))) (s1\<lparr>packets := pkt_AddRef p (packets s1)\<rparr>) = Inr s2"
      and snd: "s4 = set_sess i (\<lambda>x. x\<lparr>sendBuf := fst (q_push Q p (sendBuf x))\<rparr>) (tick s2) \<or>
        (\<exists>b. PostSend W Q leave i (set_sess i (\<lambda>x. x\<lparr>sendBuf := fst (q_push Q p (sendBuf x))\<rparr>) (tick s2)) = Inr (b, s4))"
      and u: "SessionUnLock Q leave i s4 = Inr s'"
      using r lock Some by (auto simp: SendPacket_def andThen_eq_Inr Let_def split: if_splits)
    have "memory_ok L (s1\<lparr>packets := pkt_AddRef p (packets s1)\<rparr>)" using conjunct1 [OF s1] by simp
    then have "memory_ok L s2" by (rule memory_ok_on_packet [OF e]) (erule pkt_512_SetEncodingCode)
    then have "memory_ok L (set_sess i (\<lambda>x. x\<lparr>sendBuf := fst (q_push Q p (sendBuf x))\<rparr>) (tick s2))"
      using i by (intro memory_ok_set_sess) simp_all
    with snd have "memory_ok L s4" using mem_PostSend i by blast
    with mem_SessionUnLock [OF u] i show ?thesis by blast
  qed
qed

lemma mem_complete_loop:
  "complete_loop Q leave i k s = Inr s' \<Longrightarrow> memory_ok L s \<Longrightarrow> i < L \<Longrightarrow> memory_ok L s'"
proof (induction k arbitrary: s)
  case (Suc k)
  show ?case
  proof (cases "q_pop Q (completeSendBuf (sess s i))")
    case None
    with Suc.prems mem_DisConnect show ?thesis by auto
  next
    case (Some r)
    then obtain p q where pop: "q_pop Q (completeSendBuf (sess s i)) = Some (p, q)" by (cases r) auto
    define s1 where "s1 = set_sess i (\<lambda>x. x\<lparr>completeSendBuf := q\<rparr>) s"
    have s1: "memory_ok L s1" unfolding s1_def by (rule memory_ok_set_sess [OF Suc.prems(2,3)]) simp
    show ?thesis
    proof (cases "p = 0")
      case True
      with Suc.prems(1) pop have "DisConnect Q leave i s1 = Inr s'" by (simp add: s1_def)
      with mem_DisConnect [OF _ s1 Suc.prems(3)] show ?thesis by blast
    next
      case False
      have "complete_loop Q leave i k (s1\<lparr>packets := pkt_SubRef p (packets s1), sendTPS := low_increment (sendTPS s1)\<rparr>) = Inr s'"
        using Suc.prems(1) pop False by (simp add: s1_def Let_def)
      moreover have "memory_ok L (s1\<lparr>packets := pkt_SubRef p (packets s1)\<rparr>\<lparr>sendTPS := low_increment (sendTPS s1)\<rparr>)"
        using s1 by (simp only: memory_ok_simps) simp
      ultimately show ?thesis using Suc.IH Suc.prems(3) by simp
    qed
  qed
qed simp

lemma mem_SendComplete:
  assumes r: "SendComplete W Q leave i n s = Inr s'" and s: "memory_ok L s" and i: "i < L"
  shows "memory_ok L s'"
proof -
  from r obtain s1 s2 where 1: "s1 = s \<or> DisConnect Q leave i s = Inr s1"
    and 2: "complete_loop Q leave i (nat (sendCount (sess s1 i))) (set_sess i (\<lambda>x. x\<lparr>sendCount := 0\<rparr>) s1) = Inr s2"
    and 3: "s' = set_sess i (\<lambda>x. x\<lparr>isSendFlag := False\<rparr>) s2 \<or>
      (\<exists>b. PostSend W Q leave i (set_sess i (\<lambda>x. x\<lparr>isSendFlag := False\<rparr>) s2) = Inr (b, s'))"
    by (auto simp: SendComplete_def andThen_eq_Inr Let_def split: if_splits)
  have "memory_ok L s1" using 1 s mem_DisConnect i by blast
  then have "memory_ok L (set_sess i (\<lambda>x. x\<lparr>sendCount := 0\<rparr>) s1)" using i by (intro memory_ok_set_sess) simp_all
  then have "memory_ok L s2" using mem_complete_loop [OF 2 _ i] by blast
  then have "memory_ok L (set_sess i (\<lambda>x. x\<lparr>isSendFlag := False\<rparr>) s2)" using i by (intro memory_ok_set_sess) simp_all
  with 3 mem_PostSend i show ?thesis by blast
qed

lemma mem_PostRecv: "PostRecv W Q leave i s = Inr (b, s') \<Longrightarrow> memory_ok L s \<Longrightarrow> i < L \<Longrightarrow> memory_ok L s'"
  by (auto simp: PostRecv_def andThen_eq_Inr Let_def elim!: mem_ReleaseSession mem_DisConnect intro!: memory_ok_set_sess split: if_splits)

lemma mem_recv_step:
  assumes r: "recv_step W i s = Inr (out, s')" and s: "memory_ok L s" and i: "i < L"
  shows "memory_ok L s'"
proof -
  consider "s' = s"
    | hb f rb1 p h1 s1 s2 got rb2 x and w :: WORD where "rb_MoveFront 5 (recvBuf (sess s i)) = Inr (rb1, f)"
      "pkt_Alloc (os_malloc W (now s)) (packets s) = Inr (p, h1)"
      "s1 = tick (set_sess i (\<lambda>x. x\<lparr>recvBuf := rb1\<rparr>) (s\<lparr>packets := pool_upd p pkt_Clear h1\<rparr>))"
      "on_packet p (pkt_SetMessageHeader hb MESSAGE_HEADER_LEN) s1 = Inr s2"
      "dequeue_into (int (unat w)) rb1 (pl_objs (packets s2) p) = Inr (got, rb2, x)"
      "(let s3 = set_sess i (\<lambda>y. y\<lparr>recvBuf := rb2\<rparr>) (s2\<lparr>packets := pool_upd p (\<lambda>_. x) (packets s2)\<rparr>)
        in if int (unat w) \<noteq> got then Inr (Refuse, s3)
           else andThen (pkt_SetDecodingCode (fst (pkt_MoveWritePos (int (unat w)) x))) (\<lambda>(ok, y).
             let s4 = s3\<lparr>packets := pool_upd p (\<lambda>_. y) (packets s3)\<rparr>
             in if \<not> ok then Inr (Refuse, s4\<lparr>packets := pkt_SubRef p (packets s4)\<rparr>)
                else Inr (Deliver p, s4\<lparr>recvTPS := low_increment (recvTPS s4)\<rparr>))) = Inr (out, s')"
    using r unfolding recv_step_def Let_def by (auto simp: andThen_eq_Inr split: if_splits)
  then show ?thesis
  proof cases
    case 2
    have rb1: "ring_typed rb1" by (rule ring_typed_MoveFront [OF 2(1)]) (use s i in simp_all)
    have "packets_512 h1" by (rule packets_512_Alloc [OF 2(2)]) (use s in simp)
    then have "packets_512 (pool_upd p pkt_Clear h1)" by (intro packets_512_upd pkt_Clear_512(1)) (simp_all add: packets_512_def)
    then have "memory_ok L s1" unfolding 2(3) using s i rb1 by (auto intro!: memory_ok_set_sess)
    then have s2: "memory_ok L s2" by (rule memory_ok_on_packet [OF 2(4)]) (erule pkt_512_SetMessageHeader)
    have x: "ring_typed rb2 \<and> pkt_512 x" by (rule dequeue_into_typed [OF 2(5)]) (use rb1 s2 in simp_all)
    define s3 where "s3 = set_sess i (\<lambda>y. y\<lparr>recvBuf := rb2\<rparr>) (s2\<lparr>packets := pool_upd p (\<lambda>_. x) (packets s2)\<rparr>)"
    have s3: "memory_ok L s3" unfolding s3_def using s2 x i by (intro memory_ok_set_sess) simp_all
    show ?thesis
    proof (cases "int (unat w) = got")
      case False
      with 2(6) s3 show ?thesis by (simp add: s3_def)
    next
      case True
      with 2(6) obtain ok y where d: "pkt_SetDecodingCode (fst (pkt_MoveWritePos (int (unat w)) x)) = Inr (ok, y)"
        by (auto simp: andThen_eq_Inr Let_def)
      with x have y: "pkt_512 y" using pkt_512_SetDecodingCode pkt_512_MoveWritePos by blast
      define s5 where "s5 = s3\<lparr>packets := pool_upd p (\<lambda>_. y) (packets s3)\<rparr>"
      have s5: "memory_ok L s5" unfolding s5_def using s3 y by simp
      have "s' = s5\<lparr>packets := pkt_SubRef p (packets s5)\<rparr> \<or> s' = s5\<lparr>recvTPS := low_increment (recvTPS s5)\<rparr>"
        using 2(6) True d by (cases ok) (auto simp: s3_def s5_def Let_def)
      with s5 show ?thesis by auto
    qed
  qed (use s in simp)
qed

lemma mem_CreateSession:
  assumes "CreateSession W k s = Inr (i, s')" and s: "memory_ok L s"
  shows "memory_ok L s' \<and> i < L"
proof -
  from assms(1) obtain idx st where st: "indexStack s = idx # st"
    and i: "0 \<le> idx" "idx < int (length (sessionArray s))" "i = nat idx"
    and s': "s' = (let s2 = add_call (OsKeepAlive k) (s\<lparr>indexStack := st, srv_sessionID := srv_sessionID s + 1\<rparr>);
             s3 = set_sess i (\<lambda>x. x\<lparr>sessionID := COMBINE_ID_INDEX (srv_sessionID s2) (of_int idx),
                                    index := idx, sock := k, recvBuf := rb_ClearBuffer (recvBuf x),
                                    lastRecvTime := os_tick W (now s2)\<rparr>) s2
         in tick s3\<lparr>sessionCount := sessionCount s3 + 1, acceptTPS := acceptTPS s3 + 1, acceptCount := acceptCount s3 + 1\<rparr>)"
    by (auto simp: CreateSession_def PopIndex_def Let_def split: list.splits if_splits)
  have L: "i < L" "idx < int L" using i s by (auto simp: memory_ok_def)
  have "memory_ok L (add_call (OsKeepAlive k) (s\<lparr>indexStack := st, srv_sessionID := srv_sessionID s + 1\<rparr>))"
    using s st by (simp add: memory_ok_def add_call_def)
  then have b: "memory_ok L (set_sess i (\<lambda>x. x\<lparr>sessionID := a, index := idx, sock := k, recvBuf := rb_ClearBuffer (recvBuf x), lastRecvTime := t\<rparr>)
      (add_call (OsKeepAlive k) (s\<lparr>indexStack := st, srv_sessionID := srv_sessionID s + 1\<rparr>)))" for a t
    using L i(1) by (intro memory_ok_set_sess) (simp_all add: session_typed_def)
  have "memory_ok L s'"
    unfolding s' Let_def using b by (simp add: memory_ok_def tick_def)
  with L show ?thesis by simp
qed

end

text \<open>
  And so must \<open>OnRecv\<close> and \<open>OnClientJoin\<close>, given an invariant \<open>P\<close> of the members of the subclass that
  they keep together with it.
\<close>

locale memory_server = memory_holder leave + app_invariant P leave
  for leave :: "('q, 'a) leave" and P :: "('q, 'a) srv \<Rightarrow> bool" +
  fixes recv :: "('q, 'a) recv" and join :: "UINT64 \<Rightarrow> ('q, 'a) srv \<Rightarrow> ('q, 'a) srv res"
  assumes recv_memory: "recv sid p s = Inr s' \<Longrightarrow> memory_ok L s \<and> P s \<Longrightarrow> memory_ok L s' \<and> P s'"
    and join_memory: "join sid s = Inr s' \<Longrightarrow> memory_ok L s \<and> P s \<Longrightarrow> memory_ok L s' \<and> P s'"
begin

lemma both_DisConnect: "DisConnect Q leave i s = Inr s' \<Longrightarrow> memory_ok L s \<and> P s \<Longrightarrow> i < L \<Longrightarrow> memory_ok L s' \<and> P s'"
  by (auto dest: mem_DisConnect I_DisConnect)

lemma both_PostRecv: "PostRecv W Q leave i s = Inr (b, s') \<Longrightarrow> memory_ok L s \<and> P s \<Longrightarrow> i < L \<Longrightarrow> memory_ok L s' \<and> P s'"
  by (auto dest: mem_PostRecv I_PostRecv)

lemma both_io_done: "io_done Q leave c i s = Inr s' \<Longrightarrow> memory_ok L s \<and> P s \<Longrightarrow> i < L \<Longrightarrow> memory_ok L s' \<and> P s'"
  by (auto dest: mem_io_done I_io_done)

lemma mem_recv_loop:
  assumes "recv_loop W Q leave recv i s = Some (Inr (b, s'))" and "memory_ok L s \<and> P s" and "i < L"
  shows "memory_ok L s' \<and> P s'"
proof -
  have "l = leave \<longrightarrow> r' = recv \<longrightarrow> i < L \<longrightarrow> memory_ok L s \<and> P s \<longrightarrow> (\<forall>b s'. r = Inr (b, s') \<longrightarrow> memory_ok L s' \<and> P s')"
    if "recv_loop W Q l r' i s = Some r" for l r' r
    using that
  proof (induct rule: recv_loop.raw_induct [rotated, consumes 1])
    case (1 rl W Q l r' i s y)
    show ?case
    proof (intro impI allI)
      fix b s' assume eq: "l = leave" "r' = recv" and i: "i < L" and s: "memory_ok L s \<and> P s" and y: "y = Inr (b, s')"
      obtain res s1 where step: "recv_step W i s = Inr (res, s1)"
        using 1(2) y eq by (cases "recv_step W i s") auto
      have s1: "memory_ok L s1 \<and> P s1" using mem_recv_step [OF step _ i] I_recv_step [OF step] s by blast
      show "memory_ok L s' \<and> P s'"
      proof (cases res)
        case (Deliver p)
        then obtain s2 where s2: "recv (sessionID (sess s1 i)) p s1 = Inr s2"
          and go_on: "rl W Q leave recv i (s2\<lparr>packets := pkt_SubRef p (packets s2)\<rparr>) = Some y"
          using 1(2) step eq y by (auto split: sum.splits)
        have "memory_ok L (s2\<lparr>packets := pkt_SubRef p (packets s2)\<rparr>) \<and> P (s2\<lparr>packets := pkt_SubRef p (packets s2)\<rparr>)"
          using recv_memory [OF s2 s1] by (elim conjE) simp
        with 1(1) [OF go_on] y i show ?thesis by blast
      next
        case NeedMore
        with 1(2) step eq y s1 show ?thesis by simp
      next
        case Refuse
        with 1(2) step eq y have "DisConnect Q leave i s1 = Inr s'" by (simp add: andThen_eq_Inr)
        then show ?thesis using both_DisConnect s1 i by blast
      qed
    qed
  qed
  with assms show ?thesis by blast
qed

lemma mem_RecvComplete:
  assumes "RecvComplete W Q leave recv i n s = Inr s'" and s: "memory_ok L s \<and> P s" and i: "i < L"
  shows "memory_ok L s' \<and> P s'"
proof (cases "n = 0")
  case True
  with assms both_DisConnect show ?thesis by (auto simp: RecvComplete_def)
next
  case False
  with assms(1) obtain rb r go s2 where mv: "rb_MoveRear (int n) (recvBuf (sess s i)) = Inr (rb, r)" and
    loop: "returned (recv_loop W Q leave recv i
        (tick (set_sess i (\<lambda>x. x\<lparr>lastRecvTime := os_tick W (now s), recvBuf := rb\<rparr>) s))) = Inr (go, s2)"
    and rest: "s' = s2 \<or> (\<exists>b. PostRecv W Q leave i s2 = Inr (b, s'))"
    by (auto simp: RecvComplete_def andThen_eq_Inr Let_def split: if_splits)
  have "ring_typed rb" by (rule ring_typed_MoveRear [OF mv]) (use conjunct1 [OF s] i in simp_all)
  then have "memory_ok L (set_sess i (\<lambda>x. x\<lparr>lastRecvTime := os_tick W (now s), recvBuf := rb\<rparr>) s)"
    using s i by (intro memory_ok_set_sess) simp_all
  then have t: "memory_ok L (tick (set_sess i (\<lambda>x. x\<lparr>lastRecvTime := os_tick W (now s), recvBuf := rb\<rparr>) s)) \<and>
      P (tick (set_sess i (\<lambda>x. x\<lparr>lastRecvTime := os_tick W (now s), recvBuf := rb\<rparr>) s))" using s by simp
  have "recv_loop W Q leave recv i (tick (set_sess i (\<lambda>x. x\<lparr>lastRecvTime := os_tick W (now s), recvBuf := rb\<rparr>) s)) =
      Some (Inr (go, s2))" using loop by (simp add: returned_def split: option.splits)
  then have "memory_ok L s2 \<and> P s2" by (rule mem_recv_loop [OF _ t i])
  with rest both_PostRecv i show ?thesis by blast
qed

lemma mem_worker_step:
  assumes "worker_step W Q leave recv i c s = Inr s'" and s: "memory_ok L s \<and> P s" and i: "i < L"
  shows "memory_ok L s' \<and> P s'"
proof (cases c)
  case (RecvDone bytes)
  with assms obtain d s1 where d: "scatter (recv_regions (recvBuf (sess s i))) bytes (rb_data (recvBuf (sess s i))) = Inr d"
    and r: "RecvComplete W Q leave recv i (length bytes)
      (set_sess i (\<lambda>x. x\<lparr>recvOverlap := False, recvBuf := (recvBuf x)\<lparr>rb_data := d\<rparr>\<rparr>) s) = Inr s1"
    "io_done Q leave False i s1 = Inr s'" by (auto simp: worker_step_def andThen_eq_Inr)
  have "ring_typed ((recvBuf (sess s i))\<lparr>rb_data := d\<rparr>)" using ring_typed_data [OF scatter_length [OF d]] conjunct1 [OF s] i by simp
  then have "memory_ok L (set_sess i (\<lambda>x. x\<lparr>recvOverlap := False, recvBuf := (recvBuf x)\<lparr>rb_data := d\<rparr>\<rparr>) s)"
    using s i by (intro memory_ok_set_sess) (simp_all add: session_typed_def)
  with s have "memory_ok L s1 \<and> P s1" by (intro mem_RecvComplete [OF r(1) _ i]) simp
  with r(2) i both_io_done show ?thesis by blast
next
  case (SendDone n)
  with assms obtain s1 where r: "SendComplete W Q leave i n (set_sess i (\<lambda>x. x\<lparr>sendOverlap := False\<rparr>) s) = Inr s1"
    "io_done Q leave False i s1 = Inr s'" by (auto simp: worker_step_def andThen_eq_Inr)
  have "memory_ok L (set_sess i (\<lambda>x. x\<lparr>sendOverlap := False\<rparr>) s)" using s i by (intro memory_ok_set_sess) simp_all
  then have "memory_ok L s1 \<and> P s1" using mem_SendComplete [OF r(1) _ i] I_SendComplete [OF r(1)] s by simp
  with r(2) i both_io_done show ?thesis by blast
qed

lemma mem_accept_step:
  assumes "accept_step W Q leave join request k s = Inr s'" and s: "memory_ok L s \<and> P s"
  shows "memory_ok L s' \<and> P s'"
proof -
  from assms(1) consider "s' = add_call (OsClose k) s"
    | i s1 s2 b where "CreateSession W k s = Inr (i, s1)" "join (sessionID (sess s1 i)) s1 = Inr s2"
      "PostRecv W Q leave i s2 = Inr (b, s')"
    by (auto simp: accept_step_def andThen_eq_Inr split: if_splits)
  then show ?thesis
  proof cases
    case 2
    have "i < L \<and> memory_ok L s1 \<and> P s1" using mem_CreateSession [OF 2(1)] I_CreateSession [OF 2(1)] s by blast
    with join_memory [OF 2(2)] both_PostRecv [OF 2(3)] show ?thesis by blast
  qed (use s in simp)
qed

end

section \<open>The chat server\<close>

definition player_typed :: "Player \<Rightarrow> bool" where
  "player_typed x \<longleftrightarrow> length (p_id x) = 40 \<and> length (nick x) = 40 \<and> length (sessionKey x) = 64"

definition players_typed :: "('q, 'r, 'd, 'a) chat \<Rightarrow> bool" where
  "players_typed s \<longleftrightarrow> (\<forall>p. player_typed (pl_objs (playerPool s) p))"

abbreviation chat_typed :: "nat \<Rightarrow> ('q, 'r, 'd, 'a) chat \<Rightarrow> bool" where
  "chat_typed L s \<equiv> memory_ok L s \<and> players_typed s"

lemma players_typed_player: "players_typed s \<Longrightarrow> player_typed (player s p)"
  by (simp add: players_typed_def player_def)

lemma memory_ok_players [simp]:
  "memory_ok L (s\<lparr>playerPool := pp\<rparr>) = memory_ok L s" "memory_ok L (s\<lparr>players := ps\<rparr>) = memory_ok L s"
  "memory_ok L (s\<lparr>accounts := a\<rparr>) = memory_ok L s" "memory_ok L (s\<lparr>sector := g\<rparr>) = memory_ok L s"
  "memory_ok L (s\<lparr>redisQ := q\<rparr>) = memory_ok L s" "memory_ok L (s\<lparr>redis := d\<rparr>) = memory_ok L s"
  "memory_ok L (set_player p f s) = memory_ok L s"
  by (simp_all add: memory_ok_def set_player_def)

lemma players_typed_simps [simp]:
  "players_typed (s\<lparr>players := ps\<rparr>) = players_typed s" "players_typed (s\<lparr>accounts := a\<rparr>) = players_typed s"
  "players_typed (s\<lparr>sector := g\<rparr>) = players_typed s" "players_typed (s\<lparr>redisQ := q\<rparr>) = players_typed s"
  "players_typed (s\<lparr>redis := d\<rparr>) = players_typed s" "players_typed (s\<lparr>packets := h\<rparr>) = players_typed s"
  "players_typed (tick s) = players_typed s"
  "players_typed (s\<lparr>playerPool := pool_Free p (playerPool s)\<rparr>) = players_typed s"
  by (simp_all add: players_typed_def tick_def)

lemma players_typed_set [simp]:
  "players_typed s \<Longrightarrow> player_typed (f (player s p)) \<Longrightarrow> players_typed (set_player p f s)"
  by (simp add: players_typed_def set_player_def player_def)

lemma player_typed_members [simp]:
  "player_typed (x\<lparr>p_ref := n\<rparr>) = player_typed x" "player_typed (x\<lparr>closing := b\<rparr>) = player_typed x"
  "player_typed (x\<lparr>p_lastRecvTime := t\<rparr>) = player_typed x"
  "player_typed (x\<lparr>sectorX := a\<rparr>) = player_typed x" "player_typed (x\<lparr>sectorY := c\<rparr>) = player_typed x"
  "player_typed (x\<lparr>isLogined := b\<rparr>) = player_typed x" "player_typed (x\<lparr>accountNo := d\<rparr>) = player_typed x"
  "player_typed (x\<lparr>p_sessionID := d\<rparr>) = player_typed x" "player_typed (Player_Reset x)"
  "player_typed Player_new"
  by (simp_all add: player_typed_def Player_Reset_def Player_new_def)

lemma players_typed_refs [simp]:
  "players_typed s \<Longrightarrow> players_typed (AddRefPlayer p s)" "players_typed s \<Longrightarrow> players_typed (ReleasePlayer p s)"
  "memory_ok L (AddRefPlayer p s) = memory_ok L s" "memory_ok L (ReleasePlayer p s) = memory_ok L s"
  by (simp_all add: AddRefPlayer_def ReleasePlayer_def Let_def players_typed_player)

lemma LeaveProc_memory [simp]: "memory_ok L (LeaveProc sid s) = memory_ok L s"
  by (simp add: LeaveProc_def Let_def split: option.split)

lemma LeaveProc_players [simp]: "players_typed s \<Longrightarrow> players_typed (LeaveProc sid s)"
  by (simp add: LeaveProc_def Let_def players_typed_player split: option.split)

lemma AcquirePlayer_typed: "AcquirePlayer sid s = (who, s1) \<Longrightarrow> chat_typed L s \<Longrightarrow> chat_typed L s1"
  by (auto simp: AcquirePlayer_def Let_def split: option.splits if_splits)

lemma JoinProc_typed:
  assumes "JoinProc W sid s = Inr (ok, s')" and s: "chat_typed L s"
  shows "chat_typed L s'"
proof -
  from assms(1) obtain p pp where a: "pool_Alloc Player_new (os_malloc W (now s)) (playerPool s) = Inr (p, pp)"
    by (auto simp: JoinProc_def andThen_eq_Inr)
  have "players_typed (s\<lparr>playerPool := pp\<rparr>)"
    using a s by (auto simp: pool_Alloc_def andThen_eq_Inr players_typed_def)
  with assms(1) s a show ?thesis
    by (auto simp: JoinProc_def andThen_eq_Inr Let_def players_typed_def set_player_def tick_def split: if_splits)
qed

interpretation chat_mem: memory_holder "OnClientLeave :: UINT64 \<Rightarrow> ('q, 'r, 'd, 'a) chat \<Rightarrow> ('q, 'r, 'd, 'a) chat res"
  by unfold_locales (auto simp: OnClientLeave_def)

interpretation chat_players: app_invariant "players_typed :: ('q, 'r, 'd, 'a) chat \<Rightarrow> bool" OnClientLeave
proof
  fix s s' :: "('q, 'r, 'd, 'a) chat"
  show "players_typed s'" if "players_typed s" "IOCPServer.more s' = IOCPServer.more s"
    using that(1) chat_more(4) [OF that(2)] by (simp add: players_typed_def)
next
  fix s s' :: "('q, 'r, 'd, 'a) chat" and sid
  show "players_typed s'" if "players_typed s" "OnClientLeave sid s = Inr s'"
    using that by (auto simp: OnClientLeave_def)
qed

section \<open>The handlers\<close>

context memory_holder
begin

lemma mem_read_value: "read_value p old s = Inr (v, s') \<Longrightarrow> memory_ok L s \<Longrightarrow> memory_ok L s'"
  by (auto simp: read_value_def read_packet_def andThen_eq_Inr dest!: pkt_512_ReadValue)

lemma mem_get_data: "get_data p dst n s = Inr (v, s') \<Longrightarrow> memory_ok L s \<Longrightarrow> memory_ok L s'"
  by (auto simp: get_data_def read_packet_def andThen_eq_Inr dest!: pkt_512_GetData)

lemma mem_write_value: "write_value p v s = Inr s' \<Longrightarrow> memory_ok L s \<Longrightarrow> memory_ok L s'"
  by (auto simp: write_value_def elim!: memory_ok_on_packet pkt_512_WriteValue)

lemma mem_put_data: "put_data p src n s = Inr s' \<Longrightarrow> memory_ok L s \<Longrightarrow> memory_ok L s'"
  by (auto simp: put_data_def elim!: memory_ok_on_packet pkt_512_PutData)

lemma mem_alloc_packet: "alloc_packet W s = Inr (p, s') \<Longrightarrow> memory_ok L s \<Longrightarrow> memory_ok L s'"
  by (auto simp: alloc_packet_def andThen_eq_Inr dest!: packets_512_Alloc)

lemma mem_encode_packet: "encode_packet W p s = Inr s' \<Longrightarrow> memory_ok L s \<Longrightarrow> memory_ok L s'"
  by (auto simp: encode_packet_def andThen_eq_Inr elim!: memory_ok_on_packet pkt_512_SetEncodingCode)

lemma mem_sub_ref [simp]: "memory_ok L s \<Longrightarrow> memory_ok L (sub_ref p s)"
  by (simp add: sub_ref_def)

lemmas mem_packet_ops = mem_read_value mem_get_data mem_write_value mem_put_data mem_alloc_packet mem_encode_packet

lemma mem_MakeLoginResult: "MakeLoginResult W a i n s = Inr (p, s') \<Longrightarrow> memory_ok L s \<Longrightarrow> memory_ok L s'"
  by (auto simp: MakeLoginResult_def andThen_eq_Inr dest!: mem_packet_ops)

lemma mem_Res_Login: "Res_Login W a st s = Inr (p, s') \<Longrightarrow> memory_ok L s \<Longrightarrow> memory_ok L s'"
  by (auto simp: Res_Login_def andThen_eq_Inr dest!: mem_packet_ops)

lemma mem_Res_SectorMove: "Res_SectorMove W a x y s = Inr (p, s') \<Longrightarrow> memory_ok L s \<Longrightarrow> memory_ok L s'"
  by (auto simp: Res_SectorMove_def andThen_eq_Inr dest!: mem_packet_ops)

end

lemma typed_read:
  "read_value p old s = Inr (v, s') \<Longrightarrow> chat_typed L s \<Longrightarrow> chat_typed L s'"
  "get_data p dst n s = Inr (v, s') \<Longrightarrow> chat_typed L s \<Longrightarrow> chat_typed L s' \<and> length v = length dst"
  by (auto dest: chat_mem.mem_read_value chat_players.I_read_value chat_mem.mem_get_data chat_players.I_get_data)
     (auto simp: get_data_def read_packet_def andThen_eq_Inr dest: pkt_GetData_length)

lemma typed_send:
  "SendPacket W Q OnClientLeave sid p s = Inr s' \<Longrightarrow> chat_typed L s \<Longrightarrow> chat_typed L s'"
  "Disconnect Q OnClientLeave sid s = Inr s' \<Longrightarrow> chat_typed L s \<Longrightarrow> chat_typed L s'"
  by (auto dest: chat_mem.mem_SendPacket chat_players.I_SendPacket chat_mem.mem_Disconnect chat_players.I_Disconnect)

lemma typed_Res:
  "MakeLoginResult W a i n s = Inr (p, s') \<Longrightarrow> chat_typed L s \<Longrightarrow> chat_typed L s'"
  "Res_Login W a st s = Inr (p, s') \<Longrightarrow> chat_typed L s \<Longrightarrow> chat_typed L s'"
  "Res_SectorMove W a x y s = Inr (p, s') \<Longrightarrow> chat_typed L s \<Longrightarrow> chat_typed L s'"
  by (auto dest: chat_mem.mem_MakeLoginResult chat_players.I_MakeLoginResult chat_mem.mem_Res_Login chat_players.I_Res_Login
      chat_mem.mem_Res_SectorMove chat_players.I_Res_SectorMove)

lemma typed_Res_Chat:
  assumes "Res_Chat W pl msg len s = Inr (p, s')" and "chat_typed L s"
  shows "chat_typed L s'"
proof
  show "memory_ok L s'" using assms by (auto simp: Res_Chat_def andThen_eq_Inr dest!: chat_mem.mem_packet_ops)
  show "players_typed s'" using assms by (auto simp: Res_Chat_def andThen_eq_Inr dest!: chat_players.I_packet_ops)
qed

lemma typed_sub_ref: "chat_typed L s \<Longrightarrow> chat_typed L (sub_ref p s)"
  by (simp add: chat_players.I_sub_ref)

lemma typed_send_all: "send_all W Q p sids s = Inr s' \<Longrightarrow> chat_typed L s \<Longrightarrow> chat_typed L s'"
  by (induction sids arbitrary: s) (auto simp: andThen_eq_Inr dest: typed_send)

lemma typed_kick_all: "kick_all Q sids s = Inr s' \<Longrightarrow> chat_typed L s \<Longrightarrow> chat_typed L s'"
  by (induction sids arbitrary: s) (auto simp: andThen_eq_Inr dest: typed_send)

lemma typed_Req_Login: "Req_Login_Redis J sid pl p s = (ok, s') \<Longrightarrow> chat_typed L s \<Longrightarrow> chat_typed L s'"
  by (auto simp: Req_Login_Redis_def EnqueueRedis_def split: if_splits)

lemma typed_Req_Chat: "Req_Chat W Q U sid pl p s = Inr (ok, s') \<Longrightarrow> chat_typed L s \<Longrightarrow> chat_typed L s'"
  unfolding Req_Chat_def Let_def
  by (auto simp: andThen_eq_Inr simp del: mem_simps dest!: typed_read typed_Res_Chat typed_send_all [where L = L]
      intro: typed_sub_ref split: if_splits)

lemma typed_move_player:
  assumes r: "move_player W Q sid pl account x y s = Inr (ok, s')" and s: "chat_typed L s"
  shows "chat_typed L s'"
proof (cases "IsValidSector x y")
  case True
  define s2 where "s2 = tick (set_player pl (\<lambda>z. z\<lparr>sectorX := x, sectorY := y, p_lastRecvTime := os_tick W (now s)\<rparr>)
      (s\<lparr>sector := move_sector pl (sectorX (player s pl), sectorY (player s pl)) (x, y) (sector s)\<rparr>))"
  have s2: "chat_typed L s2" using s by (simp add: s2_def players_typed_player)
  obtain res s3 s4 where "Res_SectorMove W account x y s2 = Inr (res, s3)"
    "SendPacket W Q OnClientLeave sid res s3 = Inr s4" "s' = sub_ref res s4"
    using r True by (auto simp: move_player_def Let_def andThen_eq_Inr s2_def)
  with s2 typed_Res(3) typed_send(1) typed_sub_ref show ?thesis by metis
qed (use assms in \<open>simp add: move_player_def\<close>)

lemma typed_Req_SectorMove:
  assumes "Req_SectorMove W Q U sid pl p s = Inr (ok, s')" and "chat_typed L s"
  shows "chat_typed L s'"
  using assms unfolding Req_SectorMove_def andThen_pair_eq by (metis typed_read(1) typed_move_player)

lemma typed_RecvProc:
  assumes r: "RecvProc W Q J U sid p s = Inr (ok, s')" and s: "chat_typed L s"
  shows "chat_typed L s'"
proof (cases "AcquirePlayer sid s")
  case (Pair who s1)
  have s1: "chat_typed L s1" by (rule AcquirePlayer_typed [OF Pair s])
  show ?thesis
  proof (cases who)
    case None
    with r Pair s1 show ?thesis by (simp add: RecvProc_def)
  next
    case (Some pl)
    define s2 where "s2 = tick (set_player pl (\<lambda>x. x\<lparr>p_lastRecvTime := os_tick W (now s1)\<rparr>) s1)"
    have s2: "chat_typed L s2" using s1 by (simp add: s2_def players_typed_player)
    from r Pair Some obtain tb s3 s4 where
      rd: "read_value p (WORD_bytes 0) s2 = Inr (tb, s3)"
      and h: "Req_Login_Redis J sid pl p s3 = (ok, s4) \<or> Req_SectorMove W Q U sid pl p s3 = Inr (ok, s4) \<or>
        Req_Chat W Q U sid pl p s3 = Inr (ok, s4) \<or> s4 = s3"
      and s': "s' = ReleasePlayer pl s4"
      by (auto simp: RecvProc_def s2_def [symmetric] andThen_eq_Inr Let_def split: if_splits)
    note s3 = typed_read(1) [OF rd s2]
    from h have "chat_typed L s4"
    proof (elim disjE)
      assume "s4 = s3"
      with s3 show ?thesis by simp
    qed (rule typed_Req_Login typed_Req_SectorMove typed_Req_Chat, assumption, rule s3)+
    then show ?thesis unfolding s' by simp
  qed
qed

lemma typed_OnRecv: "OnRecv W Q J U sid p s = Inr s' \<Longrightarrow> chat_typed L s \<Longrightarrow> chat_typed L s'"
  unfolding OnRecv_def andThen_pair_eq using typed_RecvProc typed_send(2) by (metis Inr_inject)

lemma wcscpy_s20_length: "wcscpy_s20 dst src = Inr r \<Longrightarrow> length dst = 40 \<Longrightarrow> length r = 40"
proof -
  assume r: "wcscpy_s20 dst src = Inr r" and d: "length dst = 40"
  then obtain k ks where k: "filter (is_nul src) [0..<20] = k # ks" and w: "r = mem_write dst 0 (take (2 * k + 2) src)"
    by (auto simp: wcscpy_s20_def split: list.splits)
  have "k \<in> set (filter (is_nul src) [0..<20])" by (simp add: k)
  then have "k < 20" by simp
  with d show ?thesis unfolding w by (subst length_mem_write) auto
qed

lemma typed_login_mark:
  assumes "wcscpy_s20 (p_id (player s pl)) wid = Inr i" and "wcscpy_s20 (nick (player s pl)) nk = Inr n" and s: "chat_typed L s"
  shows "chat_typed L (set_player pl (\<lambda>x. x\<lparr>p_id := i, nick := n\<rparr>) s)"
proof -
  have "player_typed (player s pl)" using s by (simp add: players_typed_player)
  then have "player_typed ((player s pl)\<lparr>p_id := i, nick := n\<rparr>)"
    using wcscpy_s20_length [OF assms(1)] wcscpy_s20_length [OF assms(2)] by (simp add: player_typed_def)
  with s show ?thesis by simp
qed

lemma typed_CompleteLogin:
  fixes s :: "('q, 'r, 'd, 'a) chat"
  assumes r: "CompleteLogin W Q U sid p success s = Inr (ok, s')" and s: "chat_typed L s"
  shows "chat_typed L s'"
proof (cases "AcquirePlayer sid s")
  case (Pair who s1)
  have s1: "chat_typed L s1" by (rule AcquirePlayer_typed [OF Pair s])
  show ?thesis
  proof (cases "who = None \<or> p_sessionID (player s1 (the who)) \<noteq> sid \<or> closing (player s1 (the who))")
    case True
    from CompleteLogin_early [OF r Pair True] s1 show ?thesis by auto
  next
    case False
    then obtain pl where pl: "who = Some pl" "p_sessionID (player s1 pl) = sid" "\<not> closing (player s1 pl)" by (cases who) auto
    then have acquired: "AcquirePlayer sid s = (Some pl, s1)" using Pair by simp
    obtain ab s2 wid s3 nk s4 i n st s5 res s6 s7 where
      rd: "read_value p (INT64_bytes 0) s1 = Inr (ab, s2)" "get_data p (junk U 40) dfID_LEN s2 = Inr (wid, s3)"
        "get_data p (junk (\<lambda>k. U (k + 40)) 40) dfNiCK_LEN s3 = Inr (nk, s4)"
      and s5: "s5 = s4 \<or> s5 = set_player pl (\<lambda>x. x\<lparr>p_id := i, nick := n\<rparr>) (login_marked sid pl (INT64_of ab) s4) \<and>
        wcscpy_s20 (p_id (player (login_marked sid pl (INT64_of ab) s4) pl)) wid = Inr i \<and>
        wcscpy_s20 (nick (player (login_marked sid pl (INT64_of ab) s4) pl)) nk = Inr n"
      and rest: "Res_Login W (INT64_of ab) st s5 = Inr (res, s6)" "SendUnicast W Q sid res s6 = Inr s7"
      and s': "s' = ReleasePlayer pl (sub_ref res s7)"
      by (rule CompleteLogin_steps [OF r acquired pl(2,3)])
    have s4: "chat_typed L s4" using rd s1 typed_read by metis
    then have m: "chat_typed L (login_marked sid pl (INT64_of ab) s4)" by (simp add: login_marked_def players_typed_player)
    from s5 have "chat_typed L s5" using typed_login_mark [OF _ _ m] s4 by blast
    then have "chat_typed L s7" using typed_send(1) [OF _ typed_Res(2) [OF rest(1)]] rest(2) unfolding SendUnicast_def by blast
    from typed_sub_ref [OF this] show ?thesis by (simp add: s')
  qed
qed

lemma typed_redis_job:
  fixes s :: "('q, 'r, 'd, 'a) chat"
  assumes "redis_job W Q R U job s = Inr s'" and s: "chat_typed L s"
  shows "chat_typed L s'"
proof -
  obtain sid p where job: "job = (sid, p)" by (cases job)
  from assms(1) obtain ab s1 wid s2 nk s3 ck s4 db ok res s6 b s7 where
    rd: "read_value p (INT64_bytes 0) s = Inr (ab, s1)" "get_data p (replicate 40 0) dfID_LEN s1 = Inr (wid, s2)"
      "get_data p (replicate 40 0) dfNiCK_LEN s2 = Inr (nk, s3)" "get_data p (replicate 64 0) dfSESSIONKEY_LEN s3 = Inr (ck, s4)"
    and rest: "MakeLoginResult W (INT64_of ab) wid nk (s4\<lparr>redis := db\<rparr>) = Inr (res, s6)"
      "CompleteLogin W Q U sid res ok s6 = Inr (b, s7)" and s': "s' = sub_ref p (sub_ref res s7)"
    by (auto simp: redis_job_def job andThen_eq_Inr Let_def)
  have "chat_typed L s4" using rd s typed_read by metis
  then have "chat_typed L (s4\<lparr>redis := db\<rparr>)" by simp
  from typed_CompleteLogin [OF rest(2) typed_Res(1) [OF rest(1) this]] show ?thesis
    unfolding s' by (intro typed_sub_ref)
qed

lemma typed_CheckTimeOut: "CheckTimeOut W Q s = Inr s' \<Longrightarrow> chat_typed L s \<Longrightarrow> chat_typed L s'"
  unfolding CheckTimeOut_def Let_def by (erule typed_kick_all) simp

interpretation chat_memory: memory_server OnClientLeave "players_typed :: ('q, 'r, 'd, 'a) chat \<Rightarrow> bool" "OnRecv W Q J U"
    "OnClientJoin W" for W Q J U
proof
  fix s s' :: "('q, 'r, 'd, 'a) chat" and sid p L
  show "chat_typed L s'" if "OnRecv W Q J U sid p s = Inr s'" "chat_typed L s" using typed_OnRecv that by blast
next
  fix s s' :: "('q, 'r, 'd, 'a) chat" and sid L
  show "chat_typed L s'" if "OnClientJoin W sid s = Inr s'" "chat_typed L s"
    using that by (auto simp: OnClientJoin_def andThen_eq_Inr dest: JoinProc_typed)
qed

section \<open>Reachable states\<close>

lemma chat_typed_start: "chat_typed n (server_start Q J db n s0)"
proof
  have f: "sessionArray (fold (\<lambda>i s. s\<lparr>indexStack := int i # indexStack s\<rparr>) is s) = sessionArray s"
    "packets (fold (\<lambda>i s. s\<lparr>indexStack := int i # indexStack s\<rparr>) is s) = packets s"
    "set (indexStack (fold (\<lambda>i s. s\<lparr>indexStack := int i # indexStack s\<rparr>) is s)) = int ` set is \<union> set (indexStack s)" for "is" s
    by (induction "is" arbitrary: s) auto
  have "session_typed n (Session_new Q)" if "0 < n" using that by (simp add: session_typed_def Session_new_def)
  moreover have "packets_512 (pool_new pkt_new)" by (simp add: packets_512_def pool_new_def pkt_512_new)
  ultimately show "memory_ok n (server_start Q J db n s0)"
    by (auto simp: memory_ok_def server_start_def Start_def f chat_new_def)
  have "players_typed (chat_new J db s0)" by (simp add: players_typed_def chat_new_def pool_new_def)
  then show "players_typed (server_start Q J db n s0)"
    using chat_more(4) [OF start_more(1), of Q J db n s0] by (simp add: players_typed_def)
qed

lemma server_step_typed:
  assumes "server_step W Q J R s s'" and s: "chat_typed L s"
  shows "chat_typed L s'"
  using assms(1)
proof cases
  case (accepted k)
  then show ?thesis using chat_memory.mem_accept_step s by blast
next
  case (completed i U c)
  then have "i < L" using s by (simp add: memory_ok_def)
  then show ?thesis using chat_memory.mem_worker_step [OF completed(2) s] by blast
next
  case (login job q U)
  from s have "chat_typed L (s\<lparr>redisQ := q\<rparr>)" by simp
  then show ?thesis by (rule typed_redis_job [OF login(2)])
next
  case heartbeat
  then show ?thesis using typed_CheckTimeOut s by blast
next
  case monitor
  with s have "memory_ok L s'" by simp
  moreover have "playerPool s' = playerPool s" by (simp add: monitor monitor_step_def)
  then have "players_typed s' = players_typed s" by (simp only: players_typed_def)
  ultimately show ?thesis using s by blast
qed

lemma reachable_typed:
  assumes "server_reachable W Q J R db n s0 s"
  shows "chat_typed n s"
  using assms unfolding server_reachable_def
proof (induction rule: rtranclp_induct)
  case base
  show ?case by (rule chat_typed_start)
next
  case (step s s')
  then show ?case using server_step_typed by blast
qed

text \<open>
  C15. In every reachable state, whatever the clients send and however the network and \<open>malloc\<close> behave:
  there are as many sessions as at the start; each has a ring of \<open>BUF_SIZE\<close> bytes with both positions
  inside it, and a slot number inside the array, as has every number on the stack of free slots; every
  packet, in use or not, has its buffer of 512 bytes, and every player its arrays of 40, 40 and 64.
\<close>

theorem reachable_memory_typed:
  assumes "server_reachable W Q J R db n s0 s"
  shows "length (sessionArray s) = n \<and>
    list_all (\<lambda>x. iBufSize (recvBuf x) = 65536 \<and> length (rb_data (recvBuf x)) = 65536 \<and>
      iFrontPos (recvBuf x) \<in> {0..<65536} \<and> iRearPos (recvBuf x) \<in> {0..<65536} \<and> index x \<in> {0..<int n}) (sessionArray s) \<and>
    list_all (\<lambda>k. k \<in> {0..<int n}) (indexStack s) \<and>
    (\<forall>p. m_iMaxSize (pl_objs (packets s) p) = 512 \<and> (\<exists>b. m_cpHeadPtr (pl_objs (packets s) p) = Some b \<and> length b = 512)) \<and>
    (\<forall>p. length (p_id (player s p)) = 40 \<and> length (nick (player s p)) = 40 \<and> length (sessionKey (player s p)) = 64)"
proof -
  have "memory_ok n s" "players_typed s" using reachable_typed [OF assms] by blast+
  then show ?thesis
    by (auto simp: memory_ok_def list_all_iff session_typed_def ring_typed_def rb_wf_def BUF_SIZE_def packets_512_def
        pkt_512_def players_typed_def player_typed_def player_def)
qed

theorem reachable_memory_typed_witness:
  "length (sessionArray one_client) = 1 \<and> index (hd (sessionArray one_client)) = 0 \<and> length (p_id (player one_client 2)) = 40"
proof -
  note t = reachable_memory_typed [OF one_client_reachable]
  then have l: "length (sessionArray one_client) = 1" by blast
  then obtain x where x: "sessionArray one_client = [x]" by (auto simp: length_Suc_conv)
  with t have "index x = 0" by simp
  with t l x show ?thesis by simp
qed

end
