(* ===== verification/ChatReceive.thy ===== *)
theory ChatReceive
  imports Holding ChatRefs Memory
begin

text \<open>
  The receive loop with the handlers of the chat server: \<open>OnRecv\<close> keeps the contract of the loop (theory Framing) while the
  receive that is being completed is still counted, because a session with an operation pending keeps its slot
  (theory Holding), its packets stay live (theory ChatRefs) and its ring well formed (theory Memory).
\<close>

section \<open>The handler keeps the contract of the loop\<close>

definition chat_receives ::
  "os \<Rightarrow> nat \<Rightarrow> ('q \<Rightarrow> nat list) \<Rightarrow> (nat, 'q) queue_ops \<Rightarrow> nat \<Rightarrow> ('r \<Rightarrow> st_Redis list) \<Rightarrow> (st_Redis, 'r) queue_ops \<Rightarrow> nat \<Rightarrow> nat \<Rightarrow>
   UINT64 \<Rightarrow>   ('q, 'r, 'd, 'a) chat \<Rightarrow> bool" where
  "chat_receives W cap content Q capJ contentJ J L i sid s \<longleftrightarrow>
     chat_safe W cap content Q capJ contentJ J L {#} s \<and> chat_typed L s \<and> i < L \<and> 1 \<le> ioCount (sess s i) \<and>
     sessionID (sess s i) = sid"

lemma receive_path_ok:
  assumes "chat_receives W cap content Q capJ contentJ J L i sid s"
  shows "malloc_laws W \<and> net_ok W s \<and> i < length (sessionArray s) \<and> rb_wf (recvBuf (sess s i))"
proof -
  have m: "memory_ok L s" "i < L" "packets_safe (chat_env W cap content Q capJ contentJ J) W content (redis_refs contentJ) L {#} s"
    using assms by (simp_all add: chat_receives_def)
  then have "pool_ok pkt_512 (packets s)" "blocks (pl_list (packets s)) \<subseteq> os_malloc W ` {..<now s}" "malloc_laws W"
    by (auto simp: packets_safe_def refs_ok_def pool_ok_def memory_ok_def packets_512_def chat_env_def)
  moreover have "ring_typed (recvBuf (sess s i))" using m by simp
  ultimately show ?thesis using m by (simp add: net_ok_def ring_typed_def memory_ok_def)
qed

lemma OnRecv_keeps:
  assumes inv: "chat_receives W cap content Q capJ contentJ J L i sid s" and step: "recv_step W i s = Inr (Deliver p, s1)"
    and r: "OnRecv W Q J U (sessionID (sess s1 i)) p s1 = Inr s2"
  shows "rb_list (recvBuf (sess s2 i)) = rb_list (recvBuf (sess s1 i)) \<and>
    chat_receives W cap content Q capJ contentJ J L i sid (s2\<lparr>packets := pkt_SubRef p (packets s2)\<rparr>)"
proof -
  let ?s3 = "s2\<lparr>packets := pkt_SubRef p (packets s2)\<rparr>"
  have s: "chat_safe W cap content Q capJ contentJ J L {#} s" "chat_typed L s" "i < L" "1 \<le> ioCount (sess s i)" "sessionID (sess s i) = sid"
    using inv by (simp_all add: chat_receives_def)
  have io: "ioCount (sess s1 i) = ioCount (sess s i)" "sessionID (sess s1 i) = sid"
  proof -
    from receive_path_ok [OF inv] have path: "malloc_laws W" "net_ok W s" "i < length (sessionArray s)" "rb_wf (recvBuf (sess s i))"
      by simp_all
    obtain s1' p' where "recv_step W i s = Inr (Deliver p', s1')" "recv_frame i p' s s1'"
      using recv_step_parses [OF path] step by (cases "parse1 (rb_list (recvBuf (sess s i)))") auto
    with step have "recv_frame i p s s1" by simp
    then have "sess s1 i = (sess s i)\<lparr>recvBuf := recvBuf (sess s1 i)\<rparr>" unfolding recv_frame_def by blast
    from arg_cong [OF this, of ioCount] arg_cong [OF this, of sessionID] s(5)
    show "ioCount (sess s1 i) = ioCount (sess s i)" "sessionID (sess s1 i) = sid" by simp_all
  qed
  have k: "kept i s1 s2" using kept_OnRecv [OF r] s(4) io by simp
  have safe1: "chat_safe W cap content Q capJ contentJ J L (add_mset p {#}) s1"
    using chat_refs.safe_recv_step [OF step s(1)] by simp
  have "chat_safe W cap content Q capJ contentJ J L {#} ?s3"
    using chat_refs.safe_SubRef [OF OnRecv_safe [OF r safe1]] .
  moreover have "chat_typed L s1" using chat_mem.mem_recv_step [OF step] chat_players.I_recv_step [OF step] s(2,3) by blast
  with typed_OnRecv [OF r] have t2: "chat_typed L s2" by blast
  then have "memory_ok L s2" by (rule conjunct1)
  then have "memory_ok L ?s3" by simp
  moreover have "playerPool ?s3 = playerPool s2" by simp
  then have "players_typed ?s3 = players_typed s2" by (simp only: players_typed_def)
  ultimately have "chat_receives W cap content Q capJ contentJ J L i sid ?s3"
    using t2 s(3,4) io k by (simp add: chat_receives_def counted_def)
  with k show ?thesis by (simp add: counted_def)
qed

interpretation chat_stream: stream_receiver W i "chat_receives W cap content Q capJ contentJ J L i sid" "OnRecv W Q J U"
  for W i sid cap content Q capJ contentJ J L U
  by unfold_locales (rule receive_path_ok OnRecv_keeps; assumption)+

section \<open>A receive that is done\<close>

text \<open>The bytes are behind those of the ring of slot \<open>i\<close>; all else that counts is as before.\<close>

definition filled :: "nat \<Rightarrow> byte list \<Rightarrow> ('q, 'a) srv \<Rightarrow> ('q, 'a) srv \<Rightarrow> bool" where
  "filled i bytes s s1 \<longleftrightarrow>
     rb_list (recvBuf (sess s1 i)) = rb_list (recvBuf (sess s i)) @ bytes \<and>
     sessionID (sess s1 i) = sessionID (sess s i) \<and> ioCount (sess s1 i) = ioCount (sess s i) \<and>
     isReleased (sess s1 i) = isReleased (sess s i) \<and> (\<forall>j. j \<noteq> i \<longrightarrow> sess s1 j = sess s j) \<and>
     packets s1 = packets s \<and> os_calls s1 = os_calls s \<and> IOCPServer.more s1 = IOCPServer.more s"

lemma filled_ring:
  assumes inv: "chat_receives W cap content Q capJ contentJ J L i sid s" and "bytes \<noteq> []"
    and room: "int (length bytes) \<le> rb_GetFreeSize (recvBuf (sess s i))"
  shows "\<exists>s1. filled i bytes s s1 \<and> chat_receives W cap content Q capJ contentJ J L i sid s1 \<and>
    worker_step W Q leave recv i (RecvDone bytes) s =
      andThen (andThen (returned (recv_loop W Q leave recv i s1)) (\<lambda>(go, s2).
        if \<not> go then Inr s2 else if isReleased (sess s2 i) then Inr s2
        else andThen (PostRecv W Q leave i s2) (\<lambda>(b, s3). Inr s3))) (io_done Q leave False i)"
proof -
  let ?rb = "recvBuf (sess s i)"
  have m: "memory_ok L s" "players_typed s" "i < L" "i < length (sessionArray s)" "rb_wf ?rb"
    and safe: "chat_safe W cap content Q capJ contentJ J L {#} s"
    using inv receive_path_ok [OF inv] by (simp_all add: chat_receives_def)
  from recv_appends [OF m(5) room] obtain d rb' where d: "scatter (recv_regions ?rb) bytes (rb_data ?rb) = Inr d"
    and mv: "rb_MoveRear (int (length bytes)) (?rb\<lparr>rb_data := d\<rparr>) = Inr (rb', iRearPos rb')"
    and rb: "rb_wf rb'" "rb_list rb' = rb_list ?rb @ bytes" by blast
  define s0 where "s0 = set_sess i (\<lambda>x. x\<lparr>recvOverlap := False, recvBuf := (recvBuf x)\<lparr>rb_data := d\<rparr>\<rparr>) s"
  define s1 where "s1 = tick (set_sess i (\<lambda>x. x\<lparr>lastRecvTime := os_tick W (now s), recvBuf := rb'\<rparr>) s0)"
  have x0: "sess s0 i = (sess s i)\<lparr>recvOverlap := False, recvBuf := ?rb\<lparr>rb_data := d\<rparr>\<rparr>" using m(4) by (simp add: s0_def)
  have x1: "sess s1 i = (sess s0 i)\<lparr>lastRecvTime := os_tick W (now s), recvBuf := rb'\<rparr>"
    using m(4) by (simp add: s1_def) (simp add: s0_def)
  have fill: "filled i bytes s s1"
    unfolding filled_def x1 x0 by (simp add: rb) (simp add: s1_def s0_def sess_other)
  have ring0: "ring_typed (?rb\<lparr>rb_data := d\<rparr>)" using ring_typed_data [OF scatter_length [OF d]] m(1,3) by simp
  have "memory_ok L s0"
    unfolding s0_def using m(1,3) ring0 by (intro memory_ok_set_sess) (simp_all add: session_typed_def)
  moreover have "ring_typed rb'" by (rule ring_typed_MoveRear [OF mv _ ring0]) simp
  ultimately have "memory_ok L (set_sess i (\<lambda>x. x\<lparr>lastRecvTime := os_tick W (now s), recvBuf := rb'\<rparr>) s0)"
    using m(3) by (intro memory_ok_set_sess) simp_all
  then have "memory_ok L s1" by (simp add: s1_def)
  moreover have "IOCPServer.more s1 = IOCPServer.more s" by (simp add: s1_def s0_def)
  then have "playerPool s1 = playerPool s" by (rule chat_more)
  then have "players_typed s1" using m(2) by (simp add: players_typed_def)
  moreover have "chat_safe W cap content Q capJ contentJ J L {#} s1"
    unfolding s1_def s0_def using safe by (intro chat_refs.safe_simps(1) chat_refs.safe_set_sess) simp_all
  ultimately have "chat_receives W cap content Q capJ contentJ J L i sid s1"
    using inv fill by (simp add: chat_receives_def filled_def)
  moreover have "worker_step W Q leave recv i (RecvDone bytes) s =
      andThen (andThen (returned (recv_loop W Q leave recv i s1)) (\<lambda>(go, s2).
        if \<not> go then Inr s2 else if isReleased (sess s2 i) then Inr s2
        else andThen (PostRecv W Q leave i s2) (\<lambda>(b, s3). Inr s3))) (io_done Q leave False i)"
    using assms(2) mv by (simp add: worker_step_def d RecvComplete_def s0_def [symmetric] x0 Let_def) (simp add: s1_def s0_def)
  ultimately show ?thesis using fill by blast
qed

text \<open>
  C2. A receive is handed to the handlers of the chat server as the packets of the stream. In every reachable state, when a
  receive of a session, still counted, is done with some bytes that fit in the ring - what \<open>PostRecv\<close> gave to \<open>WSARecv\<close> - the
  payloads the reference parser finds in the bytes of the ring and the new ones are handed to \<open>OnRecv\<close> of the chat
  server, each once and in order, and the session keeps its slot and its id meanwhile, whatever \<open>OnRecv\<close> does to it. When
  \<open>OnRecv\<close> returns from all of them, the worker posts the next receive with the unparsed rest in the ring unless the session is
  marked as released, drops the connection, or overruns a packet, as the parser says; when \<open>OnRecv\<close> faults or never returns from one
  of them, so does the worker there, and the later ones are not handled.
\<close>

theorem receive_reaches_handlers:
  assumes "server_reachable W Q J R db n s0 s" and "malloc_laws W" and "queue_laws cap content Q"
    and "queue_laws capJ contentJ J" and "i < n" and "1 \<le> ioCount (sess s i)"
    and "bytes \<noteq> []" and "int (length bytes) \<le> rb_GetFreeSize (recvBuf (sess s i))"
    and "parse (rb_list (recvBuf (sess s i)) @ bytes) = (ds, e)"
  shows "\<exists>s1. filled i bytes s s1 \<and>
    ((\<exists>s'. delivers W (OnRecv W Q J U) i ds s1 s' \<and> sessionID (sess s' i) = sessionID (sess s i) \<and> 1 \<le> ioCount (sess s' i) \<and>
       (case e of
          Waiting r \<Rightarrow> rb_list (recvBuf (sess s' i)) = r \<and>
            worker_step W Q OnClientLeave (OnRecv W Q J U) i (RecvDone bytes) s =
              andThen (if isReleased (sess s' i) then Inr s' else andThen (PostRecv W Q OnClientLeave i s') (\<lambda>(b, s3). Inr s3))
                (io_done Q OnClientLeave False i)
        | Refused \<Rightarrow> \<exists>s2. recv_step W i s' = Inr (Refuse, s2) \<and>
            worker_step W Q OnClientLeave (OnRecv W Q J U) i (RecvDone bytes) s =
              andThen (DisConnect Q OnClientLeave i s2) (io_done Q OnClientLeave False i)
        | Overrunning \<Rightarrow> worker_step W Q OnClientLeave (OnRecv W Q J U) i (RecvDone bytes) s = Inl OutOfBoundsWrite)) \<or>
     (\<exists>ds1 d ds2 s' p s2 err. ds = ds1 @ d # ds2 \<and> delivers W (OnRecv W Q J U) i ds1 s1 s' \<and>
       recv_step W i s' = Inr (Deliver p, s2) \<and> pkt_list (pl_objs (packets s2) p) = d \<and>
       OnRecv W Q J U (sessionID (sess s2 i)) p s2 = Inl err \<and>
       worker_step W Q OnClientLeave (OnRecv W Q J U) i (RecvDone bytes) s = Inl err))"
proof -
  have "chat_receives W cap content Q capJ contentJ J n i (sessionID (sess s i)) s"
    using reachable_safe [OF assms(1)] reachable_typed [OF assms(1)] assms(2-6) by (simp add: chat_receives_def chat_env_def)
  from filled_ring [OF this assms(7,8), of OnClientLeave "OnRecv W Q J U"] obtain s1 where fill: "filled i bytes s s1"
    and inv: "chat_receives W cap content Q capJ contentJ J n i (sessionID (sess s i)) s1"
    and w: "worker_step W Q OnClientLeave (OnRecv W Q J U) i (RecvDone bytes) s =
      andThen (andThen (returned (recv_loop W Q OnClientLeave (OnRecv W Q J U) i s1)) (\<lambda>(go, s2).
        if \<not> go then Inr s2 else if isReleased (sess s2 i) then Inr s2
        else andThen (PostRecv W Q OnClientLeave i s2) (\<lambda>(b, s3). Inr s3))) (io_done Q OnClientLeave False i)" by blast
  have "parse (rb_list (recvBuf (sess s1 i))) = (ds, e)" using assms(9) fill by (simp add: filled_def)
  from chat_stream.loop_delivers [OF inv this, of U Q OnClientLeave] show ?thesis
  proof (elim disjE exE conjE)
    fix s' assume d: "delivers W (OnRecv W Q J U) i ds s1 s'"
      and k: "chat_receives W cap content Q capJ contentJ J n i (sessionID (sess s i)) s'"
      and c: "case e of
         Waiting r \<Rightarrow> recv_loop W Q OnClientLeave (OnRecv W Q J U) i s1 = Some (Inr (True, s')) \<and> rb_list (recvBuf (sess s' i)) = r
       | Refused \<Rightarrow> (\<exists>s2. recv_step W i s' = Inr (Refuse, s2) \<and> recv_loop W Q OnClientLeave (OnRecv W Q J U) i s1 =
           Some (andThen (DisConnect Q OnClientLeave i s2) (\<lambda>s3. Inr (False, s3))))
       | Overrunning \<Rightarrow> recv_loop W Q OnClientLeave (OnRecv W Q J U) i s1 = Some (Inl OutOfBoundsWrite)"
    show ?thesis
    proof (rule exI [of _ s1], rule conjI [OF fill], rule disjI1, rule exI [of _ s'], intro conjI)
      show "delivers W (OnRecv W Q J U) i ds s1 s'" by (rule d)
      show "sessionID (sess s' i) = sessionID (sess s i)" "1 \<le> ioCount (sess s' i)" using k by (simp_all add: chat_receives_def)
      show "case e of
          Waiting r \<Rightarrow> rb_list (recvBuf (sess s' i)) = r \<and>
            worker_step W Q OnClientLeave (OnRecv W Q J U) i (RecvDone bytes) s =
              andThen (if isReleased (sess s' i) then Inr s' else andThen (PostRecv W Q OnClientLeave i s') (\<lambda>(b, s3). Inr s3))
                (io_done Q OnClientLeave False i)
        | Refused \<Rightarrow> \<exists>s2. recv_step W i s' = Inr (Refuse, s2) \<and>
            worker_step W Q OnClientLeave (OnRecv W Q J U) i (RecvDone bytes) s =
              andThen (DisConnect Q OnClientLeave i s2) (io_done Q OnClientLeave False i)
        | Overrunning \<Rightarrow> worker_step W Q OnClientLeave (OnRecv W Q J U) i (RecvDone bytes) s = Inl OutOfBoundsWrite"
      proof (cases e)
        case Refused
        with c obtain s2 where "recv_step W i s' = Inr (Refuse, s2)" "recv_loop W Q OnClientLeave (OnRecv W Q J U) i s1 =
            Some (andThen (DisConnect Q OnClientLeave i s2) (\<lambda>s3. Inr (False, s3)))" by auto
        with Refused show ?thesis by (cases "DisConnect Q OnClientLeave i s2") (simp_all add: w)
      qed (use c in \<open>simp_all add: w\<close>)
    qed
  next
    fix ds1 d ds2 s' p s2 err assume "ds = ds1 @ d # ds2" "delivers W (OnRecv W Q J U) i ds1 s1 s'"
      "recv_step W i s' = Inr (Deliver p, s2)" "pkt_list (pl_objs (packets s2) p) = d"
      "OnRecv W Q J U (sessionID (sess s2 i)) p s2 = Inl err"
      "recv_loop W Q OnClientLeave (OnRecv W Q J U) i s1 = Some (Inl err)"
    moreover from this(6) have "worker_step W Q OnClientLeave (OnRecv W Q J U) i (RecvDone bytes) s = Inl err" by (simp add: w)
    ultimately show ?thesis using fill by blast
  qed
qed

section \<open>A client that sends\<close>

lemma one_client_session:
  "ioCount (sess one_client 0) = 1 \<and> rb_list (recvBuf (sess one_client 0)) = [] \<and> rb_GetFreeSize (recvBuf (sess one_client 0)) = 65535"
proof -
  have r: "rb_list (rb_ClearBuffer rb_new) = []" "rb_GetFreeSize (rb_ClearBuffer rb_new) = 65535"
    by (simp_all add: rb_list_def ring_seg_def rb_ClearBuffer_def rb_new_def rb_GetFreeSize_def rb_GetUseSize_def BUF_SIZE_def)
  have "\<exists>s'. accept_step plain_os (list_queue 4096) OnClientLeave (OnClientJoin plain_os) OnConnectionRequest 5 started_server = Inr s' \<and>
      ioCount (sess s' 0) = 1 \<and> recvBuf (sess s' 0) = rb_ClearBuffer rb_new"
    by (simp add: accept_step_def started_server_def server_start_def Start_def chat_new_def empty_server_def CreateSession_def PopIndex_def
        OnConnectionRequest_def OnClientJoin_def JoinProc_def pool_Alloc_def pool_new_def fl_new_def fl_Alloc_def
        plain_os_def Let_def set_sess_def add_call_def tick_def sess_def PostRecv_def Session_new_def set_player_def)
  with r show ?thesis using one_client_accepted by auto
qed

text \<open>
  A client sends a packet with the payload 7; or two bytes, which is no packet yet.
\<close>

theorem receive_reaches_handlers_witness:
  "(\<exists>s1 s' err. filled 0 (frame 3 [7]) one_client s1 \<and>
      (delivers plain_os (OnRecv plain_os (list_queue 4096) (list_queue 65534) (\<lambda>_. 0)) 0 [[7]] s1 s' \<and> rb_list (recvBuf (sess s' 0)) = [] \<or>
       worker_step plain_os (list_queue 4096) OnClientLeave (OnRecv plain_os (list_queue 4096) (list_queue 65534) (\<lambda>_. 0)) 0
         (RecvDone (frame 3 [7])) one_client = Inl err)) \<and>
   (\<exists>s1. filled 0 [119, 1] one_client s1 \<and> rb_list (recvBuf (sess s1 0)) = [119, 1])"
proof -
  note c = one_client_session
  have io: "1 \<le> ioCount (sess one_client 0)" using c by simp
  have l: "length (frame 3 [7]) = 6" "frame 3 [7] \<noteq> []" by (simp_all add: frame_def header_bytes_def)
  have p: "parse (frame 3 [7]) = ([[7]], Waiting [])"
    using parse1_frame [of "[7]" 3 "[]"] by (simp add: parse.simps parse1_def)
  have q: "parse [119, 1] = ([], Waiting [119, 1])" by (simp add: parse.simps parse1_def)
  note go = receive_reaches_handlers [OF one_client_reachable one_packet_server_ok(1) queue_laws_list queue_laws_list _ io,
      where U = "\<lambda>_. 0"]
  from go [of "frame 3 [7]" "[[7]]" "Waiting []"] p l c obtain s1 where
    "filled 0 (frame 3 [7]) one_client s1" "(\<exists>s'. delivers plain_os (OnRecv plain_os (list_queue 4096) (list_queue 65534) (\<lambda>_. 0)) 0 [[7]] s1 s' \<and>
        rb_list (recvBuf (sess s' 0)) = []) \<or>
      (\<exists>err. worker_step plain_os (list_queue 4096) OnClientLeave (OnRecv plain_os (list_queue 4096) (list_queue 65534) (\<lambda>_. 0)) 0
         (RecvDone (frame 3 [7])) one_client = Inl err)"
    by auto
  moreover from go [of "[119, 1]" "[]" "Waiting [119, 1]"] q c obtain s2 where
    "filled 0 [119, 1] one_client s2" by auto
  moreover from this have "rb_list (recvBuf (sess s2 0)) = [119, 1]" using c by (simp add: filled_def)
  ultimately show ?thesis by blast
qed

end
