(* ===== verification/Messages.thy ===== *)
theory Messages
  imports Server
begin

text \<open>
  The messages the chat server builds (\<open>MakeLoginResult\<close>, \<open>Res_Login\<close>, \<open>Res_SectorMove\<close> and
  \<open>Res_Chat\<close> of ChatServer.cpp), what is on the wire for each of them, and the chat messages the
  packet has no room for.
\<close>

section \<open>A packet being filled\<close>

definition building :: "CPacket \<Rightarrow> byte list \<Rightarrow> bool" where
  "building x xs \<longleftrightarrow> pkt_512 x \<and> pkt_wf x \<and> pkt_list x = xs \<and> m_iFront x = 0 \<and> \<not> m_bIsEncoded x \<and>
     m_lRefCount x = 1 \<and> pkt_room x + length xs = 507"

definition put_packet :: "nat \<Rightarrow> CPacket \<Rightarrow> ('q, 'a) srv \<Rightarrow> ('q, 'a) srv" where
  "put_packet p x s = s\<lparr>packets := pool_upd p (\<lambda>_. x) (packets s)\<rparr>"

lemma put_packet_simps [simp]:
  "pl_objs (packets (put_packet p x s)) q = (if q = p then x else pl_objs (packets s) q)"
  "put_packet p y (put_packet p x s) = put_packet p y s"
  "now (put_packet p x s) = now s"
  "IOCPServer.more (put_packet p x s) = IOCPServer.more s"
  "pl_list (packets (put_packet p x s)) = pl_list (packets s)"
  "sessionArray (put_packet p x s) = sessionArray s"
  by (simp_all add: put_packet_def pool_upd_def)

lemma player_put_packet [simp]: "player (put_packet p x s) q = player s q"
  by (simp add: put_packet_def)

lemma on_packet_put: "on_packet p f s = andThen (f (pl_objs (packets s) p)) (\<lambda>x. Inr (put_packet p x s))"
  by (simp add: on_packet_def put_packet_def)

lemma pkt_512_size: "pkt_wf x \<Longrightarrow> pkt_512 x \<longleftrightarrow> m_iMaxSize x = 512"
  by (auto simp: pkt_512_def pkt_wf_def pkt_buf_def)

lemma same_size:
  "payload_write off src n x = Inr y \<Longrightarrow> m_iMaxSize y = m_iMaxSize x"
  by (auto simp: payload_write_def andThen_eq_Inr split: option.splits)

lemma pkt_put_size:
  assumes "andThen (if pkt_GetFreeSize x < int (length v) then pkt_IncreaseBufferSize ok add x else Inr x)
       (\<lambda>p1. andThen (payload_write (m_iRear p1) v (int (length v)) p1)
         (\<lambda>p2. Inr (p2\<lparr>m_iRear := m_iRear p2 + int (length v), m_iUsingSize := m_iUsingSize p2 + int (length v)\<rparr>))) = Inr y"
    and "int (length v) \<le> pkt_GetFreeSize x"
  shows "m_iMaxSize y = m_iMaxSize x"
  using assms by (auto simp: andThen_eq_Inr dest: same_size)

lemma free_size: "building x xs \<Longrightarrow> pkt_GetFreeSize x = 512 - int (length xs)"
  using length_pkt_list [of x] by (auto simp: building_def pkt_GetFreeSize_def pkt_512_size)

lemma fill_value:
  assumes b: "building x xs" and v: "v \<noteq> []" and len: "length xs + length v \<le> 507"
  shows "\<exists>y. pkt_WriteValue True v x = Inr y \<and> building y (xs @ v)"
proof -
  have "length v \<le> 2 ^ 30" "length v \<le> pkt_room x" "pkt_wf x" using b len by (auto simp: building_def)
  from pkt_WriteValue_put(1) [OF this(3) v this(1) _ this(2), of True] obtain y
    where y: "pkt_WriteValue True v x = Inr y" "pkt_wf y" "pkt_list y = pkt_list x @ v"
      "pkt_room x = pkt_room y + length v" "m_iFront y = m_iFront x" "m_bIsEncoded y = m_bIsEncoded x"
      "m_lRefCount y = m_lRefCount x" by auto
  moreover have "m_iMaxSize y = m_iMaxSize x"
    using y(1) len free_size [OF b] unfolding pkt_WriteValue_def Let_def by (intro pkt_put_size) auto
  ultimately show ?thesis using b by (auto simp: building_def pkt_512_size)
qed

lemma fill_data:
  assumes b: "building x xs" and v: "v \<noteq> []" and len: "length xs + length v \<le> 507"
  shows "\<exists>y. pkt_PutData True v (int (length v)) x = Inr y \<and> building y (xs @ v)"
proof -
  have "length v \<le> 2 ^ 30" "length v \<le> pkt_room x" "pkt_wf x" using b len by (auto simp: building_def)
  from pkt_PutData_put(1) [OF this(3) v this(1) _ this(2), of True] obtain y
    where y: "pkt_PutData True v (int (length v)) x = Inr y" "pkt_wf y" "pkt_list y = pkt_list x @ v"
      "pkt_room x = pkt_room y + length v" "m_iFront y = m_iFront x" "m_bIsEncoded y = m_bIsEncoded x"
      "m_lRefCount y = m_lRefCount x" by auto
  moreover have "m_iMaxSize y = m_iMaxSize x"
    using y(1) len free_size [OF b] unfolding pkt_PutData_def by (intro pkt_put_size) auto
  ultimately show ?thesis using b by (auto simp: building_def pkt_512_size)
qed

text \<open>The source may be longer than what is copied.\<close>

lemma PutData_take:
  "n \<le> length src \<Longrightarrow> n < 2 ^ 63 \<Longrightarrow> pkt_PutData ok src (int n) x = pkt_PutData ok (take n src) (int n) x"
proof -
  assume "n \<le> length src" "n < 2 ^ 63"
  then have "memcpy b off src (int n) = memcpy b off (take n src) (int n)" for b off
    by (simp add: memcpy_def)
  then have "payload_write off src (int n) y = payload_write off (take n src) (int n) y" for off y
    by (simp add: payload_write_def split: option.splits)
  then show ?thesis by (simp only: pkt_PutData_def)
qed

lemma fill_long:
  assumes b: "building x xs" and v: "v \<noteq> []" "length v \<le> 2 ^ 30"
  shows "507 < length xs + length v \<Longrightarrow> length xs + length v \<le> 512 \<Longrightarrow>
      pkt_PutData True v (int (length v)) x = Inl OutOfBoundsWrite"
    and "512 < length xs + length v \<Longrightarrow> pkt_PutData True v (int (length v)) x = Inl NoReturn"
  using pkt_PutData_put(2,3) [of x v True] b v free_size [OF b] by (auto simp: building_def)

lemma write_value_ok:
  assumes "building (pl_objs (packets s) p) xs" and "v \<noteq> []" and "length xs + length v \<le> 507"
  shows "\<exists>y. write_value p v s = Inr (put_packet p y s) \<and> building y (xs @ v)"
  using fill_value [OF assms] by (auto simp: write_value_def on_packet_put)

lemma put_data_ok:
  assumes "building (pl_objs (packets s) p) xs" and "take n v \<noteq> []" and "n \<le> length v" and "length xs + n \<le> 507"
  shows "\<exists>y. put_data p v (int n) s = Inr (put_packet p y s) \<and> building y (xs @ take n v)"
proof -
  have l: "length (take n v) = n" using assms(3) by simp
  from fill_data [OF assms(1,2)] assms(4) obtain y
    where "pkt_PutData True (take n v) (int n) (pl_objs (packets s) p) = Inr y" "building y (xs @ take n v)"
    unfolding l by blast
  then show ?thesis using PutData_take [OF assms(3), of True "pl_objs (packets s) p"] assms(4)
    by (auto simp: put_data_def on_packet_put)
qed

lemma alloc_packet_ok:
  assumes W: "malloc_laws W" and ok: "net_ok W s"
  shows "\<exists>p s1. alloc_packet W s = Inr (p, s1) \<and> building (pl_objs (packets s1) p) [] \<and> now s1 = now s + 1 \<and>
    p \<noteq> 0 \<and> p \<notin> pool_live (packets s) \<and> pool_live (packets s1) = insert p (pool_live (packets s)) \<and> net_ok W s1 \<and>
    IOCPServer.more s1 = IOCPServer.more s \<and> sessionArray s1 = sessionArray s"
proof -
  have pok: "pool_ok pkt_512 (packets s)" using ok by (simp add: net_ok_def)
  from pool_Alloc_ok [OF pok pkt_512_new malloc_fresh [OF W ok]] obtain p h1
    where h1: "pool_Alloc pkt_new (os_malloc W (now s)) (packets s) = Inr (p, h1)" "pool_ok pkt_512 h1"
      "p \<noteq> 0" "p \<notin> pool_live (packets s)" "pool_live h1 = insert p (pool_live (packets s))"
      "blocks (pl_list h1) \<subseteq> insert (os_malloc W (now s)) (blocks (pl_list (packets s)))"
    by blast
  define x where "x = pkt_Clear (pl_objs h1 p)"
  have c: "pkt_512 (pl_objs h1 p)" using h1(2) by (simp add: pool_ok_def)
  have "building (x\<lparr>m_lRefCount := 1\<rparr>) []"
    using pkt_Clear_512 [OF c] unfolding x_def [symmetric]
    by (simp add: building_def) (simp add: pkt_wf_def pkt_list_def pkt_room_def pkt_buf_def)
  moreover have "pool_ok pkt_512 (pool_upd p (\<lambda>p. p\<lparr>m_lRefCount := 1\<rparr>) (pool_upd p pkt_Clear h1))"
    using h1(2) pkt_Clear_512(1) [OF c] by (intro pool_ok_upd) auto
  moreover have "insert (os_malloc W (now s)) (os_malloc W ` {..<now s}) \<subseteq> os_malloc W ` {..<now s + 1}" by auto
  then have "blocks (pl_list h1) \<subseteq> os_malloc W ` {..<now s + 1}" using h1(6) ok unfolding net_ok_def by blast
  ultimately show ?thesis using h1 ok
    by (auto simp: alloc_packet_def pkt_Alloc_def x_def net_ok_def)
qed

lemma encode_packet_ok:
  assumes b: "building (pl_objs (packets s) p) xs"
  shows "\<exists>y. encode_packet W p s = Inr (tick (put_packet p y s)) \<and> m_lRefCount y = 1 \<and> m_bIsEncoded y \<and>
    pkt_wire y = frame (of_nat (os_rand W (now s) mod 256)) xs"
proof -
  have "length xs \<le> 507" using b by (auto simp: building_def)
  then have "\<exists>y. pkt_SetEncodingCode (os_rand W (now s)) (pl_objs (packets s) p) = Inr y \<and> m_lRefCount y = 1 \<and> m_bIsEncoded y \<and>
      pkt_wire y = frame (of_nat (os_rand W (now s) mod 256)) xs"
    using pkt_encode_ok [of "pl_objs (packets s) p" "os_rand W (now s)"] b by (auto simp: building_def)
  then show ?thesis by (auto simp: encode_packet_def on_packet_put)
qed

section \<open>The messages\<close>

lemma length_fields [simp]: "length (WORD_bytes w) = 2" "length (INT64_bytes a) = 8"
  by (simp_all add: WORD_bytes_def INT64_bytes_def)

lemma fields_not_Nil [simp]: "WORD_bytes w \<noteq> []" "INT64_bytes a \<noteq> []"
  by (simp_all flip: length_greater_0_conv)

text \<open>
  What a finished message is: an encoded packet of its own with one reference, whose bytes on the
  wire are the frame of the payload. The sessions and the subclass are as before.
\<close>

definition message :: "nat \<Rightarrow> byte list \<Rightarrow> ('q, 'a) srv \<Rightarrow> ('q, 'a) srv \<Rightarrow> bool" where
  "message p xs s s1 \<longleftrightarrow>
     p \<noteq> 0 \<and> p \<notin> pool_live (packets s) \<and> pool_live (packets s1) = insert p (pool_live (packets s)) \<and>
     m_lRefCount (pl_objs (packets s1) p) = 1 \<and> (\<exists>key. pkt_wire (pl_objs (packets s1) p) = frame key xs) \<and>
     m_bIsEncoded (pl_objs (packets s1) p) \<and> sessionArray s1 = sessionArray s \<and> IOCPServer.more s1 = IOCPServer.more s"

lemma encode_message:
  assumes "building (pl_objs (packets s2) p) xs" and "p \<noteq> 0" and "p \<notin> pool_live (packets s)"
    and "pool_live (packets s2) = insert p (pool_live (packets s))" and "IOCPServer.more s2 = IOCPServer.more s"
    and "sessionArray s2 = sessionArray s"
  shows "\<exists>s3. encode_packet W p s2 = Inr s3 \<and> message p xs s s3"
proof -
  from encode_packet_ok [OF assms(1), of W] obtain y
    where y: "encode_packet W p s2 = Inr (tick (put_packet p y s2))" "m_lRefCount y = 1" "m_bIsEncoded y"
      "pkt_wire y = frame (of_nat (os_rand W (now s2) mod 256)) xs" by blast
  with assms(2-6) show ?thesis by (auto simp: message_def)
qed

lemma Res_Login_message:
  assumes "malloc_laws W" and "net_ok W s"
  shows "\<exists>p s1. Res_Login W account status s = Inr (p, s1) \<and>
      message p (WORD_bytes 2 @ [status] @ INT64_bytes account) s s1"
proof -
  from alloc_packet_ok [OF assms] obtain p s1 where a: "alloc_packet W s = Inr (p, s1)"
    "building (pl_objs (packets s1) p) []" "p \<noteq> 0" "p \<notin> pool_live (packets s)"
    "pool_live (packets s1) = insert p (pool_live (packets s))" "IOCPServer.more s1 = IOCPServer.more s"
    "sessionArray s1 = sessionArray s"
    by blast
  from write_value_ok [OF a(2), of "WORD_bytes 2"] obtain y1
    where 1: "write_value p (WORD_bytes 2) s1 = Inr (put_packet p y1 s1)" "building y1 (WORD_bytes 2)" by auto
  from write_value_ok [of "put_packet p y1 s1" p "WORD_bytes 2" "[status]"] 1(2) obtain y2
    where 2: "write_value p [status] (put_packet p y1 s1) = Inr (put_packet p y2 s1)"
      "building y2 (WORD_bytes 2 @ [status])" by auto
  from write_value_ok [of "put_packet p y2 s1" p "WORD_bytes 2 @ [status]" "INT64_bytes account"] 2(2) obtain y3
    where 3: "write_value p (INT64_bytes account) (put_packet p y2 s1) = Inr (put_packet p y3 s1)"
      "building y3 (WORD_bytes 2 @ [status] @ INT64_bytes account)" by auto
  from encode_message [of "put_packet p y3 s1" p _ s W] 3(2) a(3-7) obtain s3
    where "encode_packet W p (put_packet p y3 s1) = Inr s3"
      "message p (WORD_bytes 2 @ [status] @ INT64_bytes account) s s3" by auto
  with 1 2 3 a show ?thesis by (simp add: Res_Login_def protocol_defs)
qed

lemma Res_SectorMove_message:
  assumes "malloc_laws W" and "net_ok W s"
  shows "\<exists>p s1. Res_SectorMove W account x y s = Inr (p, s1) \<and>
      message p (WORD_bytes 4 @ INT64_bytes account @ WORD_bytes x @ WORD_bytes y) s s1"
proof -
  from alloc_packet_ok [OF assms] obtain p s1 where a: "alloc_packet W s = Inr (p, s1)"
    "building (pl_objs (packets s1) p) []" "p \<noteq> 0" "p \<notin> pool_live (packets s)"
    "pool_live (packets s1) = insert p (pool_live (packets s))" "IOCPServer.more s1 = IOCPServer.more s"
    "sessionArray s1 = sessionArray s"
    by blast
  from write_value_ok [OF a(2), of "WORD_bytes 4"] obtain y1
    where 1: "write_value p (WORD_bytes 4) s1 = Inr (put_packet p y1 s1)" "building y1 (WORD_bytes 4)" by auto
  from write_value_ok [of "put_packet p y1 s1" p "WORD_bytes 4" "INT64_bytes account"] 1(2) obtain y2
    where 2: "write_value p (INT64_bytes account) (put_packet p y1 s1) = Inr (put_packet p y2 s1)"
      "building y2 (WORD_bytes 4 @ INT64_bytes account)" by auto
  from write_value_ok [of "put_packet p y2 s1" p "WORD_bytes 4 @ INT64_bytes account" "WORD_bytes x"] 2(2) obtain y3
    where 3: "write_value p (WORD_bytes x) (put_packet p y2 s1) = Inr (put_packet p y3 s1)"
      "building y3 (WORD_bytes 4 @ INT64_bytes account @ WORD_bytes x)" by auto
  from write_value_ok [of "put_packet p y3 s1" p _ "WORD_bytes y"] 3(2) obtain y4
    where 4: "write_value p (WORD_bytes y) (put_packet p y3 s1) = Inr (put_packet p y4 s1)"
      "building y4 (WORD_bytes 4 @ INT64_bytes account @ WORD_bytes x @ WORD_bytes y)" by fastforce
  from encode_message [of "put_packet p y4 s1" p _ s W] 4(2) a(3-7) obtain s3
    where "encode_packet W p (put_packet p y4 s1) = Inr s3"
      "message p (WORD_bytes 4 @ INT64_bytes account @ WORD_bytes x @ WORD_bytes y) s s3" by auto
  with 1 2 3 4 a show ?thesis by (simp add: Res_SectorMove_def protocol_defs)
qed

text \<open>
  The answers to a login and to a move: a new packet holding one reference, whose frame on the
  wire has the little-endian packet type, the status and the account number, or the account
  number and the two coordinates, as payload.
\<close>

theorem responses_layout:
  assumes "malloc_laws W" and "net_ok W s"
  shows "(\<exists>p s1. Res_Login W account status s = Inr (p, s1) \<and>
      message p (WORD_bytes 2 @ [status] @ INT64_bytes account) s s1) \<and>
    (\<exists>p s1. Res_SectorMove W account x y s = Inr (p, s1) \<and>
      message p (WORD_bytes 4 @ INT64_bytes account @ WORD_bytes x @ WORD_bytes y) s s1)"
  using Res_Login_message [OF assms] Res_SectorMove_message [OF assms] by blast

lemma put_data_stuck:
  assumes b: "building (pl_objs (packets s) p) xs" and n: "512 < length xs + n"
  shows "put_data p src (int n) s = Inl NoReturn"
proof -
  let ?x = "pl_objs (packets s) p"
  have xs: "length xs \<le> 507" using b by (auto simp: building_def)
  have "m_iUsingSize ?x = int (length xs)" "pkt_PayloadCapacity ?x = 507"
    using b length_pkt_list [of ?x]
    by (auto simp: building_def pkt_512_def pkt_PayloadCapacity_def eBUFFER_HEADER_SIZE_def MESSAGE_HEADER_LEN_def)
  then have "pkt_IncreaseBufferSize True (int n) ?x = Inl NoReturn"
    using n xs by (intro pkt_IncreaseBufferSize_stuck) auto
  with free_size [OF b] n show ?thesis by (simp add: put_data_def on_packet_put pkt_PutData_def)
qed

lemma put_data_overrun:
  assumes b: "building (pl_objs (packets s) p) xs" and n: "507 < length xs + n" "length xs + n \<le> 512"
    and src: "n \<le> length src"
  shows "put_data p src (int n) s = Inl OutOfBoundsWrite"
proof -
  have xs: "length xs \<le> 507" using b by (auto simp: building_def)
  have l: "length (take n src) = n" using src by simp
  have "take n src \<noteq> []" using n xs l by fastforce
  with fill_long(1) [OF b this] l n
  have "pkt_PutData True (take n src) (int n) (pl_objs (packets s) p) = Inl OutOfBoundsWrite" by simp
  then show ?thesis using PutData_take [OF src, of True "pl_objs (packets s) p"] n
    by (simp add: put_data_def on_packet_put)
qed

text \<open>The head of a chat message, up to the length field.\<close>

definition chat_head :: "Player \<Rightarrow> WORD \<Rightarrow> byte list" where
  "chat_head x len = WORD_bytes 6 @ INT64_bytes (accountNo x) @ p_id x @ nick x @ WORD_bytes len"

lemma Res_Chat_head:
  assumes W: "malloc_laws W" "net_ok W s" and id: "length (p_id (player s pl)) = 40" "length (nick (player s pl)) = 40"
  shows "\<exists>p s6. Res_Chat W pl msg len s =
      andThen (put_data p msg (int (unat len)) s6) (\<lambda>s7. andThen (encode_packet W p s7) (\<lambda>s8. Inr (p, s8))) \<and>
    building (pl_objs (packets s6) p) (chat_head (player s pl) len) \<and> p \<noteq> 0 \<and>
    p \<notin> pool_live (packets s) \<and> pool_live (packets s6) = insert p (pool_live (packets s)) \<and>
    IOCPServer.more s6 = IOCPServer.more s \<and> sessionArray s6 = sessionArray s"
proof -
  from alloc_packet_ok [OF W] obtain p s1 where a: "alloc_packet W s = Inr (p, s1)"
    "building (pl_objs (packets s1) p) []" "p \<noteq> 0" "p \<notin> pool_live (packets s)"
    "pool_live (packets s1) = insert p (pool_live (packets s))" "IOCPServer.more s1 = IOCPServer.more s"
    "sessionArray s1 = sessionArray s"
    by blast
  let ?x = "player s pl"
  have pl: "player s1 pl = ?x" using chat_more(7) [OF a(6)] .
  have four: "(dfID_LEN :: int) = int 40" "(dfNiCK_LEN :: int) = int 40" by (simp_all add: dfID_LEN_def dfNiCK_LEN_def)
  from write_value_ok [OF a(2), of "WORD_bytes 6"] obtain y1
    where 1: "write_value p (WORD_bytes 6) s1 = Inr (put_packet p y1 s1)" "building y1 (WORD_bytes 6)" by auto
  from write_value_ok [of "put_packet p y1 s1" p "WORD_bytes 6" "INT64_bytes (accountNo ?x)"] 1(2) obtain y2
    where 2: "write_value p (INT64_bytes (accountNo ?x)) (put_packet p y1 s1) = Inr (put_packet p y2 s1)"
      "building y2 (WORD_bytes 6 @ INT64_bytes (accountNo ?x))" by auto
  have "take 40 (p_id ?x) \<noteq> []" "take 40 (nick ?x) \<noteq> []" using id by (auto simp flip: length_greater_0_conv)
  note ne = this
  from put_data_ok [of "put_packet p y2 s1" p "WORD_bytes 6 @ INT64_bytes (accountNo ?x)" 40 "p_id ?x"] 2(2) ne id obtain y3
    where 3: "put_data p (p_id ?x) (int 40) (put_packet p y2 s1) = Inr (put_packet p y3 s1)"
      "building y3 (WORD_bytes 6 @ INT64_bytes (accountNo ?x) @ p_id ?x)" by auto
  from put_data_ok [of "put_packet p y3 s1" p _ 40 "nick ?x"] 3(2) ne id obtain y4
    where 4: "put_data p (nick ?x) (int 40) (put_packet p y3 s1) = Inr (put_packet p y4 s1)"
      "building y4 (WORD_bytes 6 @ INT64_bytes (accountNo ?x) @ p_id ?x @ nick ?x)" by fastforce
  from write_value_ok [of "put_packet p y4 s1" p _ "WORD_bytes len"] 4(2) id obtain y5
    where 5: "write_value p (WORD_bytes len) (put_packet p y4 s1) = Inr (put_packet p y5 s1)"
      "building y5 (chat_head ?x len)" by (fastforce simp: chat_head_def)
  show ?thesis
    using 1(1) 2(1) 3(1) 4(1) 5 a by (intro exI [of _ p] exI [of _ "put_packet p y5 s1"])
      (simp add: Res_Chat_def four pl protocol_defs(6))
qed

lemma Res_Chat_message:
  assumes W: "malloc_laws W" "net_ok W s" and id: "length (p_id (player s pl)) = 40" "length (nick (player s pl)) = 40"
    and msg: "unat len \<le> length msg" "len \<noteq> 0" and short: "unat len \<le> 415"
  shows "\<exists>p s1. Res_Chat W pl msg len s = Inr (p, s1) \<and> message p (chat_head (player s pl) len @ take (unat len) msg) s s1"
proof -
  let ?h = "chat_head (player s pl) len"
  from Res_Chat_head [OF W id, of msg len] obtain p s6
    where r: "Res_Chat W pl msg len s = andThen (put_data p msg (int (unat len)) s6)
        (\<lambda>s7. andThen (encode_packet W p s7) (\<lambda>s8. Inr (p, s8)))"
      and b: "building (pl_objs (packets s6) p) ?h" and frame: "p \<noteq> 0" "p \<notin> pool_live (packets s)"
        "pool_live (packets s6) = insert p (pool_live (packets s))" "IOCPServer.more s6 = IOCPServer.more s"
        "sessionArray s6 = sessionArray s"
    by blast
  have h: "length ?h = 92" using id by (simp add: chat_head_def)
  have "0 < unat len" using msg(2) by (simp add: unat_gt_0)
  then have "take (unat len) msg \<noteq> []" using msg(1) by auto
  from put_data_ok [OF b this] short msg(1) h obtain y
    where y: "put_data p msg (int (unat len)) s6 = Inr (put_packet p y s6)" "building y (?h @ take (unat len) msg)" by auto
  from encode_message [of "put_packet p y s6" p _ s W] y(2) frame obtain s3
    where "encode_packet W p (put_packet p y s6) = Inr s3" "message p (?h @ take (unat len) msg) s s3" by auto
  with r y(1) show ?thesis by auto
qed

text \<open>
  C19. How long a chat message may be. The answer has 92 bytes beside the text: with a text of 1 to
  415 bytes the message is the frame of the packet type, the sender's account, id and nick, the
  length and the text. With 416 to 420 bytes the text is written past the end of the packet's
  memory. Above 420 bytes the call never returns. The length comes from the client and is not
  checked.
\<close>

theorem chat_message_limits:
  assumes "malloc_laws W" and "net_ok W s" and "length (p_id (player s pl)) = 40" and "length (nick (player s pl)) = 40"
    and "length msg = 2048" and "len \<noteq> 0"
  shows "(unat len \<le> 415 \<longrightarrow> (\<exists>p s1. Res_Chat W pl msg len s = Inr (p, s1) \<and>
      message p (WORD_bytes 6 @ INT64_bytes (accountNo (player s pl)) @ p_id (player s pl) @ nick (player s pl) @
        WORD_bytes len @ take (unat len) msg) s s1)) \<and>
    (415 < unat len \<and> unat len \<le> 420 \<longrightarrow> Res_Chat W pl msg len s = Inl OutOfBoundsWrite) \<and>
    (420 < unat len \<longrightarrow> Res_Chat W pl msg len s = Inl NoReturn)"
proof -
  let ?h = "chat_head (player s pl) len"
  from Res_Chat_head [OF assms(1-4), of msg len] obtain p s6
    where r: "Res_Chat W pl msg len s = andThen (put_data p msg (int (unat len)) s6)
        (\<lambda>s7. andThen (encode_packet W p s7) (\<lambda>s8. Inr (p, s8)))"
      and b: "building (pl_objs (packets s6) p) ?h" and frame: "p \<noteq> 0" "p \<notin> pool_live (packets s)"
        "pool_live (packets s6) = insert p (pool_live (packets s))" "IOCPServer.more s6 = IOCPServer.more s"
        "sessionArray s6 = sessionArray s"
    by blast
  have h: "length ?h = 92" using assms(3,4) by (simp add: chat_head_def)
  have "\<exists>p s1. Res_Chat W pl msg len s = Inr (p, s1) \<and> message p (?h @ take (unat len) msg) s s1" if "unat len \<le> 415"
    using Res_Chat_message [OF assms(1-4) _ assms(6) that, of msg] assms(5) that by simp
  moreover have "Res_Chat W pl msg len s = Inl OutOfBoundsWrite" if "415 < unat len" "unat len \<le> 420"
    using put_data_overrun [OF b, of "unat len" msg] that h assms(5) by (simp add: r)
  moreover have "Res_Chat W pl msg len s = Inl NoReturn" if "420 < unat len"
    using put_data_stuck [OF b, of "unat len" msg] that h by (simp add: r)
  ultimately show ?thesis by (simp add: chat_head_def)
qed

section \<open>Concrete messages\<close>

lemma started_server_ok: "net_ok plain_os started_server" "player started_server p = Player_new"
proof -
  have f: "packets (fold (\<lambda>i s. s\<lparr>indexStack := int i # indexStack s\<rparr>) is s) = packets s" for "is" and s :: "('q, 'a) srv"
    by (induction "is" arbitrary: s) simp_all
  have "packets started_server = pool_new pkt_new" "now started_server = 0"
    by (simp_all add: started_server_def server_start_def Start_def f chat_new_def empty_server_def)
  then show "net_ok plain_os started_server"
    using pool_ok_new [of pkt_512, OF pkt_512_new]
    by (simp add: net_ok_def) (simp add: pool_new_def fl_new_def)
  have "IOCPServer.more started_server = IOCPServer.more (chat_new (list_queue 65534) () empty_server)"
    unfolding started_server_def by (rule start_more)
  then show "player started_server p = Player_new"
    by (simp add: chat_more(7) [of started_server]) (simp add: chat_new_def player_def pool_new_def empty_server_def)
qed

theorem responses_layout_witness:
  "\<exists>p s1. Res_Login plain_os 9 1 started_server = Inr (p, s1) \<and>
     message p [2, 0, 1, 9, 0, 0, 0, 0, 0, 0, 0] started_server s1"
proof -
  have "WORD_bytes 2 = [2, 0]" "INT64_bytes 9 = [9, 0, 0, 0, 0, 0, 0, 0]" by code_simp+
  then show ?thesis
    using responses_layout [OF one_packet_server_ok(1) started_server_ok(1), of 9 1 0 0] by auto
qed

theorem chat_message_limits_witness:
  "Res_Chat plain_os 0 (replicate 2048 65) 420 started_server = Inl OutOfBoundsWrite \<and>
   Res_Chat plain_os 0 (replicate 2048 65) 421 started_server = Inl NoReturn \<and>
   (\<exists>p s1. Res_Chat plain_os 0 (replicate 2048 65) 415 started_server = Inr (p, s1))"
proof -
  have id: "length (p_id (player started_server 0)) = 40" "length (nick (player started_server 0)) = 40"
    by (simp_all add: started_server_ok(2) Player_new_def)
  note c = chat_message_limits [OF one_packet_server_ok(1) started_server_ok(1) id, of "replicate 2048 65"]
  show ?thesis using c [of 420] c [of 421] c [of 415] by auto
qed

end
