(* ===== verification/Login.thy ===== *)
theory Login
  imports Messages Sending
begin

text \<open>
  The login (ChatServer.cpp): \<open>RedisThread\<close> reads the request, asks Redis and hands the result to
  \<open>CompleteLogin\<close>, which marks the player and answers. What is checked against Redis is what was
  stored there a line before, so every key is accepted.
\<close>

section \<open>Reading a packet\<close>

definition unread :: "CPacket \<Rightarrow> byte list \<Rightarrow> bool" where
  "unread x xs \<longleftrightarrow> pkt_wf x \<and> pkt_512 x \<and> pkt_list x = xs"

lemma pkt_512_rewind: "pkt_512 (pkt_rewind (x\<lparr>m_iFront := a, m_iUsingSize := b\<rparr>)) = pkt_512 x"
  by (simp add: pkt_512_def pkt_rewind_def)

lemma read_value_ok:
  assumes u: "unread (pl_objs (packets s) p) (v @ xs)" and l: "length old = length v"
  shows "\<exists>y. read_value p old s = Inr (v, put_packet p y s) \<and> unread y xs"
proof -
  let ?x = "pl_objs (packets s) p"
  have x: "pkt_wf ?x" "pkt_list ?x = v @ xs" "pkt_512 ?x" using u by (simp_all add: unread_def)
  then have "length v \<le> length (pkt_list ?x)" by simp
  note t = payload_take [OF x(1) this l]
  have "\<not> pkt_GetDataSize ?x < int (length v)" using x by (simp add: pkt_GetDataSize_list)
  with t x show ?thesis
    by (auto simp: read_value_def read_packet_def pkt_ReadValue_def Let_def l put_packet_def unread_def pkt_512_rewind)
qed

lemma get_data_ok:
  assumes u: "unread (pl_objs (packets s) p) (v @ xs)" and l: "length dst = length v" "n = int (length v)"
  shows "\<exists>y. get_data p dst n s = Inr (v, put_packet p y s) \<and> unread y xs"
proof -
  let ?x = "pl_objs (packets s) p"
  have x: "pkt_wf ?x" "pkt_list ?x = v @ xs" "pkt_512 ?x" using u by (simp_all add: unread_def)
  then have "length v \<le> length (pkt_list ?x)" by simp
  note t = payload_take [OF x(1) this l(1)]
  have "\<not> pkt_GetDataSize ?x < n" using x l(2) by (simp add: pkt_GetDataSize_list)
  with t x show ?thesis
    by (auto simp: get_data_def read_packet_def pkt_GetData_def l put_packet_def unread_def pkt_512_rewind)
qed

lemma net_ok_put: "net_ok W s \<Longrightarrow> pkt_512 y \<Longrightarrow> net_ok W (put_packet p y s)"
  using pool_ok_upd [of pkt_512 "packets s" "\<lambda>_. y" p] by (simp add: net_ok_def put_packet_def)

lemma building_unread: "building x xs \<Longrightarrow> unread x xs"
  by (simp add: building_def unread_def)

lemma INT64_roundtrip [simp]: "INT64_of (INT64_bytes a) = a"
proof -
  have "unat a < 256 ^ 8" using unsigned_less [of a, where 'a = nat] by simp
  then show ?thesis by (simp add: INT64_of_def INT64_bytes_def le_value_le_bytes)
qed

text \<open>The three fields at the start of a login request and of a login result.\<close>

lemma read_names:
  assumes "unread (pl_objs (packets s) p) (INT64_bytes a @ wid @ nk @ xs)" and "length wid = 40" and "length nk = 40"
    and "length d1 = 40" and "length d2 = 40"
  shows "\<exists>y1 y2 y3. read_value p (INT64_bytes 0) s = Inr (INT64_bytes a, put_packet p y1 s) \<and>
    get_data p d1 dfID_LEN (put_packet p y1 s) = Inr (wid, put_packet p y2 s) \<and>
    get_data p d2 dfNiCK_LEN (put_packet p y2 s) = Inr (nk, put_packet p y3 s) \<and> unread y3 xs"
proof -
  from read_value_ok [OF assms(1), of "INT64_bytes 0"] obtain y1
    where 1: "read_value p (INT64_bytes 0) s = Inr (INT64_bytes a, put_packet p y1 s)" "unread y1 (wid @ nk @ xs)" by auto
  from get_data_ok [of "put_packet p y1 s" p wid "nk @ xs" d1 dfID_LEN] 1(2) assms obtain y2
    where 2: "get_data p d1 dfID_LEN (put_packet p y1 s) = Inr (wid, put_packet p y2 s)" "unread y2 (nk @ xs)"
    by (auto simp: dfID_LEN_def)
  from get_data_ok [of "put_packet p y2 s" p nk xs d2 dfNiCK_LEN] 2(2) assms obtain y3
    where "get_data p d2 dfNiCK_LEN (put_packet p y2 s) = Inr (nk, put_packet p y3 s)" "unread y3 xs"
    by (auto simp: dfNiCK_LEN_def)
  with 1(1) 2(1) show ?thesis by blast
qed

section \<open>Building an answer makes no call of the system\<close>

lemma on_packet_calls: "on_packet p f s = Inr s' \<Longrightarrow> os_calls s' = os_calls s"
  by (auto simp: on_packet_def andThen_eq_Inr)

lemma packet_op_calls:
  "write_value p v s = Inr s' \<Longrightarrow> os_calls s' = os_calls s"
  "put_data p src n s = Inr s' \<Longrightarrow> os_calls s' = os_calls s"
  "encode_packet W p s = Inr s' \<Longrightarrow> os_calls s' = os_calls s"
  by (auto simp: write_value_def put_data_def encode_packet_def andThen_eq_Inr dest: on_packet_calls)

lemma alloc_packet_calls: "alloc_packet W s = Inr (p, s') \<Longrightarrow> os_calls s' = os_calls s"
  by (auto simp: alloc_packet_def andThen_eq_Inr)

lemma put_packet_calls [simp]: "os_calls (put_packet p x s) = os_calls s" "sessionArray (put_packet p x s) = sessionArray s"
  by (simp_all add: put_packet_def)

lemma set_player_calls [simp]: "os_calls (set_player q f s) = os_calls s"
  by (simp add: set_player_def)

lemma Res_Login_calls:
  assumes "Res_Login W account status s = Inr (p, s')"
  shows "os_calls s' = os_calls s"
proof -
  from assms obtain s1 s2 s3 s4 where "alloc_packet W s = Inr (p, s1)" "write_value p (WORD_bytes en_PACKET_CS_CHAT_RES_LOGIN) s1 = Inr s2"
    "write_value p [status] s2 = Inr s3" "write_value p (INT64_bytes account) s3 = Inr s4" "encode_packet W p s4 = Inr s'"
    unfolding Res_Login_def andThen_pair_eq unfolding andThen_eq_Inr sum.inject prod.inject by blast
  then show ?thesis using alloc_packet_calls packet_op_calls by metis
qed

section \<open>The result packet\<close>

lemma MakeLoginResult_ok:
  assumes "malloc_laws W" and "net_ok W s" and l: "length wid = 40" "length nk = 40"
  shows "\<exists>p s1. MakeLoginResult W a wid nk s = Inr (p, s1) \<and> building (pl_objs (packets s1) p) (INT64_bytes a @ wid @ nk) \<and>
    net_ok W s1 \<and> sessionArray s1 = sessionArray s \<and> IOCPServer.more s1 = IOCPServer.more s \<and> os_calls s1 = os_calls s"
proof -
  from alloc_packet_ok [OF assms(1,2)] obtain p s1 where a: "alloc_packet W s = Inr (p, s1)"
    "building (pl_objs (packets s1) p) []" "net_ok W s1" "IOCPServer.more s1 = IOCPServer.more s" "sessionArray s1 = sessionArray s"
    by blast
  have ne: "take 40 wid \<noteq> []" "take 40 nk \<noteq> []" using l by (auto simp flip: length_greater_0_conv)
  have lens: "dfID_LEN = int 40" "dfNiCK_LEN = int 40" by (simp_all add: dfID_LEN_def dfNiCK_LEN_def)
  from write_value_ok [OF a(2), of "INT64_bytes a"] obtain y1
    where 1: "write_value p (INT64_bytes a) s1 = Inr (put_packet p y1 s1)" "building y1 (INT64_bytes a)" by auto
  from put_data_ok [of "put_packet p y1 s1" p "INT64_bytes a" 40 wid] 1(2) ne l obtain y2
    where 2: "put_data p wid (int 40) (put_packet p y1 s1) = Inr (put_packet p y2 s1)" "building y2 (INT64_bytes a @ wid)" by auto
  from put_data_ok [of "put_packet p y2 s1" p "INT64_bytes a @ wid" 40 nk] 2(2) ne l obtain y3
    where 3: "put_data p nk (int 40) (put_packet p y2 s1) = Inr (put_packet p y3 s1)" "building y3 (INT64_bytes a @ wid @ nk)" by auto
  have "net_ok W (put_packet p y3 s1)" using a(3) 3(2) by (intro net_ok_put) (simp_all add: building_def)
  with 1 2 3 a alloc_packet_calls [OF a(1)] show ?thesis
    by (intro exI [of _ p] exI [of _ "put_packet p y3 s1"]) (simp add: MakeLoginResult_def lens)
qed

text \<open>A name that ends within its 20 characters can be copied.\<close>

definition terminated :: "byte list \<Rightarrow> bool" where
  "terminated src \<longleftrightarrow> length src = 40 \<and> (\<exists>k<20. is_nul src k)"

lemma wcscpy_ok: "terminated src \<Longrightarrow> \<exists>r. wcscpy_s20 dst src = Inr r"
proof -
  assume "terminated src"
  then obtain k where "k \<in> set (filter (is_nul src) [0..<20])" by (auto simp: terminated_def)
  then obtain j js where "filter (is_nul src) [0..<20] = j # js" by (cases "filter (is_nul src) [0..<20]") auto
  then show ?thesis by (simp add: wcscpy_s20_def)
qed

text \<open>\<open>SET\<close> then \<open>GET\<close> of one key.\<close>

definition redis_laws :: "'d redis_ops \<Rightarrow> bool" where
  "redis_laws R \<longleftrightarrow> (\<forall>k v d. r_get R k (r_set R k v d) = Some v)"

lemma redis_check_always: "redis_laws R \<Longrightarrow> fst (redis_check R account key db)"
  by (simp add: redis_check_def redis_laws_def Let_def)

section \<open>Completing the login\<close>

lemma ReleasePlayer_frame:
  "sessionArray (ReleasePlayer p s) = sessionArray s" "packets (ReleasePlayer p s) = packets s"
  "accounts (ReleasePlayer p s) = accounts s" "os_calls (ReleasePlayer p s) = os_calls s"
  "isLogined (player (ReleasePlayer p s) q) = isLogined (player s q)"
  "accountNo (player (ReleasePlayer p s) q) = accountNo (player s q)"
  by (simp_all add: ReleasePlayer_def Let_def) (simp_all add: set_player_def player_def)

lemma sub_ref_frame [simp]:
  "sessionArray (sub_ref p s) = sessionArray s" "accounts (sub_ref p s) = accounts s" "player (sub_ref p s) q = player s q"
  "packets (sub_ref p s) = pkt_SubRef p (packets s)" "os_calls (sub_ref p s) = os_calls s"
  by (simp_all add: sub_ref_def player_def)

lemma send_ok_same: "sessionArray s' = sessionArray s \<Longrightarrow>
    send_ok content i s' = send_ok content i s \<and> sender_of content i s' = sender_of content i s \<and> sess s' i = sess s i"
  by (simp add: send_ok_def send_flags_def sending_def sender_of_def sess_def)

lemma same_bytes_wire: "same_bytes h h' \<Longrightarrow> pkt_wire (pl_objs h' p) = pkt_wire (pl_objs h p)"
  using batch_bufs_wire [of h "[p]"] batch_bufs_wire [of h' "[p]"] same_bytes_batch [of h h'] by simp

text \<open>An open session, and its player.\<close>

definition login_ready ::
  "os \<Rightarrow> ('q \<Rightarrow> nat list) \<Rightarrow> UINT64 \<Rightarrow> nat \<Rightarrow> ('q, 'r, 'd, 'a) chat \<Rightarrow> bool" where
  "login_ready W content sid pl s \<longleftrightarrow>
     net_ok W s \<and> map_of (players s) sid = Some pl \<and> p_sessionID (player s pl) = sid \<and> \<not> closing (player s pl) \<and>
     (let i = unat (GET_SESSION_INDEX sid)
      in send_ok content i s \<and> sessionID (sess s i) = sid)"

text \<open>
  The player is marked, the account is registered, and the answer is queued or handed to \<open>WSASend\<close> behind all that
  waited, unless the queue of \<open>cap\<close> entries is full.
\<close>

definition logged_in ::
  "('q \<Rightarrow> nat list) \<Rightarrow> nat \<Rightarrow> UINT64 \<Rightarrow> nat \<Rightarrow> UINT64 \<Rightarrow> ('q, 'r, 'd, 'a) chat \<Rightarrow> ('q, 'r, 'd, 'a) chat \<Rightarrow> bool" where
  "logged_in content cap sid pl account s s' \<longleftrightarrow>
     isLogined (player s' pl) \<and> accountNo (player s' pl) = account \<and> map_of (accounts s') account = Some sid \<and>
     (\<exists>res key batches. concat batches @ content (sendBuf (sess s' (unat (GET_SESSION_INDEX sid)))) =
         (let q = content (sendBuf (sess s (unat (GET_SESSION_INDEX sid)))) in if length q < cap then q @ [res] else q) \<and>
       os_calls s' = os_calls s @ map (\<lambda>b. OsSend (sock (sess s (unat (GET_SESSION_INDEX sid)))) (batch_bufs (packets s') b)) batches \<and>
       pkt_wire (pl_objs (packets s') res) = frame key (WORD_bytes 2 @ [1] @ INT64_bytes account))"

lemma map_of_assign: "map_of (map_assign k v m) k = Some v"
proof -
  have "map_of (map_erase k m) k = None" by (auto simp: map_of_eq_None_iff map_erase_def)
  then show ?thesis by (simp add: map_assign_def map_add_Some_iff)
qed

lemma CompleteLogin_ok:
  assumes Q: "queue_laws cap content Q" "100 \<le> cap" and W: "malloc_laws W"
    and ready: "login_ready W content sid pl s"
    and u: "unread (pl_objs (packets s) rp) (INT64_bytes a @ wid @ nk)" and tm: "terminated wid" "terminated nk"
  shows "\<exists>s'. CompleteLogin W Q U sid rp True s = Inr (True, s') \<and> logged_in content cap sid pl a s s'"
proof -
  let ?i = "unat (GET_SESSION_INDEX sid)"
  have net: "net_ok W s" and pl: "map_of (players s) sid = Some pl" "p_sessionID (player s pl) = sid" "\<not> closing (player s pl)"
    and so: "send_ok content ?i s" "sessionID (sess s ?i) = sid"
    using ready by (simp_all add: login_ready_def Let_def)
  define s1 where "s1 = AddRefPlayer pl s"
  have s1: "AcquirePlayer sid s = (Some pl, s1)" "p_sessionID (player s1 pl) = sid" "\<not> closing (player s1 pl)"
    using pl by (simp_all add: AcquirePlayer_def s1_def Let_def AddRefPlayer_def)
  have f1: "packets s1 = packets s" "sessionArray s1 = sessionArray s" "now s1 = now s" "os_calls s1 = os_calls s"
    by (simp_all add: s1_def AddRefPlayer_def)
  have l: "length wid = 40" "length nk = 40" using tm by (simp_all add: terminated_def)
  have "unread (pl_objs (packets s1) rp) (INT64_bytes a @ wid @ nk @ [])" using u by (simp add: f1)
  from read_names [OF this l, of "junk U 40" "junk (\<lambda>k. U (k + 40)) 40"] obtain y1 y2 y3 where
    rd: "read_value rp (INT64_bytes 0) s1 = Inr (INT64_bytes a, put_packet rp y1 s1)"
      "get_data rp (junk U 40) dfID_LEN (put_packet rp y1 s1) = Inr (wid, put_packet rp y2 s1)"
      "get_data rp (junk (\<lambda>k. U (k + 40)) 40) dfNiCK_LEN (put_packet rp y2 s1) = Inr (nk, put_packet rp y3 s1)" "unread y3 []"
    by (auto simp: junk_def)
  define s4 where "s4 = put_packet rp y3 s1"
  have "net_ok W s1" using net by (simp add: net_ok_def f1)
  then have net4: "net_ok W s4" using rd(4) unfolding s4_def by (intro net_ok_put) (simp_all add: unread_def)
  define s5 where "s5 = set_player pl (\<lambda>x. x\<lparr>isLogined := True, accountNo := a\<rparr>) (s4\<lparr>accounts := map_assign a sid (accounts s4)\<rparr>)"
  from wcscpy_ok tm obtain n1 n2 where cp: "wcscpy_s20 (p_id (player s4 pl)) wid = Inr n1" "wcscpy_s20 (nick (player s4 pl)) nk = Inr n2"
    by blast
  define s6 where "s6 = set_player pl (\<lambda>x. x\<lparr>p_id := n1, nick := n2\<rparr>) s5"
  have net6: "net_ok W s6" using net4 by (simp add: s6_def s5_def net_ok_def)
  have f6: "sessionArray s6 = sessionArray s" "os_calls s6 = os_calls s" by (simp_all add: s6_def s5_def s4_def f1)
  have p6: "isLogined (player s6 pl)" "accountNo (player s6 pl) = a" "map_of (accounts s6) a = Some sid"
    by (simp_all add: s6_def s5_def map_of_assign)
  from Res_Login_message [OF W net6, of a 1] obtain res s7 where s7: "Res_Login W a 1 s6 = Inr (res, s7)"
    "message res (WORD_bytes 2 @ [1] @ INT64_bytes a) s6 s7" by blast
  then obtain key where m: "res \<noteq> 0" "m_bIsEncoded (pl_objs (packets s7) res)" "sessionArray s7 = sessionArray s6"
    "IOCPServer.more s7 = IOCPServer.more s6" "pkt_wire (pl_objs (packets s7) res) = frame key (WORD_bytes 2 @ [1] @ INT64_bytes a)"
    by (auto simp: message_def)
  have same7: "send_ok content ?i s7" "sender_of content ?i s7 = sender_of content ?i s" "sess s7 ?i = sess s ?i"
    using send_ok_same [where s' = s7 and s = s and content = content and i = ?i] so(1) m(3) f6 by simp_all
  from SendPacket_refines [OF Q same7(1) refl _ m(1,2), where leave = OnClientLeave and W = W] so(2) same7(3) obtain s8 bs where
    s8: "SendPacket W Q OnClientLeave sid res s7 = Inr s8" "post_batch (if length (fst (sender_of content ?i s)) < cap then fst (sender_of content ?i s) @ [res] else fst (sender_of content ?i s),
        snd (sender_of content ?i s)) = (sender_of content ?i s8, bs)"
      "sent_by content ?i s7 bs s8"
    by (auto simp: same7(2))
  define s' where "s' = ReleasePlayer pl (sub_ref res s8)"
  have "CompleteLogin W Q U sid rp True s = Inr (True, s')"
    using s1 rd cp s7(1) s8(1)
    by (simp add: CompleteLogin_def Let_def s4_def [symmetric] s5_def [symmetric] s6_def [symmetric] SendUnicast_def s'_def)
  moreover have "logged_in content cap sid pl a s s'"
  proof -
    have more: "IOCPServer.more s8 = IOCPServer.more s6" using s8(3) m(4) by (simp add: sent_by_def send_frame_def)
    note same = chat_more [OF more]
    have "concat bs @ content (sendBuf (sess s' ?i)) =
        (let q = content (sendBuf (sess s ?i)) in if length q < cap then q @ [res] else q)"
      using post_batch_fifo [OF s8(2)] by (simp add: s'_def ReleasePlayer_frame sender_of_def sess_def Let_def)
    moreover have "pkt_wire (pl_objs (packets s') res) = frame key (WORD_bytes 2 @ [1] @ INT64_bytes a)"
      using s8(3) m(5) same_bytes_wire [of "packets s8" "pkt_SubRef res (packets s8)" res] same_bytes_wire [of "packets s7" "packets s8" res]
      by (simp add: s'_def ReleasePlayer_frame sent_by_def)
    moreover have "os_calls s' = os_calls s @ map (\<lambda>b. OsSend (sock (sess s ?i)) (batch_bufs (packets s') b)) bs"
    proof -
      have "same_bytes (packets s7) (packets s')"
        using s8(3) by (auto simp: s'_def ReleasePlayer_frame sent_by_def intro: same_bytes_trans)
      from same_bytes_batch [OF this] show ?thesis
        using s8(3) Res_Login_calls [OF s7(1)] f6(2) same7(3) by (simp add: s'_def ReleasePlayer_frame sent_by_def)
    qed
    ultimately show ?thesis
      using p6 same by (auto simp: logged_in_def s'_def ReleasePlayer_frame)
  qed
  ultimately show ?thesis by blast
qed

section \<open>A login from the request to the answer\<close>

text \<open>
  C9. Every login of an open session is accepted, whatever session key it presents and whatever
  Redis held. For a request as the protocol documents it - account number, id, nick, 64 bytes of
  key, the two names ending within 20 characters - from a player whose session is in use with an operation pending, the job
  of the Redis thread faults nowhere, marks the player as logged in under the account the client named, registers the
  account for the session, and puts the frame of a positive answer behind all that waits for the client: it is handed to
  \<open>WSASend\<close>, whatever that answers, or waits for the next send, unless the queue of the session is full. Of Redis only this
  is used, that \<open>GET\<close> gives what the \<open>SET\<close> of the same key just before has stored.
\<close>

theorem login_accepts_any_key:
  assumes "queue_laws cap content Q" and "100 \<le> cap" and "malloc_laws W"
    and "redis_laws R" and "login_ready W content sid pl s"
    and "unread (pl_objs (packets s) p) (INT64_bytes account @ wid @ nk @ key)"
    and "terminated wid" and "terminated nk" and "length key = 64"
  shows "\<exists>s'. redis_job W Q R U (sid, p) s = Inr s' \<and> logged_in content cap sid pl account s s'"
proof -
  let ?i = "unat (GET_SESSION_INDEX sid)"
  have l: "length wid = 40" "length nk = 40" using assms(7,8) by (simp_all add: terminated_def)
  from read_names [OF assms(6) l, of "replicate 40 0" "replicate 40 0"] obtain y1 y2 y3 where
    rd: "read_value p (INT64_bytes 0) s = Inr (INT64_bytes account, put_packet p y1 s)"
      "get_data p (replicate 40 0) dfID_LEN (put_packet p y1 s) = Inr (wid, put_packet p y2 s)"
      "get_data p (replicate 40 0) dfNiCK_LEN (put_packet p y2 s) = Inr (nk, put_packet p y3 s)" "unread y3 key"
    by auto
  from get_data_ok [of "put_packet p y3 s" p key "[]" "replicate 64 0" dfSESSIONKEY_LEN] rd(4) assms(9) obtain y4 where
    k: "get_data p (replicate 64 0) dfSESSIONKEY_LEN (put_packet p y3 s) = Inr (key, put_packet p y4 s)" "unread y4 []"
    by (auto simp: dfSESSIONKEY_LEN_def)
  define s5 where "s5 = (put_packet p y4 s)\<lparr>redis := snd (redis_check R account key (redis (put_packet p y4 s)))\<rparr>"
  have net: "net_ok W s" using assms(5) by (simp add: login_ready_def)
  then have "net_ok W (put_packet p y4 s)" using k(2) by (intro net_ok_put) (simp_all add: unread_def)
  then have net5: "net_ok W s5" by (simp add: s5_def net_ok_def)
  have f5: "sessionArray s5 = sessionArray s" "players s5 = players s" "player s5 q = player s q" "os_calls s5 = os_calls s" for q
    by (simp_all add: s5_def put_packet_def player_def)
  from MakeLoginResult_ok [OF assms(3) net5 l, of account] obtain rp s6 where s6: "MakeLoginResult W account wid nk s5 = Inr (rp, s6)"
    "building (pl_objs (packets s6) rp) (INT64_bytes account @ wid @ nk)" "net_ok W s6" "sessionArray s6 = sessionArray s5"
    "IOCPServer.more s6 = IOCPServer.more s5" "os_calls s6 = os_calls s5" by blast
  note same6 = chat_more [OF s6(5)]
  have x6: "sess s6 ?i = sess s ?i" "send_ok content ?i s6 = send_ok content ?i s"
    using send_ok_same [where s' = s6 and s = s and content = content and i = ?i] s6(4) f5(1) by simp_all
  have "login_ready W content sid pl s6"
    using assms(5) s6(3) same6 f5 x6 by (simp add: login_ready_def Let_def)
  from CompleteLogin_ok [OF assms(1-3) this building_unread [OF s6(2)] assms(7,8), of U] obtain s7 where
    s7: "CompleteLogin W Q U sid rp True s6 = Inr (True, s7)" "logged_in content cap sid pl account s6 s7" by blast
  have "redis_job W Q R U (sid, p) s = Inr (sub_ref p (sub_ref rp s7))"
    using rd(1-3) k(1) s6(1) s7(1) redis_check_always [OF assms(4)]
    by (simp add: redis_job_def Let_def s5_def [symmetric])
  moreover have "logged_in content cap sid pl account s (sub_ref p (sub_ref rp s7))"
  proof -
    have "same_bytes (packets s7) (pkt_SubRef p (pkt_SubRef rp (packets s7)))" by (rule same_bytes_trans [of "packets s7" "pkt_SubRef rp (packets s7)"]) simp_all
    from same_bytes_wire [OF this] same_bytes_batch [OF this] s7(2) x6(1) s6(6) f5(4) show ?thesis
      by (simp add: logged_in_def sess_def)
  qed
  ultimately show ?thesis by blast
qed

section \<open>A login with a made-up key\<close>

text \<open>Account 9, an id and a nick of one letter, and 64 bytes of 7 for the key; nothing is stored in Redis.\<close>

definition login_names :: "byte list" where "login_names = 65 # 0 # replicate 38 0"

definition login_request :: CPacket where
  "login_request = pkt_new
     \<lparr>m_cpHeadPtr := Some (replicate 5 0 @ (INT64_bytes 9 @ login_names @ login_names @ replicate 64 7) @ replicate 355 0),
      m_iRear := 152, m_iUsingSize := 152\<rparr>"

definition map_redis :: "(string \<rightharpoonup> byte list) redis_ops" where
  "map_redis = \<lparr>r_set = (\<lambda>k v d. d(k \<mapsto> v)), r_get = (\<lambda>k d. d k)\<rparr>"

definition login_server :: "(nat list, st_Redis list, string \<rightharpoonup> byte list) ChatServer" where
  "login_server =
     \<lparr>sessionArray = [(Session_new (list_queue 4096))\<lparr>sock := 5, sessionID := COMBINE_ID_INDEX 1 0, ioCount := 1\<rparr>],
      indexStack = [], srv_sessionID = 1, maxClientCount = 1, sessionCount = 1, sendTPS = 0, recvTPS = 0, acceptTPS = 0,
      acceptCount = 1, packets = pool_upd 8 (\<lambda>_. login_request) (pool_new pkt_new), os_calls = [], now = 0,
      playerPool = pool_upd 2 (\<lambda>x. x\<lparr>p_sessionID := COMBINE_ID_INDEX 1 0\<rparr>) (pool_new Player_new),
      players = [(COMBINE_ID_INDEX 1 0, 2)], accounts = [], sector = (\<lambda>_. []), redisQ = [], redis = Map.empty\<rparr>"

lemma login_request_unread: "unread login_request (INT64_bytes 9 @ login_names @ login_names @ replicate 64 7)"
  by (simp add: unread_def login_request_def login_names_def pkt_new_def pkt_wf_def pkt_512_def pkt_buf_def pkt_list_def
      eBUFFER_DEFAULT_def eBUFFER_HEADER_SIZE_def MESSAGE_HEADER_LEN_def)

lemma login_names_terminated: "terminated login_names"
  unfolding terminated_def by (intro conjI exI [of _ 1]) (simp_all add: login_names_def is_nul_def)

lemma login_server_ready: "login_ready plain_os (\<lambda>q. q) (COMBINE_ID_INDEX 1 0) 2 login_server"
proof -
  have i: "unat (GET_SESSION_INDEX (COMBINE_ID_INDEX 1 0)) = 0" by (simp add: GET_SESSION_INDEX_def COMBINE_ID_INDEX_def)
  have x: "sess login_server 0 = (Session_new (list_queue 4096))\<lparr>sock := 5, sessionID := COMBINE_ID_INDEX 1 0, ioCount := 1\<rparr>"
    "length (sessionArray login_server) = 1"
    by (simp_all add: login_server_def sess_def)
  have "pool_ok pkt_512 (packets login_server)"
    using login_request_unread by (simp add: login_server_def unread_def pool_ok_upd pool_ok_new pkt_512_new)
  then have "net_ok plain_os login_server" by (simp add: net_ok_def) (simp add: login_server_def pool_new_def fl_new_def)
  moreover have "player login_server 2 = Player_new\<lparr>p_sessionID := COMBINE_ID_INDEX 1 0\<rparr>"
    by (simp add: login_server_def player_def pool_new_def)
  moreover have "send_ok (\<lambda>q. q) 0 login_server"
    by (simp add: send_ok_def send_flags_def sending_def x Session_new_def list_queue_def)
  ultimately show ?thesis
    by (simp add: login_ready_def i x Player_new_def Session_new_def list_queue_def) (simp add: login_server_def)
qed

theorem login_accepts_any_key_witness:
  "\<exists>s'. redis_job plain_os (list_queue 4096) map_redis (\<lambda>_. 0) (COMBINE_ID_INDEX 1 0, 8) login_server = Inr s' \<and>
     logged_in (\<lambda>q. q) 4096 (COMBINE_ID_INDEX 1 0) 2 9 login_server s'"
proof (rule login_accepts_any_key [OF queue_laws_list [of 4096] _ one_packet_server_ok(1) _ login_server_ready])
  show "redis_laws map_redis" by (simp add: redis_laws_def map_redis_def)
  show "unread (pl_objs (packets login_server) 8) (INT64_bytes 9 @ login_names @ login_names @ replicate 64 7)"
    using login_request_unread by (simp add: login_server_def)
qed (simp_all add: plain_os_def login_names_terminated)

end
