(* ===== verification/ChatDelivery.thy ===== *)
theory ChatDelivery
  imports Login
begin

text \<open>
  A chat message from the request to the sessions of the players around (ChatServer.cpp): \<open>OnRecv\<close>,
  \<open>RecvProc\<close>, \<open>Req_Chat\<close>, \<open>Res_Chat\<close> and \<open>SendPacket\<close> for each of the targets; and a request to move.
\<close>

section \<open>One packet to many sessions\<close>

abbreviation slot_of :: "UINT64 \<Rightarrow> nat" where "slot_of sid \<equiv> unat (GET_SESSION_INDEX sid)"

text \<open>A session that is open, with an operation pending beside its send.\<close>

definition takes_messages :: "('q \<Rightarrow> nat list) \<Rightarrow> ('q, 'a) srv \<Rightarrow> UINT64 \<Rightarrow> bool" where
  "takes_messages content s sid \<longleftrightarrow> send_ok content (slot_of sid) s \<and> sessionID (sess s (slot_of sid)) = sid"

text \<open>
  The packet is at the end of what leaves on the session: the batches \<open>bs\<close> handed to \<open>WSASend\<close> and the queue; a full
  queue of \<open>cap\<close> entries drops it.
\<close>

definition queued_for :: "('q \<Rightarrow> nat list) \<Rightarrow> nat \<Rightarrow> nat \<Rightarrow> ('q, 'a) srv \<Rightarrow> ('q, 'a) srv \<Rightarrow> nat list list \<Rightarrow> UINT64 \<Rightarrow> bool" where
  "queued_for content cap p s s' bs sid \<longleftrightarrow>
     concat bs @ content (sendBuf (sess s' (slot_of sid))) =
       (let q = content (sendBuf (sess s (slot_of sid))) in if length q < cap then q @ [p] else q)"

definition sends :: "('q, 'a) srv \<Rightarrow> CPacket pool \<Rightarrow> (UINT64 \<Rightarrow> nat list list) \<Rightarrow> UINT64 \<Rightarrow> os_call list" where
  "sends s h bs sid = map (\<lambda>b. OsSend (sock (sess s (slot_of sid))) (batch_bufs h b)) (bs sid)"

lemma takes_messages_same:
  assumes "sess s' (slot_of sid) = sess s (slot_of sid)" and "length (sessionArray s') = length (sessionArray s)"
  shows "takes_messages content s' sid = takes_messages content s sid"
  using assms by (simp add: takes_messages_def send_ok_def send_flags_def sending_def)

lemma other_slot:
  "takes_messages content s t \<Longrightarrow> takes_messages content s u \<Longrightarrow> t \<noteq> u \<Longrightarrow> slot_of t \<noteq> slot_of u"
  by (auto simp: takes_messages_def)

lemma send_all_ok:
  fixes s :: "('q, 'r, 'd, 'a) chat"
  assumes Q: "queue_laws cap content Q" "100 \<le> cap" and p: "p \<noteq> 0"
  shows "distinct ts \<Longrightarrow> \<forall>t\<in>set ts. takes_messages content s t \<Longrightarrow> m_bIsEncoded (pl_objs (packets s) p) \<Longrightarrow>
    \<exists>s' bs. send_all W Q p ts s = Inr s' \<and> (\<forall>t\<in>set ts. queued_for content cap p s s' (bs t) t) \<and>
      os_calls s' = os_calls s @ concat (map (sends s (packets s) bs) ts) \<and> same_bytes (packets s) (packets s') \<and>
      length (sessionArray s') = length (sessionArray s) \<and>
      (\<forall>j. j \<notin> slot_of ` set ts \<longrightarrow> sess s' j = sess s j) \<and> IOCPServer.more s' = IOCPServer.more s"
proof (induction ts arbitrary: s)
  case Nil
  then show ?case by simp
next
  case (Cons t ts)
  let ?i = "slot_of t"
  have t: "send_ok content ?i s" "sessionID (sess s ?i) = t"
    using Cons.prems(2) by (simp_all add: takes_messages_def)
  from SendPacket_refines [OF Q t(1) refl t(2) p Cons.prems(3), where leave = OnClientLeave and W = W] obtain s1 b where
    s1: "SendPacket W Q OnClientLeave t p s = Inr s1" "spec_send cap (Push p) (sender_of content ?i s) = (sender_of content ?i s1, b)"
      "sent_by content ?i s b s1" by blast
  have f1: "length (sessionArray s1) = length (sessionArray s)" "\<And>j. j \<noteq> ?i \<Longrightarrow> sess s1 j = sess s j"
    "same_bytes (packets s) (packets s1)" "IOCPServer.more s1 = IOCPServer.more s"
    "os_calls s1 = os_calls s @ map (\<lambda>x. OsSend (sock (sess s ?i)) (batch_bufs (packets s) x)) b"
    using s1(3) by (simp_all add: sent_by_def send_frame_def)
  have ne: "slot_of u \<noteq> ?i" if "u \<in> set ts" for u
    using other_slot [of content s u t] Cons.prems(1,2) that by auto
  then have "\<forall>u\<in>set ts. takes_messages content s1 u"
    using Cons.prems(2) takes_messages_same f1(1,2) by (metis list.set_intros(2))
  moreover have "m_bIsEncoded (pl_objs (packets s1) p)" using Cons.prems(3) f1(3) by (simp add: same_bytes_def)
  ultimately obtain s2 bs where
    s2: "send_all W Q p ts s1 = Inr s2" "\<forall>u\<in>set ts. queued_for content cap p s1 s2 (bs u) u"
      "os_calls s2 = os_calls s1 @ concat (map (sends s1 (packets s1) bs) ts)" "same_bytes (packets s1) (packets s2)"
      "length (sessionArray s2) = length (sessionArray s1)" "\<forall>j. j \<notin> slot_of ` set ts \<longrightarrow> sess s2 j = sess s1 j"
      "IOCPServer.more s2 = IOCPServer.more s1"
    using Cons.IH [of s1] Cons.prems(1) by auto
  define bs1 where "bs1 = bs(t := b)"
  have "?i \<notin> slot_of ` set ts" using ne by fastforce
  then have slot: "sess s2 ?i = sess s1 ?i" using s2(6) by blast
  from s1(2) post_batch_fifo have "concat b @ fst (sender_of content ?i s1) =
      (let q = fst (sender_of content ?i s) in if length q < cap then q @ [p] else q)"
    by simp
  then have "queued_for content cap p s s2 b t" by (simp add: queued_for_def slot sender_of_def)
  moreover have "queued_for content cap p s s2 (bs u) u" if "u \<in> set ts" for u
    using s2(2) f1(2) [OF ne [OF that]] that by (simp add: queued_for_def)
  ultimately have "\<forall>u\<in>set (t # ts). queued_for content cap p s s2 (bs1 u) u"
    using Cons.prems(1) by (auto simp: bs1_def)
  moreover have "sends s1 (packets s1) bs u = sends s (packets s) bs1 u" if "u \<in> set ts" for u
    using f1(2) [OF ne [OF that]] Cons.prems(1) that same_bytes_batch [OF f1(3)] by (auto simp: sends_def bs1_def)
  then have rest: "map (sends s1 (packets s1) bs) ts = map (sends s (packets s) bs1) ts" by simp
  have first: "map (\<lambda>x. OsSend (sock (sess s ?i)) (batch_bufs (packets s) x)) b = sends s (packets s) bs1 t"
    by (simp add: sends_def bs1_def)
  have "os_calls s2 = os_calls s @ concat (map (sends s (packets s) bs1) (t # ts))"
    by (simp only: s2(3) f1(5) rest first) simp
  ultimately show ?case
    using s1(1) s2 f1 same_bytes_trans [OF f1(3) s2(4)]
    by (intro exI [of _ s2] exI [of _ bs1]) auto
qed

section \<open>The request\<close>

text \<open>\<open>GetData\<close> into an array longer than what is read.\<close>

lemma payload_read_long:
  assumes "payload_read (take n dst) off (int n) x = Inr v" and "n \<le> length dst" and "n < 2 ^ 63"
  shows "payload_read dst off (int n) x = Inr (v @ drop n dst)"
  using assms by (auto simp: payload_read_def memcpy_def mem_write_def split: option.splits if_splits)

lemma get_data_long:
  assumes u: "unread (pl_objs (packets s) p) (v @ xs)" and l: "length v \<le> length dst" "length v < 2 ^ 63"
  shows "\<exists>y. get_data p dst (int (length v)) s = Inr (v @ drop (length v) dst, put_packet p y s) \<and> unread y xs"
proof -
  let ?x = "pl_objs (packets s) p"
  have x: "pkt_wf ?x" "pkt_list ?x = v @ xs" "pkt_512 ?x" using u by (simp_all add: unread_def)
  then have n: "length v \<le> length (pkt_list ?x)" by simp
  have d: "length (take (length v) dst) = length v" using l by simp
  note t = payload_take [OF x(1) n d]
  have "payload_read dst (m_iFront ?x) (int (length v)) ?x = Inr (v @ drop (length v) dst)"
    using payload_read_long [OF t(1) l] x(2) by simp
  moreover have "\<not> pkt_GetDataSize ?x < int (length v)" using x by (simp add: pkt_GetDataSize_list)
  ultimately show ?thesis
    using t x by (auto simp: get_data_def read_packet_def pkt_GetData_def put_packet_def unread_def pkt_512_rewind)
qed

lemma WORD_roundtrip [simp]: "WORD_of (WORD_bytes a) = a"
proof -
  have "unat a < 256 ^ 2" using unsigned_less [of a, where 'a = nat] by simp
  then show ?thesis by (simp add: WORD_of_def WORD_bytes_def le_value_le_bytes)
qed

lemma chat_targets_same:
  assumes "sector s' = sector s" and "\<And>q. p_sessionID (player s' q) = p_sessionID (player s q)"
    and "\<And>q. isLogined (player s' q) = isLogined (player s q)"
  shows "chat_targets cx cy s' = chat_targets cx cy s"
  by (simp add: chat_targets_def assms)

text \<open>Every target gets the packet \<open>p\<close>, no other session gets anything.\<close>

definition delivered ::
  "('q \<Rightarrow> nat list) \<Rightarrow> nat \<Rightarrow> UINT64 list \<Rightarrow> byte list \<Rightarrow> ('q, 'a) srv \<Rightarrow> ('q, 'a) srv \<Rightarrow> bool" where
  "delivered content cap ts xs s s' \<longleftrightarrow>
     (\<exists>p key bs. pkt_wire (pl_objs (packets s') p) = frame key xs \<and>
        (\<forall>t\<in>set ts. queued_for content cap p s s' (bs t) t) \<and>
        os_calls s' = os_calls s @ concat (map (sends s (packets s') bs) ts) \<and>
        (\<forall>j. j \<notin> slot_of ` set ts \<longrightarrow> sess s' j = sess s j))"

lemma delivered_same:
  assumes "sessionArray s1 = sessionArray s" "os_calls s1 = os_calls s"
    and "sessionArray s1' = sessionArray s'" "os_calls s1' = os_calls s'" "same_bytes (packets s') (packets s1')"
    and "delivered content cap ts xs s s'"
  shows "delivered content cap ts xs s1 s1'"
proof -
  have "sends s1 (packets s1') bs t = sends s (packets s') bs t" for bs t
    using assms(1) same_bytes_batch [OF assms(5)] by (simp add: sends_def sess_def)
  moreover have "pkt_wire (pl_objs (packets s1') p) = pkt_wire (pl_objs (packets s') p)" for p
    by (rule same_bytes_wire [OF assms(5)])
  ultimately show ?thesis using assms by (simp add: delivered_def queued_for_def sess_def cong: map_cong)
qed

section \<open>Building the answer makes no call of the system\<close>

lemma Res_Chat_calls:
  assumes "Res_Chat W pl msg len s = Inr (p, s')"
  shows "os_calls s' = os_calls s"
proof -
  from assms obtain s1 s2 s3 s4 s5 s6 s7 where "alloc_packet W s = Inr (p, s1)"
    "write_value p (WORD_bytes en_PACKET_CS_CHAT_RES_MESSAGE) s1 = Inr s2"
    "write_value p (INT64_bytes (accountNo (player s2 pl))) s2 = Inr s3" "put_data p (p_id (player s3 pl)) dfID_LEN s3 = Inr s4"
    "put_data p (nick (player s4 pl)) dfNiCK_LEN s4 = Inr s5" "write_value p (WORD_bytes len) s5 = Inr s6"
    "put_data p msg (int (unat len)) s6 = Inr s7" "encode_packet W p s7 = Inr s'"
    unfolding Res_Chat_def andThen_pair_eq unfolding andThen_eq_Inr sum.inject prod.inject by blast
  then show ?thesis using alloc_packet_calls packet_op_calls by metis
qed

section \<open>Delivery\<close>

lemma Req_Chat_delivers:
  fixes s :: "('q, 'r, 'd, 'a) chat"
  assumes Q: "queue_laws cap content Q" "100 \<le> cap" and W: "malloc_laws W"
    and net: "net_ok W s" and log: "isLogined (player s pl)"
    and id: "length (p_id (player s pl)) = 40" "length (nick (player s pl)) = 40"
    and pos: "IsValidSector (sectorX (player s pl)) (sectorY (player s pl))"
    and ts: "chat_targets (sectorX (player s pl)) (sectorY (player s pl)) s = ts" "distinct ts"
      "\<forall>t\<in>set ts. takes_messages content s t"
    and u: "unread (pl_objs (packets s) p) (INT64_bytes a @ WORD_bytes len @ line)"
    and len: "length line = unat len" "len \<noteq> 0" "unat len \<le> 415"
  shows "\<exists>s'. Req_Chat W Q U sid pl p s = Inr (True, s') \<and> delivered content cap ts (chat_head (player s pl) len @ line) s s' \<and>
    IOCPServer.more s' = IOCPServer.more s"
proof -
  from read_value_ok [OF u, of "INT64_bytes 0"] obtain y1 where
    1: "read_value p (INT64_bytes 0) s = Inr (INT64_bytes a, put_packet p y1 s)" "unread y1 (WORD_bytes len @ line)"
    by (auto simp: INT64_bytes_def)
  from read_value_ok [of "put_packet p y1 s" p "WORD_bytes len" line "WORD_bytes 0"] 1(2) obtain y2 where
    2: "read_value p (WORD_bytes 0) (put_packet p y1 s) = Inr (WORD_bytes len, put_packet p y2 s)" "unread y2 line"
    by (auto simp: WORD_bytes_def)
  have "length line < 2 ^ 63" using len by simp
  then obtain y3 where
    3: "get_data p (junk U 2048) (int (length line)) (put_packet p y2 s) =
      Inr (line @ drop (length line) (junk U 2048), put_packet p y3 s)" "unread y3 []"
    using get_data_long [of "put_packet p y2 s" p line "[]" "junk U 2048"] 2(2) len by (auto simp: junk_def)
  define msg where "msg = line @ drop (length line) (junk U 2048)"
  define s3 where "s3 = put_packet p y3 s"
  have f3: "player s3 q = player s q" "sessionArray s3 = sessionArray s" "os_calls s3 = os_calls s" "sector s3 = sector s"
    "IOCPServer.more s3 = IOCPServer.more s" for q
    by (simp_all add: s3_def) (simp add: put_packet_def)
  have "net_ok W s3" using net 3(2) unfolding s3_def by (intro net_ok_put) (simp_all add: unread_def)
  moreover have "unat len \<le> length msg" "take (unat len) msg = line" using len by (simp_all add: msg_def)
  ultimately obtain res s4 where s4: "Res_Chat W pl msg len s3 = Inr (res, s4)" "message res (chat_head (player s pl) len @ line) s3 s4"
    using Res_Chat_message [OF W, of s3 pl len msg] id len by (auto simp: f3)
  then obtain key where m: "res \<noteq> 0" "m_bIsEncoded (pl_objs (packets s4) res)" "sessionArray s4 = sessionArray s"
    "IOCPServer.more s4 = IOCPServer.more s" "pkt_wire (pl_objs (packets s4) res) = frame key (chat_head (player s pl) len @ line)"
    by (auto simp: message_def f3)
  have calls: "os_calls s4 = os_calls s" using Res_Chat_calls [OF s4(1)] f3 by simp
  note same = chat_more [OF m(4)]
  have targets: "chat_targets (sectorX (player s4 pl)) (sectorY (player s4 pl)) s4 = ts"
    using ts(1) chat_targets_same [of s4 s] same by simp
  have "\<forall>t\<in>set ts. takes_messages content s4 t" using ts(3) takes_messages_same m(3) by (metis sess_def)
  from send_all_ok [OF Q m(1) ts(2) this m(2), where W = W] obtain s5 bs where
    s5: "send_all W Q res ts s4 = Inr s5" "\<forall>t\<in>set ts. queued_for content cap res s4 s5 (bs t) t"
      "os_calls s5 = os_calls s4 @ concat (map (sends s4 (packets s4) bs) ts)" "same_bytes (packets s4) (packets s5)"
      "\<forall>j. j \<notin> slot_of ` set ts \<longrightarrow> sess s5 j = sess s4 j" "IOCPServer.more s5 = IOCPServer.more s4" by blast
  have "get_data p (junk U 2048) (int (unat len)) (put_packet p y2 s) = Inr (msg, s3)"
    using 3(1) len(1) by (simp add: msg_def s3_def)
  then have "Req_Chat W Q U sid pl p s = Inr (True, sub_ref res s5)"
    using log 1(1) 2(1) s4(1) s5(1) targets pos len(2) same(7) by (simp add: Req_Chat_def Let_def)
  moreover have d: "delivered content cap ts (chat_head (player s pl) len @ line) s4 s5"
    using s5 m(5) same_bytes_wire [OF s5(4), of res] same_bytes_batch [OF s5(4)]
    unfolding delivered_def sends_def by (intro exI [of _ res] exI [of _ key] exI [of _ bs]) simp
  moreover have "delivered content cap ts (chat_head (player s pl) len @ line) s (sub_ref res s5)"
    by (rule delivered_same [OF _ _ _ _ _ d]) (simp_all add: m(3) calls)
  moreover have "IOCPServer.more (sub_ref res s5) = IOCPServer.more s" using s5(6) m(4) by (simp add: sub_ref_def)
  ultimately show ?thesis by blast
qed

text \<open>
  C3. A chat message arrives. When a logged-in player on the map sends a request of 1 to 415 bytes of text, and the
  sessions of the logged-in players around are in use with an operation pending, the handler of the request faults
  nowhere and disconnects nobody, whatever \<open>WSASend\<close> answers; the frame of the answer - the packet type, the account,
  id and nick of the sender as the server knows them, the length and the text - goes behind what is waiting on the
  session of each of these players, unless its queue is full, which drops it; what is handed to \<open>WSASend\<close> goes in batches on the sockets
  of these sessions in their order, and no other session is touched. The account the client names in the request is
  ignored.
\<close>

theorem chat_delivered:
  fixes s :: "('q, 'r, 'd, 'a) chat"
  assumes "queue_laws cap content Q" and "100 \<le> cap" and "malloc_laws W"
    and "net_ok W s" and "map_of (players s) sid = Some pl" and "\<not> closing (player s pl)" and "isLogined (player s pl)"
    and "length (p_id (player s pl)) = 40" and "length (nick (player s pl)) = 40"
    and "IsValidSector (sectorX (player s pl)) (sectorY (player s pl))"
    and "chat_targets (sectorX (player s pl)) (sectorY (player s pl)) s = ts" and "distinct ts"
    and "\<forall>t\<in>set ts. takes_messages content s t"
    and "unread (pl_objs (packets s) p) (WORD_bytes en_PACKET_CS_CHAT_REQ_MESSAGE @ INT64_bytes a @ WORD_bytes len @ line)"
    and "length line = unat len" and "len \<noteq> 0" and "unat len \<le> 415"
  shows "\<exists>s'. OnRecv W Q J U sid p s = Inr s' \<and>
    delivered content cap ts (WORD_bytes en_PACKET_CS_CHAT_RES_MESSAGE @ INT64_bytes (accountNo (player s pl)) @
      p_id (player s pl) @ nick (player s pl) @ WORD_bytes len @ line) s s'"
proof -
  define s1 where "s1 = AddRefPlayer pl s"
  have acq: "AcquirePlayer sid s = (Some pl, s1)"
    using assms(5,6) by (simp add: AcquirePlayer_def s1_def Let_def AddRefPlayer_def)
  define s2 where "s2 = tick (set_player pl (\<lambda>x. x\<lparr>p_lastRecvTime := os_tick W (now s1)\<rparr>) s1)"
  have f2: "packets s2 = packets s" "sessionArray s2 = sessionArray s" "os_calls s2 = os_calls s" "sector s2 = sector s"
    by (simp_all add: s2_def s1_def AddRefPlayer_def)
  from read_value_ok [of s2 p "WORD_bytes en_PACKET_CS_CHAT_REQ_MESSAGE" "INT64_bytes a @ WORD_bytes len @ line" "WORD_bytes 0"]
    assms(14) obtain y where
    rd: "read_value p (WORD_bytes 0) s2 = Inr (WORD_bytes en_PACKET_CS_CHAT_REQ_MESSAGE, put_packet p y s2)"
      "unread y (INT64_bytes a @ WORD_bytes len @ line)" by (auto simp: f2 WORD_bytes_def)
  define s3 where "s3 = put_packet p y s2"
  have f3: "sessionArray s3 = sessionArray s" "os_calls s3 = os_calls s" "sector s3 = sector s"
    by (simp_all add: s3_def f2) (simp add: put_packet_def f2)
  have pl3: "p_sessionID (player s3 q) = p_sessionID (player s q)" "isLogined (player s3 q) = isLogined (player s q)"
    "p_id (player s3 q) = p_id (player s q)" "nick (player s3 q) = nick (player s q)"
    "accountNo (player s3 q) = accountNo (player s q)"
    "sectorX (player s3 q) = sectorX (player s q)" "sectorY (player s3 q) = sectorY (player s q)" for q
    by (simp_all add: s3_def s2_def s1_def AddRefPlayer_def)
  have "net_ok W s2" using assms(4) by (auto simp: net_ok_def f2) (auto simp: s2_def s1_def AddRefPlayer_def)
  then have net3: "net_ok W s3" using rd(2) unfolding s3_def by (intro net_ok_put) (simp_all add: unread_def)
  have targets: "chat_targets (sectorX (player s3 pl)) (sectorY (player s3 pl)) s3 = ts"
    using assms(11) chat_targets_same [of s3 s] f3(3) pl3 by simp
  have ready: "\<forall>t\<in>set ts. takes_messages content s3 t" using assms(13) takes_messages_same f3(1) by (metis sess_def)
  have u: "unread (pl_objs (packets s3) p) (INT64_bytes a @ WORD_bytes len @ line)" using rd(2) by (simp add: s3_def)
  from Req_Chat_delivers [OF assms(1-3) net3 _ _ _ _ targets assms(12) ready u assms(15-17), of U sid] assms(7-10) obtain s4 where
    s4: "Req_Chat W Q U sid pl p s3 = Inr (True, s4)" "delivered content cap ts (chat_head (player s3 pl) len @ line) s3 s4"
    by (auto simp: pl3)
  have "OnRecv W Q J U sid p s = Inr (ReleasePlayer pl s4)"
    using acq rd(1) s4(1) by (simp add: OnRecv_def RecvProc_def Let_def s2_def [symmetric] s3_def [symmetric] protocol_defs)
  moreover have "os_calls (ReleasePlayer pl s4) = os_calls s4" by (simp add: ReleasePlayer_def Let_def set_player_def)
  then have "delivered content cap ts (chat_head (player s3 pl) len @ line) s (ReleasePlayer pl s4)"
    by (intro delivered_same [OF _ _ _ _ _ s4(2)]) (simp_all add: f3 ReleasePlayer_frame)
  then have "delivered content cap ts (WORD_bytes en_PACKET_CS_CHAT_RES_MESSAGE @ INT64_bytes (accountNo (player s pl)) @
      p_id (player s pl) @ nick (player s pl) @ WORD_bytes len @ line) s (ReleasePlayer pl s4)"
    by (simp add: chat_head_def pl3 en_PACKET_CS_CHAT_RES_MESSAGE_def)
  ultimately show ?thesis by blast
qed

section \<open>Moving to a sector\<close>

lemma Res_SectorMove_calls:
  assumes "Res_SectorMove W account x y s = Inr (p, s')"
  shows "os_calls s' = os_calls s"
proof -
  from assms obtain s1 s2 s3 s4 s5 where "alloc_packet W s = Inr (p, s1)"
    "write_value p (WORD_bytes en_PACKET_CS_CHAT_RES_SECTOR_MOVE) s1 = Inr s2" "write_value p (INT64_bytes account) s2 = Inr s3"
    "write_value p (WORD_bytes x) s3 = Inr s4" "write_value p (WORD_bytes y) s4 = Inr s5" "encode_packet W p s5 = Inr s'"
    unfolding Res_SectorMove_def andThen_pair_eq unfolding andThen_eq_Inr sum.inject prod.inject by blast
  then show ?thesis using alloc_packet_calls packet_op_calls by metis
qed

lemma read_position:
  assumes "unread (pl_objs (packets s) p) (INT64_bytes a @ WORD_bytes x @ WORD_bytes y)" and "length d1 = 2" and "length d2 = 2"
  shows "\<exists>y1 y2 y3. read_value p (INT64_bytes 0) s = Inr (INT64_bytes a, put_packet p y1 s) \<and>
    read_value p d1 (put_packet p y1 s) = Inr (WORD_bytes x, put_packet p y2 s) \<and>
    read_value p d2 (put_packet p y2 s) = Inr (WORD_bytes y, put_packet p y3 s) \<and> unread y3 []"
proof -
  from read_value_ok [OF assms(1), of "INT64_bytes 0"] obtain y1 where
    1: "read_value p (INT64_bytes 0) s = Inr (INT64_bytes a, put_packet p y1 s)" "unread y1 (WORD_bytes x @ WORD_bytes y)"
    by (auto simp: INT64_bytes_def)
  from read_value_ok [of "put_packet p y1 s" p "WORD_bytes x" "WORD_bytes y" d1] 1(2) assms(2) obtain y2 where
    2: "read_value p d1 (put_packet p y1 s) = Inr (WORD_bytes x, put_packet p y2 s)" "unread y2 (WORD_bytes y)"
    by (auto simp: WORD_bytes_def)
  from read_value_ok [of "put_packet p y2 s" p "WORD_bytes y" "[]" d2] 2(2) assms(3) obtain y3 where
    "read_value p d2 (put_packet p y2 s) = Inr (WORD_bytes y, put_packet p y3 s)" "unread y3 []"
    by (auto simp: WORD_bytes_def)
  with 1(1) 2(1) show ?thesis by blast
qed

text \<open>The player stands in the sector \<open>new\<close> and in no other; the other players stay.\<close>

definition moved :: "nat \<Rightarrow> sector_id \<Rightarrow> ('q, 'r, 'd, 'a) chat \<Rightarrow> ('q, 'r, 'd, 'a) chat \<Rightarrow> bool" where
  "moved pl new s s' \<longleftrightarrow>
     (sectorX (player s' pl), sectorY (player s' pl)) = new \<and>
     (\<forall>q. q \<noteq> pl \<longrightarrow> sectorX (player s' q) = sectorX (player s q) \<and> sectorY (player s' q) = sectorY (player s q)) \<and>
     (\<forall>c. pl \<in> set (sector s' c) \<longleftrightarrow> c = new) \<and> (\<forall>q c. q \<noteq> pl \<longrightarrow> (q \<in> set (sector s' c) \<longleftrightarrow> q \<in> set (sector s c)))"

lemma move_sector_members:
  assumes "\<And>c. pl \<in> set (m c) \<Longrightarrow> c = old \<and> IsValidSector (fst old) (snd old)"
  shows "pl \<in> set (move_sector pl old new m c) \<longleftrightarrow> c = new"
    and "q \<noteq> pl \<Longrightarrow> q \<in> set (move_sector pl old new m c) \<longleftrightarrow> q \<in> set (m c)"
  using assms [of c] by (auto simp: move_sector_def Let_def set_insert_def set_erase_def)

lemma move_player_answers:
  fixes s :: "('q, 'r, 'd, 'a) chat"
  assumes Q: "queue_laws cap content Q" "100 \<le> cap" and W: "malloc_laws W"
    and net: "net_ok W s" and sec: "\<And>c. pl \<in> set (sector s c) \<Longrightarrow>
      c = (sectorX (player s pl), sectorY (player s pl)) \<and> IsValidSector (fst c) (snd c)"
    and ready: "takes_messages content s sid" and new: "IsValidSector x y"
  shows "\<exists>s'. move_player W Q sid pl account x y s = Inr (True, s') \<and> moved pl (x, y) s s' \<and>
    delivered content cap [sid] (WORD_bytes 4 @ INT64_bytes account @ WORD_bytes x @ WORD_bytes y) s s'"
proof -
  define s1 where "s1 = s\<lparr>sector := move_sector pl (sectorX (player s pl), sectorY (player s pl)) (x, y) (sector s)\<rparr>"
  define s2 where "s2 = tick (set_player pl (\<lambda>z. z\<lparr>sectorX := x, sectorY := y, p_lastRecvTime := os_tick W (now s1)\<rparr>) s1)"
  have f2: "packets s2 = packets s" "sessionArray s2 = sessionArray s" "os_calls s2 = os_calls s"
    "sector s2 = move_sector pl (sectorX (player s pl), sectorY (player s pl)) (x, y) (sector s)"
    "sectorX (player s2 pl) = x" "sectorY (player s2 pl) = y" "\<And>q. q \<noteq> pl \<Longrightarrow> player s2 q = player s q"
    by (simp_all add: s2_def s1_def)
  have "net_ok W s2" using net by (auto simp: net_ok_def f2) (auto simp: s2_def s1_def)
  from Res_SectorMove_message [OF W this, of account x y] obtain res s3 where s3: "Res_SectorMove W account x y s2 = Inr (res, s3)"
    "message res (WORD_bytes 4 @ INT64_bytes account @ WORD_bytes x @ WORD_bytes y) s2 s3" by blast
  then obtain key where m: "res \<noteq> 0" "m_bIsEncoded (pl_objs (packets s3) res)" "sessionArray s3 = sessionArray s"
    "IOCPServer.more s3 = IOCPServer.more s2"
    "pkt_wire (pl_objs (packets s3) res) = frame key (WORD_bytes 4 @ INT64_bytes account @ WORD_bytes x @ WORD_bytes y)"
    by (auto simp: message_def f2)
  have calls: "os_calls s3 = os_calls s" using Res_SectorMove_calls [OF s3(1)] f2 by simp
  have "\<forall>t\<in>set [sid]. takes_messages content s3 t" using ready takes_messages_same [of s3 sid s] m(3) by (simp add: sess_def)
  from send_all_ok [OF Q m(1) _ this m(2), where W = W] obtain s4 bs where
    s4: "send_all W Q res [sid] s3 = Inr s4" "\<forall>t\<in>set [sid]. queued_for content cap res s3 s4 (bs t) t"
      "os_calls s4 = os_calls s3 @ concat (map (sends s3 (packets s3) bs) [sid])" "same_bytes (packets s3) (packets s4)"
      "\<forall>j. j \<notin> slot_of ` set [sid] \<longrightarrow> sess s4 j = sess s3 j" "IOCPServer.more s4 = IOCPServer.more s3" by auto
  then have "SendPacket W Q OnClientLeave sid res s3 = Inr s4" by (auto simp: andThen_eq_Inr)
  then have "move_player W Q sid pl account x y s = Inr (True, sub_ref res s4)"
    using new s3(1) by (simp add: move_player_def Let_def s1_def s2_def)
  moreover have d: "delivered content cap [sid] (WORD_bytes 4 @ INT64_bytes account @ WORD_bytes x @ WORD_bytes y) s3 s4"
    using s4 m(5) same_bytes_wire [OF s4(4), of res] same_bytes_batch [OF s4(4)]
    unfolding delivered_def sends_def by (intro exI [of _ res] exI [of _ key] exI [of _ bs]) simp
  moreover have "delivered content cap [sid] (WORD_bytes 4 @ INT64_bytes account @ WORD_bytes x @ WORD_bytes y) s (sub_ref res s4)"
    by (rule delivered_same [OF _ _ _ _ _ d]) (simp_all add: m(3) calls)
  moreover have "IOCPServer.more (sub_ref res s4) = IOCPServer.more s2" using s4(6) m(4) by (simp add: sub_ref_def)
  note same = chat_more [OF this]
  let ?old = "(sectorX (player s pl), sectorY (player s pl))"
  have old: "c = ?old \<and> IsValidSector (fst ?old) (snd ?old)" if "pl \<in> set (sector s c)" for c
    using sec [OF that] by auto
  have "moved pl (x, y) s (sub_ref res s4)"
    unfolding moved_def using same(3,7) f2 move_sector_members [of pl "sector s" ?old, OF old] by simp
  ultimately show ?thesis by blast
qed

text \<open>
  C4. A request to move is obeyed and answered. When the client of a session in use with an operation pending, logged in
  or not, names a sector of the map, its player leaves the set of its old sector and stands in that one and in no other,
  all other players stay where they are, and the answer with the account the client named and the new position goes
  behind what is waiting on its session (unless the queue is full) and on no other, whatever \<open>WSASend\<close> answers. When the sector is
  not on the map the client is disconnected - its socket is closed and the session marked - and every player stays where
  it is.
\<close>

theorem move_answered:
  fixes s :: "('q, 'r, 'd, 'a) chat"
  assumes "queue_laws cap content Q" and "100 \<le> cap" and "malloc_laws W"
    and "net_ok W s" and "map_of (players s) sid = Some pl" and "\<not> closing (player s pl)"
    and "sectors_ok s" and "takes_messages content s sid"
    and "unread (pl_objs (packets s) p) (WORD_bytes en_PACKET_CS_CHAT_REQ_SECTOR_MOVE @ INT64_bytes a @ WORD_bytes x @ WORD_bytes y)"
  shows "(IsValidSector x y \<longrightarrow> (\<exists>s'. OnRecv W Q J U sid p s = Inr s' \<and> moved pl (x, y) s s' \<and>
      delivered content cap [sid] (WORD_bytes en_PACKET_CS_CHAT_RES_SECTOR_MOVE @ INT64_bytes a @ WORD_bytes x @ WORD_bytes y) s s')) \<and>
    (\<not> IsValidSector x y \<longrightarrow> (\<exists>s'. OnRecv W Q J U sid p s = Inr s' \<and> sector s' = sector s \<and>
      (\<forall>q. sectorX (player s' q) = sectorX (player s q) \<and> sectorY (player s' q) = sectorY (player s q)) \<and>
      sessionArray s' = sessionArray (disconnected (slot_of sid) s) \<and> os_calls s' = os_calls (disconnected (slot_of sid) s)))"
proof -
  define s1 where "s1 = AddRefPlayer pl s"
  have acq: "AcquirePlayer sid s = (Some pl, s1)"
    using assms(5,6) by (simp add: AcquirePlayer_def s1_def Let_def AddRefPlayer_def)
  define s2 where "s2 = tick (set_player pl (\<lambda>x. x\<lparr>p_lastRecvTime := os_tick W (now s1)\<rparr>) s1)"
  have f2: "packets s2 = packets s" "sessionArray s2 = sessionArray s" "os_calls s2 = os_calls s" "sector s2 = sector s"
    by (simp_all add: s2_def s1_def AddRefPlayer_def)
  from read_value_ok [of s2 p "WORD_bytes en_PACKET_CS_CHAT_REQ_SECTOR_MOVE" "INT64_bytes a @ WORD_bytes x @ WORD_bytes y" "WORD_bytes 0"]
    assms(9) obtain y0 where
    rd: "read_value p (WORD_bytes 0) s2 = Inr (WORD_bytes en_PACKET_CS_CHAT_REQ_SECTOR_MOVE, put_packet p y0 s2)"
      "unread y0 (INT64_bytes a @ WORD_bytes x @ WORD_bytes y)" by (auto simp: f2 WORD_bytes_def)
  from read_position [of "put_packet p y0 s2" p a x y "junk U 2" "junk (\<lambda>k. U (k + 2)) 2"] rd(2) obtain y1 y2 y3 where
    pos: "read_value p (INT64_bytes 0) (put_packet p y0 s2) = Inr (INT64_bytes a, put_packet p y1 s2)"
      "read_value p (junk U 2) (put_packet p y1 s2) = Inr (WORD_bytes x, put_packet p y2 s2)"
      "read_value p (junk (\<lambda>k. U (k + 2)) 2) (put_packet p y2 s2) = Inr (WORD_bytes y, put_packet p y3 s2)" "unread y3 []"
    by (auto simp: junk_def)
  define s3 where "s3 = put_packet p y3 s2"
  have f3: "sessionArray s3 = sessionArray s" "os_calls s3 = os_calls s" "sector s3 = sector s"
    by (simp_all add: s3_def f2) (simp add: put_packet_def f2)
  have pl3: "sectorX (player s3 q) = sectorX (player s q)" "sectorY (player s3 q) = sectorY (player s q)" for q
    by (simp_all add: s3_def s2_def s1_def AddRefPlayer_def)
  have "net_ok W s2" using assms(4) by (auto simp: net_ok_def f2) (auto simp: s2_def s1_def AddRefPlayer_def)
  then have net3: "net_ok W s3" using pos(4) unfolding s3_def by (intro net_ok_put) (simp_all add: unread_def)
  have go: "OnRecv W Q J U sid p s = andThen (move_player W Q sid pl a x y s3)
      (\<lambda>(ok, s4). if \<not> ok then Disconnect Q OnClientLeave sid (ReleasePlayer pl s4) else Inr (ReleasePlayer pl s4))"
    using acq rd(1) pos(1-3)
    by (cases "move_player W Q sid pl a x y s3")
      (auto simp: OnRecv_def RecvProc_def Req_SectorMove_def Let_def s2_def [symmetric] s3_def [symmetric] protocol_defs)
  have rel: "os_calls (ReleasePlayer pl t) = os_calls t" "sector (ReleasePlayer pl t) = sector t"
    "sectorX (player (ReleasePlayer pl t) q) = sectorX (player t q)" "sectorY (player (ReleasePlayer pl t) q) = sectorY (player t q)"
    for t :: "('q, 'r, 'd, 'a) chat" and q
    by (simp_all add: ReleasePlayer_def Let_def) (simp_all add: set_player_def player_def)
  have "\<exists>s'. OnRecv W Q J U sid p s = Inr s' \<and> moved pl (x, y) s s' \<and>
      delivered content cap [sid] (WORD_bytes en_PACKET_CS_CHAT_RES_SECTOR_MOVE @ INT64_bytes a @ WORD_bytes x @ WORD_bytes y) s s'"
    if "IsValidSector x y"
  proof -
    have sec: "c = (sectorX (player s3 pl), sectorY (player s3 pl)) \<and> IsValidSector (fst c) (snd c)" if "pl \<in> set (sector s3 c)" for c
      using that sectors_okD(2) [OF assms(7), of pl c] unfolding f3 pl3 by blast
    have "takes_messages content s3 sid" using assms(8) takes_messages_same [of s3 sid s] f3(1) by (simp add: sess_def)
    from move_player_answers [OF assms(1-3) net3 sec this that, of a] obtain s4 where
      s4: "move_player W Q sid pl a x y s3 = Inr (True, s4)" "moved pl (x, y) s3 s4"
        "delivered content cap [sid] (WORD_bytes 4 @ INT64_bytes a @ WORD_bytes x @ WORD_bytes y) s3 s4" by blast
    have "moved pl (x, y) s (ReleasePlayer pl s4)" using s4(2) by (simp add: moved_def f3 rel pl3)
    moreover have "delivered content cap [sid] (WORD_bytes 4 @ INT64_bytes a @ WORD_bytes x @ WORD_bytes y) s (ReleasePlayer pl s4)"
      by (intro delivered_same [OF _ _ _ _ _ s4(3)]) (simp_all add: f3 ReleasePlayer_frame rel)
    ultimately show ?thesis using go s4(1) by (simp add: en_PACKET_CS_CHAT_RES_SECTOR_MOVE_def)
  qed
  moreover have "\<exists>s'. OnRecv W Q J U sid p s = Inr s' \<and> sector s' = sector s \<and>
      (\<forall>q. sectorX (player s' q) = sectorX (player s q) \<and> sectorY (player s' q) = sectorY (player s q)) \<and>
      sessionArray s' = sessionArray (disconnected (slot_of sid) s) \<and> os_calls s' = os_calls (disconnected (slot_of sid) s)"
    if "\<not> IsValidSector x y"
  proof -
    let ?t = "ReleasePlayer pl s3"
    have t: "sessionArray ?t = sessionArray s" "os_calls ?t = os_calls s" by (simp_all add: f3 rel ReleasePlayer_frame)
    have "takes_messages content ?t sid" using assms(8) takes_messages_same [of ?t sid s] t(1) by (simp add: sess_def)
    then have "Disconnect Q OnClientLeave sid ?t = Inr (disconnected (slot_of sid) ?t)"
      by (intro Disconnect_held) (auto simp: takes_messages_def send_ok_def send_flags_def sending_def split: if_splits)
    then have "OnRecv W Q J U sid p s = Inr (disconnected (slot_of sid) ?t)" using go that by (simp add: move_player_def)
    moreover have "IOCPServer.more (disconnected (slot_of sid) ?t) = IOCPServer.more ?t" by (simp add: disconnected_def Let_def)
    note chat_more [OF this]
    ultimately show ?thesis
      by (intro exI [of _ "disconnected (slot_of sid) ?t"]) (simp add: f3 rel pl3, simp add: disconnected_def t sess_def Let_def)
  qed
  ultimately show ?thesis by blast
qed

section \<open>Two players in neighbouring sectors\<close>

text \<open>Account 9 says \<open>hi\<close> (four bytes) under account 0; the player of account 9 stands at 3, 4, the other one sector to the right.\<close>

definition chat_request :: CPacket where
  "chat_request = pkt_new
     \<lparr>m_cpHeadPtr := Some (replicate 5 0 @ (WORD_bytes 5 @ INT64_bytes 0 @ WORD_bytes 4 @ [104, 0, 105, 0]) @ replicate 491 0),
      m_iRear := 16, m_iUsingSize := 16\<rparr>"

definition chat_session :: "SOCKET \<Rightarrow> UINT64 \<Rightarrow> nat list Session" where
  "chat_session so sid = (Session_new (list_queue 4096))\<lparr>sock := so, sessionID := sid, ioCount := 1\<rparr>"

definition chat_player :: "UINT64 \<Rightarrow> UINT64 \<Rightarrow> WORD \<Rightarrow> Player" where
  "chat_player sid account x = Player_new\<lparr>p_sessionID := sid, isLogined := True, accountNo := account, sectorX := x, sectorY := 4\<rparr>"

definition chat_pair :: "(nat list, st_Redis list, unit) ChatServer" where
  "chat_pair =
     \<lparr>sessionArray = [chat_session 5 (COMBINE_ID_INDEX 1 0), chat_session 6 (COMBINE_ID_INDEX 2 1)],
      indexStack = [], srv_sessionID = 2, maxClientCount = 2, sessionCount = 2, sendTPS = 0, recvTPS = 0, acceptTPS = 0,
      acceptCount = 2, packets = pool_upd 8 (\<lambda>_. chat_request) (pool_new pkt_new), os_calls = [], now = 0,
      playerPool = pool_upd 2 (\<lambda>_. chat_player (COMBINE_ID_INDEX 1 0) 9 3)
        (pool_upd 3 (\<lambda>_. chat_player (COMBINE_ID_INDEX 2 1) 8 4) (pool_new Player_new)),
      players = [(COMBINE_ID_INDEX 1 0, 2), (COMBINE_ID_INDEX 2 1, 3)], accounts = [],
      sector = (\<lambda>_. [])((3, 4) := [2], (4, 4) := [3]), redisQ = [], redis = ()\<rparr>"

lemma chat_pair_ids: "slot_of (COMBINE_ID_INDEX 1 0) = 0" "slot_of (COMBINE_ID_INDEX 2 1) = Suc 0"
  "COMBINE_ID_INDEX 1 0 \<noteq> COMBINE_ID_INDEX 2 1"
  by (simp_all add: GET_SESSION_INDEX_def COMBINE_ID_INDEX_def)

lemma chat_request_unread: "unread chat_request (WORD_bytes 5 @ INT64_bytes 0 @ WORD_bytes 4 @ [104, 0, 105, 0])"
  by (simp add: unread_def chat_request_def pkt_new_def pkt_wf_def pkt_512_def pkt_buf_def pkt_list_def
      eBUFFER_DEFAULT_def eBUFFER_HEADER_SIZE_def MESSAGE_HEADER_LEN_def WORD_bytes_def INT64_bytes_def)

lemma chat_pair_players: "player chat_pair 2 = chat_player (COMBINE_ID_INDEX 1 0) 9 3"
  "player chat_pair 3 = chat_player (COMBINE_ID_INDEX 2 1) 8 4"
  by (simp_all add: chat_pair_def player_def pool_new_def)

lemma around_3_4: "around_sectors 3 4 = [(2, 3), (3, 3), (4, 3), (2, 4), (3, 4), (4, 4), (2, 5), (3, 5), (4, 5)]"
  by (simp add: around_sectors_def MakeAround_def shifts_def around_step_def IsValidSector_def dfSECTOR_MAX_X_def dfSECTOR_MAX_Y_def
      to_WORD_def) (simp add: numeral_eq_Suc)

lemma chat_pair_targets: "chat_targets 3 4 chat_pair = [COMBINE_ID_INDEX 1 0, COMBINE_ID_INDEX 2 1]"
proof -
  have "sector chat_pair = (\<lambda>_. [])((3, 4) := [2], (4, 4) := [3])" by (simp add: chat_pair_def)
  then show ?thesis by (simp add: chat_targets_def around_3_4 chat_pair_players) (simp add: chat_player_def)
qed

lemma chat_pair_ready: "net_ok plain_os chat_pair" "t \<in> {COMBINE_ID_INDEX 1 0, COMBINE_ID_INDEX 2 1} \<Longrightarrow> takes_messages (\<lambda>q. q) chat_pair t"
proof -
  have "pool_ok pkt_512 (packets chat_pair)"
    using chat_request_unread by (simp add: chat_pair_def unread_def pool_ok_upd pool_ok_new pkt_512_new)
  then show "net_ok plain_os chat_pair" by (simp add: net_ok_def) (simp add: chat_pair_def pool_new_def fl_new_def)
  have x: "sess chat_pair 0 = chat_session 5 (COMBINE_ID_INDEX 1 0)" "sess chat_pair (Suc 0) = chat_session 6 (COMBINE_ID_INDEX 2 1)"
    "length (sessionArray chat_pair) = 2"
    by (simp_all add: chat_pair_def sess_def)
  show "takes_messages (\<lambda>q. q) chat_pair t" if "t \<in> {COMBINE_ID_INDEX 1 0, COMBINE_ID_INDEX 2 1}" for t
    using that by (auto simp: takes_messages_def send_ok_def send_flags_def sending_def chat_pair_ids x)
      (simp_all add: chat_session_def Session_new_def list_queue_def)
qed

theorem chat_delivered_witness:
  "\<exists>s'. OnRecv plain_os (list_queue 4096) (list_queue 65534) (\<lambda>_. 0) (COMBINE_ID_INDEX 1 0) 8 chat_pair = Inr s' \<and>
     delivered (\<lambda>q. q) 4096 [COMBINE_ID_INDEX 1 0, COMBINE_ID_INDEX 2 1]
       (WORD_bytes 6 @ INT64_bytes 9 @ replicate 40 0 @ replicate 40 0 @ WORD_bytes 4 @ [104, 0, 105, 0]) chat_pair s'"
proof -
  have pl: "map_of (players chat_pair) (COMBINE_ID_INDEX 1 0) = Some 2" by (simp add: chat_pair_def)
  have u: "unread (pl_objs (packets chat_pair) 8) (WORD_bytes en_PACKET_CS_CHAT_REQ_MESSAGE @ INT64_bytes 0 @ WORD_bytes 4 @ [104, 0, 105, 0])"
    using chat_request_unread by (simp add: chat_pair_def en_PACKET_CS_CHAT_REQ_MESSAGE_def)
  note go = chat_delivered [OF queue_laws_list [of 4096] _ one_packet_server_ok(1) chat_pair_ready(1) pl _ _ _ _ _ _ _ _ u,
    where ts = "[COMBINE_ID_INDEX 1 0, COMBINE_ID_INDEX 2 1]" and J = "list_queue 65534" and U = "\<lambda>_. 0"]
  show ?thesis
    using go chat_pair_ready(2) chat_pair_targets chat_pair_ids(3)
    by (simp add: chat_pair_players plain_os_def) (simp add: chat_player_def Player_new_def sector_zero en_PACKET_CS_CHAT_RES_MESSAGE_def)
qed

text \<open>The other player asks to move to 10, 10, then to a place beyond the map.\<close>

definition move_request :: "WORD \<Rightarrow> CPacket" where
  "move_request x = pkt_new
     \<lparr>m_cpHeadPtr := Some (replicate 5 0 @ (WORD_bytes 3 @ INT64_bytes 8 @ WORD_bytes x @ WORD_bytes 10) @ replicate 493 0),
      m_iRear := 14, m_iUsingSize := 14\<rparr>"

lemma move_request_unread: "unread (move_request x) (WORD_bytes 3 @ INT64_bytes 8 @ WORD_bytes x @ WORD_bytes 10)"
  by (simp add: unread_def move_request_def pkt_new_def pkt_wf_def pkt_512_def pkt_buf_def pkt_list_def
      eBUFFER_DEFAULT_def eBUFFER_HEADER_SIZE_def MESSAGE_HEADER_LEN_def WORD_bytes_def INT64_bytes_def)

definition move_server :: "WORD \<Rightarrow> (nat list, st_Redis list, unit) ChatServer" where
  "move_server x = chat_pair\<lparr>packets := pool_upd 8 (\<lambda>_. move_request x) (pool_new pkt_new)\<rparr>"

lemma move_server_same: "player (move_server x) q = player chat_pair q" "players (move_server x) = players chat_pair"
  "sector (move_server x) = sector chat_pair" "sessionArray (move_server x) = sessionArray chat_pair" "sess (move_server x) i = sess chat_pair i"
  by (simp_all add: move_server_def player_def sess_def)

lemma move_server_ok: "net_ok plain_os (move_server x)" "sectors_ok (move_server x)"
  "takes_messages (\<lambda>q. q) (move_server x) (COMBINE_ID_INDEX 2 1)"
proof -
  have "pool_ok pkt_512 (packets (move_server x))"
    using move_request_unread [of x] by (simp add: move_server_def unread_def pool_ok_upd pool_ok_new pkt_512_new)
  then show "net_ok plain_os (move_server x)" by (simp add: net_ok_def) (simp add: move_server_def pool_new_def fl_new_def)
  have "sector chat_pair = (\<lambda>_. [])((3, 4) := [2], (4, 4) := [3])" "snd ` set (players chat_pair) = {2, 3}"
    by (simp_all add: chat_pair_def)
  then show "sectors_ok (move_server x)"
    unfolding sectors_ok_def move_server_same
    by (auto simp: chat_pair_players chat_player_def IsValidSector_def dfSECTOR_MAX_X_def dfSECTOR_MAX_Y_def split: if_splits)
  show "takes_messages (\<lambda>q. q) (move_server x) (COMBINE_ID_INDEX 2 1)"
    using chat_pair_ready(2) [of "COMBINE_ID_INDEX 2 1"] by (subst takes_messages_same [of _ _ chat_pair]) (simp_all add: move_server_same)
qed

theorem move_answered_witness:
  "(\<exists>s'. OnRecv plain_os (list_queue 4096) (list_queue 65534) (\<lambda>_. 0) (COMBINE_ID_INDEX 2 1) 8 (move_server 10) = Inr s' \<and>
      moved 3 (10, 10) (move_server 10) s') \<and>
   (\<exists>s'. OnRecv plain_os (list_queue 4096) (list_queue 65534) (\<lambda>_. 0) (COMBINE_ID_INDEX 2 1) 8 (move_server 60) = Inr s' \<and>
      sector s' = sector (move_server 60) \<and>
      os_calls s' = [OsShutdown 6, OsCancelIo 6, OsLinger 6, OsClose 6])"
proof -
  have pl: "map_of (players (move_server x)) (COMBINE_ID_INDEX 2 1) = Some 3" for x
    using chat_pair_ids(3) by (simp add: move_server_same) (simp add: chat_pair_def)
  have u: "unread (pl_objs (packets (move_server x)) 8)
      (WORD_bytes en_PACKET_CS_CHAT_REQ_SECTOR_MOVE @ INT64_bytes 8 @ WORD_bytes x @ WORD_bytes 10)" for x
    using move_request_unread [of x] by (simp add: move_server_def en_PACKET_CS_CHAT_REQ_SECTOR_MOVE_def)
  have c: "\<not> closing (player (move_server x) 3)" for x
    by (simp add: move_server_same chat_pair_players chat_player_def Player_new_def)
  have v: "IsValidSector 10 10" "\<not> IsValidSector 60 10" by (simp_all add: IsValidSector_def dfSECTOR_MAX_X_def dfSECTOR_MAX_Y_def)
  note go = move_answered [OF queue_laws_list [of 4096] _ one_packet_server_ok(1) move_server_ok(1) pl c move_server_ok(2,3) u,
    where J = "list_queue 65534" and U = "\<lambda>_. 0"]
  have "os_calls (disconnected 1 (move_server 60)) = [OsShutdown 6, OsCancelIo 6, OsLinger 6, OsClose 6]"
    by (simp add: disconnected_def Let_def) (simp add: move_server_def chat_pair_def chat_session_def sess_def)
  then show ?thesis using go [of 10] go [of 60] v by (auto simp: chat_pair_ids(2))
qed

end
