(* ===== verification/Timeouts.thy ===== *)
theory Timeouts
  imports ChatDelivery
begin

text \<open>
  The heartbeat thread (\<open>CheckTimeOut\<close> of ChatServer.cpp): which sessions it disconnects, and what that does to them.
\<close>

section \<open>One kick\<close>

text \<open>The id is that of an open session.\<close>

definition is_open :: "('q, 'a) srv \<Rightarrow> UINT64 \<Rightarrow> bool" where
  "is_open s sid \<longleftrightarrow> sessionID (sess s (slot_of sid)) = sid \<and> \<not> isReleased (sess s (slot_of sid))"

text \<open>The slot of the id exists and has an operation pending.\<close>

definition pending :: "('q, 'a) srv \<Rightarrow> UINT64 \<Rightarrow> bool" where
  "pending s sid \<longleftrightarrow> slot_of sid < length (sessionArray s) \<and> 1 \<le> ioCount (sess s (slot_of sid))"

text \<open>How a session is closed.\<close>

definition closing_calls :: "('q, 'a) srv \<Rightarrow> UINT64 \<Rightarrow> os_call list" where
  "closing_calls s sid =
     (let k = sock (sess s (slot_of sid)) in if is_open s sid then [OsShutdown k, OsCancelIo k, OsLinger k, OsClose k] else [])"

lemma Disconnect_pending:
  assumes "pending s sid"
  shows "Disconnect Q leave sid s = Inr (if is_open s sid then disconnected (slot_of sid) s else s)"
proof (cases "is_open s sid")
  case True
  with assms Disconnect_held [OF refl, of sid s Q leave] show ?thesis by (simp add: is_open_def pending_def)
next
  case False
  have "set_sess (slot_of sid) (\<lambda>x. x\<lparr>ioCount := ioCount x - 1\<rparr>) (set_sess (slot_of sid) (\<lambda>x. x\<lparr>ioCount := ioCount x + 1\<rparr>) s) = s"
    using assms by (simp add: pending_def set_sess_twice set_sess_idle)
  with False assms show ?thesis
    by (auto simp: Disconnect_def SessionLock_def io_done_def Let_def is_open_def pending_def)
qed

lemma sess_disconnected:
  assumes "i < length (sessionArray s)"
  shows "sess (disconnected i s) j = (if j = i then (sess s i)\<lparr>isReleased := True, sock := INVALID_SOCKET\<rparr> else sess s j)"
  using assms by (simp add: disconnected_def sess_def Let_def)

lemma disconnected_frame:
  "length (sessionArray (disconnected i s)) = length (sessionArray s)" "IOCPServer.more (disconnected i s) = IOCPServer.more s"
  "indexStack (disconnected i s) = indexStack s" "packets (disconnected i s) = packets s"
  by (simp_all add: disconnected_def Let_def)

section \<open>All kicks\<close>

text \<open>Of distinct ids whose slots have an operation pending, those of open sessions are closed, in order; nothing else changes.\<close>

definition kicked_out :: "UINT64 list \<Rightarrow> ('q, 'a) srv \<Rightarrow> ('q, 'a) srv \<Rightarrow> bool" where
  "kicked_out sids s s' \<longleftrightarrow>
     (\<forall>j. sess s' j = (if \<exists>sid. sid \<in> set sids \<and> slot_of sid = j \<and> is_open s sid
                      then (sess s j)\<lparr>isReleased := True, sock := INVALID_SOCKET\<rparr> else sess s j)) \<and>
     os_calls s' = os_calls s @ concat (map (closing_calls s) sids) \<and>
     length (sessionArray s') = length (sessionArray s) \<and> indexStack s' = indexStack s \<and> packets s' = packets s \<and>
     IOCPServer.more s' = IOCPServer.more s"

lemma kick_all_pending:
  "distinct sids \<Longrightarrow> \<forall>sid\<in>set sids. pending s sid \<Longrightarrow> \<exists>s'. kick_all Q sids s = Inr s' \<and> kicked_out sids s s'"
proof (induction sids arbitrary: s)
  case Nil
  then show ?case by (simp add: kicked_out_def)
next
  case (Cons sid sids)
  let ?i = "slot_of sid"
  define s1 where "s1 = (if is_open s sid then disconnected ?i s else s)"
  have i: "?i < length (sessionArray s)" and d: "Disconnect Q OnClientLeave sid s = Inr s1"
    using Cons.prems(2) Disconnect_pending [of s sid] by (simp_all add: pending_def s1_def)
  have x1: "sess s1 j = (if j = ?i \<and> is_open s sid then (sess s ?i)\<lparr>isReleased := True, sock := INVALID_SOCKET\<rparr> else sess s j)" for j
    using sess_disconnected [OF i] by (simp add: s1_def)
  have f1: "length (sessionArray s1) = length (sessionArray s)" "IOCPServer.more s1 = IOCPServer.more s"
    "indexStack s1 = indexStack s" "packets s1 = packets s" "os_calls s1 = os_calls s @ closing_calls s sid"
    by (simp_all add: s1_def disconnected_frame closing_calls_def Let_def) (simp add: disconnected_def Let_def)
  have open1: "is_open s1 u = is_open s u" "is_open s u \<Longrightarrow> slot_of u = ?i \<Longrightarrow> \<not> is_open s sid" if "u \<in> set sids" for u
    using that Cons.prems(1) by (auto simp: is_open_def x1)
  have "\<forall>u\<in>set sids. pending s1 u" using Cons.prems(2) by (simp add: pending_def f1 x1)
  with Cons.IH [of s1] Cons.prems(1) obtain s' where s': "kick_all Q sids s1 = Inr s'" "kicked_out sids s1 s'" by auto
  have "closing_calls s1 u = closing_calls s u" if "u \<in> set sids" for u
    using open1 [OF that] by (auto simp: closing_calls_def x1)
  then have c: "map (closing_calls s1) sids = map (closing_calls s) sids" by simp
  have "sess s' j = (if \<exists>u. u \<in> set (sid # sids) \<and> slot_of u = j \<and> is_open s u
      then (sess s j)\<lparr>isReleased := True, sock := INVALID_SOCKET\<rparr> else sess s j)" for j
  proof -
    have e: "(\<exists>u. u \<in> set sids \<and> slot_of u = j \<and> is_open s1 u) = (\<exists>u. u \<in> set sids \<and> slot_of u = j \<and> is_open s u)"
      using open1(1) by blast
    have "sess s' j = (if \<exists>u. u \<in> set sids \<and> slot_of u = j \<and> is_open s1 u
        then (sess s1 j)\<lparr>isReleased := True, sock := INVALID_SOCKET\<rparr> else sess s1 j)"
      using s'(2) unfolding kicked_out_def by blast
    then have "sess s' j = (if \<exists>u. u \<in> set sids \<and> slot_of u = j \<and> is_open s u
        then (sess s1 j)\<lparr>isReleased := True, sock := INVALID_SOCKET\<rparr> else sess s1 j)"
      unfolding e .
    then show ?thesis using x1 [of j] open1(2) by (cases "j = ?i") auto
  qed
  then have "kicked_out (sid # sids) s s'"
    using s'(2) unfolding kicked_out_def by (simp add: f1 c)
  with s'(1) d show ?case by auto
qed

lemma kicked_out_tick: "kicked_out sids (tick s) s' = kicked_out sids s s'"
proof -
  have o: "is_open (tick s) = is_open s" by (simp add: is_open_def fun_eq_iff)
  have "closing_calls (tick s) = closing_calls s" by (simp add: closing_calls_def o fun_eq_iff)
  with o show ?thesis by (simp add: kicked_out_def)
qed

text \<open>
  C28. In every reachable state the heartbeat thread collects exactly the sessions of the map of players whose last packet
  is more than 40000 milliseconds old, each once - a clock that went backwards collects nobody, although the
  subtraction on 64-bit unsigned integers wraps - and disconnects exactly these. When an operation is pending in the
  slot of each, that succeeds: every one of them that is still open has its socket shut down, closed and forgotten and is
  marked, in this order; no other session and no player is touched. At exactly 40000 milliseconds a session stays.
\<close>

theorem CheckTimeOut_kicks:
  assumes "server_reachable W Q J R db n s0 s" and "malloc_laws W"
  shows "\<exists>kicked. CheckTimeOut W Q s = kick_all Q kicked (tick s) \<and> distinct kicked \<and>
    (\<forall>sid. sid \<in> set kicked \<longleftrightarrow>
      (\<exists>p. (sid, p) \<in> set (players s) \<and> unat (p_lastRecvTime (player s p)) + 40000 < unat (os_tick W (now s)))) \<and>
    ((\<forall>sid\<in>set kicked. pending s sid) \<longrightarrow> (\<exists>s'. CheckTimeOut W Q s = Inr s' \<and> kicked_out kicked s s'))"
proof -
  define kicked where "kicked = timed_out (os_tick W (now s)) (tick s)"
  have ok: "players_ok (\<lambda>_. 0) s" using reachable_chat_inv [OF assms] by (simp add: chat_inv_def)
  have same: "kicked = timed_out (os_tick W (now s)) s" by (simp add: kicked_def timed_out_def player_def tick_def)
  have c: "CheckTimeOut W Q s = kick_all Q kicked (tick s)" by (simp add: CheckTimeOut_def kicked_def Let_def)
  have d: "distinct kicked"
    unfolding same timed_out_def using players_okD(3) [OF ok] by (rule distinct_map_filter)
  have m: "sid \<in> set kicked \<longleftrightarrow>
      (\<exists>p. (sid, p) \<in> set (players s) \<and> unat (p_lastRecvTime (player s p)) + 40000 < unat (os_tick W (now s)))" for sid
    unfolding same by (rule timed_out_exact [OF ok])
  have "\<exists>s'. CheckTimeOut W Q s = Inr s' \<and> kicked_out kicked s s'" if "\<forall>sid\<in>set kicked. pending s sid"
  proof -
    have "\<forall>sid\<in>set kicked. pending (tick s) sid" using that by (simp add: pending_def)
    from kick_all_pending [OF d this] show ?thesis unfolding c kicked_out_tick .
  qed
  with c d m show ?thesis by blast
qed

text \<open>The only client has been silent for 0 milliseconds when time stands still.\<close>

theorem CheckTimeOut_kicks_witness:
  "\<exists>kicked. CheckTimeOut plain_os (list_queue 4096) one_client = kick_all (list_queue 4096) kicked (tick one_client) \<and> distinct kicked"
  using CheckTimeOut_kicks [OF one_client_reachable one_packet_server_ok(1)] by blast

end
