(* ===== verification/PacketStream.thy ===== *)
theory PacketStream
  imports Login
begin

text \<open>
  The typed stream operators of \<open>CPacket\<close> (CPacket.h): \<open>operator<<\<close> and \<open>operator>>\<close> for eleven types. What is
  streamed in comes out in the same order, and a packet that holds too few bytes leaves the variable alone.
\<close>

section \<open>Values\<close>

text \<open>
  A value of each type with its bits: \<open>char\<close> and BYTE have 8, WCHAR, \<open>short\<close> and WORD 16, \<open>int\<close>, \<open>long\<close>, DWORD and \<open>float\<close>
  32, \<open>__int64\<close> and \<open>double\<close> 64, as on Windows.
\<close>

datatype stream_value =
    V_BYTE "8 word"
  | V_char "8 word"
  | V_WCHAR "16 word"
  | V_short "16 word"
  | V_WORD "16 word"
  | V_int "32 word"
  | V_DWORD "32 word"
  | V_float "32 word"
  | V_long "32 word"
  | V_int64 "64 word"
  | V_double "64 word"

text \<open>The object representation, which \<open>WriteValue\<close> copies.\<close>

fun value_bytes :: "stream_value \<Rightarrow> byte list" where
  "value_bytes (V_BYTE v) = le_bytes 1 (unat v)"
| "value_bytes (V_char v) = le_bytes 1 (unat v)"
| "value_bytes (V_WCHAR v) = le_bytes 2 (unat v)"
| "value_bytes (V_short v) = le_bytes 2 (unat v)"
| "value_bytes (V_WORD v) = le_bytes 2 (unat v)"
| "value_bytes (V_int v) = le_bytes 4 (unat v)"
| "value_bytes (V_DWORD v) = le_bytes 4 (unat v)"
| "value_bytes (V_float v) = le_bytes 4 (unat v)"
| "value_bytes (V_long v) = le_bytes 4 (unat v)"
| "value_bytes (V_int64 v) = le_bytes 8 (unat v)"
| "value_bytes (V_double v) = le_bytes 8 (unat v)"

text \<open>A variable of the type of the first argument that holds these bytes.\<close>

fun value_of :: "stream_value \<Rightarrow> byte list \<Rightarrow> stream_value" where
  "value_of (V_BYTE _) bs = V_BYTE (of_nat (le_value bs))"
| "value_of (V_char _) bs = V_char (of_nat (le_value bs))"
| "value_of (V_WCHAR _) bs = V_WCHAR (of_nat (le_value bs))"
| "value_of (V_short _) bs = V_short (of_nat (le_value bs))"
| "value_of (V_WORD _) bs = V_WORD (of_nat (le_value bs))"
| "value_of (V_int _) bs = V_int (of_nat (le_value bs))"
| "value_of (V_DWORD _) bs = V_DWORD (of_nat (le_value bs))"
| "value_of (V_float _) bs = V_float (of_nat (le_value bs))"
| "value_of (V_long _) bs = V_long (of_nat (le_value bs))"
| "value_of (V_int64 _) bs = V_int64 (of_nat (le_value bs))"
| "value_of (V_double _) bs = V_double (of_nat (le_value bs))"

definition same_type :: "stream_value \<Rightarrow> stream_value \<Rightarrow> bool" where
  "same_type u v \<longleftrightarrow> value_of u [] = value_of v []"

section \<open>The operators\<close>

definition pkt_shl :: "bool \<Rightarrow> stream_value \<Rightarrow> CPacket \<Rightarrow> CPacket res" where
  "pkt_shl alloc_ok v p = pkt_WriteValue alloc_ok (value_bytes v) p"

text \<open>\<open>var\<close> is the variable before; the result is the variable after.\<close>

definition pkt_shr :: "stream_value \<Rightarrow> CPacket \<Rightarrow> (stream_value \<times> CPacket) res" where
  "pkt_shr var p = andThen (pkt_ReadValue (value_bytes var) p) (\<lambda>(bs, p1). Inr (value_of var bs, p1))"

text \<open>\<open>p << v1 << v2 ...\<close> and \<open>p >> x1 >> x2 ...\<close>\<close>

primrec stream_in :: "bool \<Rightarrow> stream_value list \<Rightarrow> CPacket \<Rightarrow> CPacket res" where
  "stream_in alloc_ok [] p = Inr p"
| "stream_in alloc_ok (v # vs) p = andThen (pkt_shl alloc_ok v p) (stream_in alloc_ok vs)"

primrec stream_out :: "stream_value list \<Rightarrow> CPacket \<Rightarrow> (stream_value list \<times> CPacket) res" where
  "stream_out [] p = Inr ([], p)"
| "stream_out (var # vars) p =
     andThen (pkt_shr var p) (\<lambda>(v, p1). andThen (stream_out vars p1) (\<lambda>(vs, p2). Inr (v # vs, p2)))"

section \<open>One value\<close>

definition stream_bytes :: "stream_value list \<Rightarrow> byte list" where
  "stream_bytes vs = concat (map value_bytes vs)"

lemma word_le_bytes: "LENGTH('a) = 8 * n \<Longrightarrow> of_nat (le_value (le_bytes n (unat (v :: 'a::len word)))) = v"
proof -
  assume n: "LENGTH('a) = 8 * n"
  have "unat v < 2 ^ LENGTH('a)" by (rule unsigned_less)
  then have "unat v < 256 ^ n" by (simp add: n power_mult)
  then show ?thesis by (simp add: le_value_le_bytes)
qed

lemma value_of_bytes [simp]: "value_of v (value_bytes v) = v"
  by (cases v) (simp_all add: word_le_bytes del: le_bytes.simps)

lemma same_type_size: "same_type u v \<Longrightarrow> length (value_bytes u) = length (value_bytes v)"
  by (cases u; cases v) (simp_all add: same_type_def)

lemma same_type_value: "same_type u v \<Longrightarrow> value_of u bs = value_of v bs"
  by (cases u; cases v) (simp_all add: same_type_def)

lemma value_bytes_ne: "value_bytes v \<noteq> []"
  by (cases v) (simp_all flip: length_0_conv)

lemma shl_ok:
  "building x xs \<Longrightarrow> length xs + length (value_bytes v) \<le> 507 \<Longrightarrow> \<exists>y. pkt_shl True v x = Inr y \<and> building y (xs @ value_bytes v)"
  unfolding pkt_shl_def using fill_value value_bytes_ne by blast

lemma ReadValue_wf:
  assumes "pkt_wf x" and "pkt_list x = bs @ rest" and "length old = length bs"
  shows "\<exists>y. pkt_ReadValue old x = Inr (bs, y) \<and> pkt_wf y \<and> pkt_list y = rest"
proof -
  have "length bs \<le> length (pkt_list x)" using assms(2) by simp
  note t = payload_take [OF assms(1) this assms(3)]
  have "\<not> pkt_GetDataSize x < int (length bs)" using assms(1,2) by (simp add: pkt_GetDataSize_list)
  with t assms(2,3) show ?thesis by (auto simp: pkt_ReadValue_def Let_def)
qed

lemma shr_ok:
  assumes "pkt_wf x" and "pkt_list x = value_bytes v @ rest" and "same_type var v"
  shows "\<exists>y. pkt_shr var x = Inr (v, y) \<and> pkt_wf y \<and> pkt_list y = rest"
proof -
  from ReadValue_wf [OF assms(1,2), of "value_bytes var"] same_type_size [OF assms(3)] obtain y
    where "pkt_ReadValue (value_bytes var) x = Inr (value_bytes v, y)" "pkt_wf y" "pkt_list y = rest" by auto
  then show ?thesis by (simp add: pkt_shr_def same_type_value [OF assms(3)])
qed

lemma shr_short: "pkt_wf x \<Longrightarrow> length (pkt_list x) < length (value_bytes var) \<Longrightarrow> pkt_shr var x = Inr (var, x)"
  by (simp add: pkt_shr_def pkt_ReadValue_def pkt_GetDataSize_list)

section \<open>Sequences\<close>

lemma stream_bytes_simps [simp]: "stream_bytes [] = []" "stream_bytes (v # vs) = value_bytes v @ stream_bytes vs"
  by (simp_all add: stream_bytes_def)

lemma stream_in_ok:
  "building x xs \<Longrightarrow> length xs + length (stream_bytes vs) \<le> 507 \<Longrightarrow>
    \<exists>y. stream_in True vs x = Inr y \<and> building y (xs @ stream_bytes vs)"
proof (induction vs arbitrary: x xs)
  case (Cons v vs)
  from shl_ok [OF Cons.prems(1), of v] Cons.prems(2) obtain x1
    where "pkt_shl True v x = Inr x1" "building x1 (xs @ value_bytes v)" by auto
  with Cons.IH [of x1 "xs @ value_bytes v"] Cons.prems(2) show ?case by auto
qed auto

lemma stream_out_ok:
  "pkt_wf x \<Longrightarrow> pkt_list x = stream_bytes vs @ rest \<Longrightarrow> list_all2 same_type vars vs \<Longrightarrow>
    \<exists>y. stream_out vars x = Inr (vs, y) \<and> pkt_wf y \<and> pkt_list y = rest"
proof (induction vars arbitrary: x vs)
  case (Cons var vars)
  from Cons.prems(3) obtain v ws where vs: "vs = v # ws" "same_type var v" "list_all2 same_type vars ws"
    by (auto simp: list_all2_Cons1)
  from shr_ok [OF Cons.prems(1), of v _ var] Cons.prems(2) vs obtain x1
    where "pkt_shr var x = Inr (v, x1)" "pkt_wf x1" "pkt_list x1 = stream_bytes ws @ rest" by auto
  with Cons.IH [of x1 ws] vs show ?case by auto
qed auto

text \<open>
  C17. What is streamed into a packet comes out of it. Any values of the eleven types that take at most 507 bytes together
  can be streamed into a packet fresh from the pool, and variables of their types get the same values back in
  their order, whatever they held; the packet is then empty, and one more variable of any type is left alone.
\<close>

theorem stream_roundtrip:
  assumes "building x []" and "length (stream_bytes vs) \<le> 507" and "list_all2 same_type vars vs"
  shows "\<exists>y z. stream_in True vs x = Inr y \<and> pkt_list y = stream_bytes vs \<and> stream_out vars y = Inr (vs, z) \<and>
    pkt_list z = [] \<and> pkt_shr var z = Inr (var, z)"
proof -
  from stream_in_ok [OF assms(1), of vs] assms(2) obtain y where y: "stream_in True vs x = Inr y" "building y (stream_bytes vs)" by auto
  then have "pkt_wf y" "pkt_list y = stream_bytes vs @ []" by (simp_all add: building_def)
  from stream_out_ok [OF this assms(3)] obtain z where z: "stream_out vars y = Inr (vs, z)" "pkt_wf z" "pkt_list z = []" by blast
  have "0 < length (value_bytes var)" using value_bytes_ne by blast
  then have "pkt_shr var z = Inr (var, z)" using z(2,3) by (intro shr_short) simp_all
  with y z show ?thesis by (auto simp: building_def)
qed

theorem stream_roundtrip_witness:
  "\<exists>y z. stream_in True [V_WORD 4660, V_double 77, V_char 200] (pkt_new\<lparr>m_lRefCount := 1\<rparr>) = Inr y \<and>
     stream_out [V_WORD 0, V_double 1, V_char 9] y = Inr ([V_WORD 4660, V_double 77, V_char 200], z) \<and> pkt_shr (V_int 6) z = Inr (V_int 6, z)"
proof -
  have "building (pkt_new\<lparr>m_lRefCount := 1\<rparr>) []"
    by (simp add: building_def pkt_512_def pkt_wf_def pkt_new_def pkt_buf_def pkt_list_def pkt_room_def pkt_consts)
  from stream_roundtrip [OF this, of "[V_WORD 4660, V_double 77, V_char 200]" "[V_WORD 0, V_double 1, V_char 9]" "V_int 6"]
  show ?thesis by (auto simp: same_type_def)
qed

end
