(* ===== verification/RedisDrain.thy ===== *)
theory RedisDrain
  imports Server
begin

text \<open>
  The inner loop of \<open>RedisThread\<close> ends: a job puts nothing into the queue it was taken from, so the loop
  runs once for every job that is waiting.
\<close>

interpretation redis_queue: app_invariant "\<lambda>s :: ('q, 'r, 'd, 'a) chat. redisQ s = r" OnClientLeave for r
proof
  fix s s' :: "('q, 'r, 'd, 'a) chat" and sid
  show "redisQ s' = r" if "redisQ s = r" "IOCPServer.more s' = IOCPServer.more s" using that chat_more(5) [of s' s] by simp
  show "redisQ s' = r" if "redisQ s = r" "OnClientLeave sid s = Inr s'"
    using that by (auto simp: OnClientLeave_def LeaveProc_def ReleasePlayer_def AddRefPlayer_def set_player_def Let_def split: option.splits)
qed

lemma ReleasePlayer_redisQ [simp]: "redisQ (ReleasePlayer p s) = redisQ s"
  by (simp add: ReleasePlayer_def set_player_def Let_def)

lemma set_player_redisQ [simp]: "redisQ (set_player p f s) = redisQ s"
  by (simp add: set_player_def)

lemma AcquirePlayer_redisQ: "AcquirePlayer sid s = (w, s') \<Longrightarrow> redisQ s' = redisQ s"
  by (auto simp: AcquirePlayer_def AddRefPlayer_def set_player_def Let_def split: option.splits if_splits)

lemma CompleteLogin_redisQ:
  fixes s :: "('q, 'r, 'd, 'a) chat"
  assumes r: "CompleteLogin W Q U sid p success s = Inr (ok, s')"
  shows "redisQ s' = redisQ s"
proof (cases "AcquirePlayer sid s")
  case (Pair who s1)
  note acq = AcquirePlayer_redisQ [OF Pair]
  consider "who = None" | pl where "who = Some pl" "p_sessionID (player s1 pl) \<noteq> sid \<or> closing (player s1 pl)"
    | pl where "who = Some pl" "p_sessionID (player s1 pl) = sid" "\<not> closing (player s1 pl)" by (cases who) auto
  then show ?thesis
  proof cases
    case (3 pl)
    have acquired: "AcquirePlayer sid s = (Some pl, s1)" using Pair 3(1) by simp
    obtain ab s2 wid s3 nk s4 i n st s5 res s6 s7 where
      rd: "read_value p (INT64_bytes 0) s1 = Inr (ab, s2)" "get_data p (junk U 40) dfID_LEN s2 = Inr (wid, s3)"
        "get_data p (junk (\<lambda>k. U (k + 40)) 40) dfNiCK_LEN s3 = Inr (nk, s4)"
      and s5: "s5 = s4 \<or> s5 = set_player pl (\<lambda>x. x\<lparr>p_id := i, nick := n\<rparr>) (login_marked sid pl (INT64_of ab) s4) \<and>
        wcscpy_s20 (p_id (player (login_marked sid pl (INT64_of ab) s4) pl)) wid = Inr i \<and>
        wcscpy_s20 (nick (player (login_marked sid pl (INT64_of ab) s4) pl)) nk = Inr n"
      and rest: "Res_Login W (INT64_of ab) st s5 = Inr (res, s6)" "SendUnicast W Q sid res s6 = Inr s7"
      and s': "s' = ReleasePlayer pl (sub_ref res s7)"
      by (rule CompleteLogin_steps [OF r acquired 3(2,3)])
    have "redisQ s5 = redisQ s4" using s5 by (auto simp: login_marked_def)
    have "redisQ s4 = redisQ s1" using rd redis_queue.I_read_value redis_queue.I_get_data by metis
    moreover have "redisQ s7 = redisQ s5"
      using rest redis_queue.I_Res_Login redis_queue.I_SendPacket unfolding SendUnicast_def by metis
    ultimately show ?thesis using acq \<open>redisQ s5 = redisQ s4\<close> by (simp add: s' sub_ref_def)
  qed (use r Pair acq in \<open>auto simp: CompleteLogin_def split: if_splits\<close>)
qed

lemma redis_job_redisQ:
  fixes s :: "('q, 'r, 'd, 'a) chat"
  assumes "redis_job W Q R U job s = Inr s'"
  shows "redisQ s' = redisQ s"
proof -
  obtain sid p where job: "job = (sid, p)" by (cases job)
  from assms obtain ab s1 wid s2 nk s3 ck s4 db ok res s6 b s7 where
    rd: "read_value p (INT64_bytes 0) s = Inr (ab, s1)" "get_data p (replicate 40 0) dfID_LEN s1 = Inr (wid, s2)"
      "get_data p (replicate 40 0) dfNiCK_LEN s2 = Inr (nk, s3)" "get_data p (replicate 64 0) dfSESSIONKEY_LEN s3 = Inr (ck, s4)"
    and rest: "MakeLoginResult W (INT64_of ab) wid nk (s4\<lparr>redis := db\<rparr>) = Inr (res, s6)"
      "CompleteLogin W Q U sid res ok s6 = Inr (b, s7)" and s': "s' = sub_ref p (sub_ref res s7)"
    by (auto simp: redis_job_def job andThen_eq_Inr Let_def)
  have "redisQ s4 = redisQ s" using rd redis_queue.I_read_value redis_queue.I_get_data by metis
  moreover have "redisQ s6 = redisQ (s4\<lparr>redis := db\<rparr>)" using rest(1) redis_queue.I_MakeLoginResult by metis
  moreover have "redisQ s7 = redisQ s6" using rest(2) by (rule CompleteLogin_redisQ)
  ultimately show ?thesis by (simp add: s' sub_ref_def)
qed

text \<open>The jobs that are waiting, one after the other.\<close>

fun redis_jobs ::
  "os \<Rightarrow> (nat, 'q) queue_ops \<Rightarrow> (st_Redis, 'r) queue_ops \<Rightarrow> 'd redis_ops \<Rightarrow> (nat \<Rightarrow> byte) \<Rightarrow> st_Redis list \<Rightarrow>
   ('q, 'r, 'd, 'a) chat \<Rightarrow> ('q, 'r, 'd, 'a) chat res" where
  "redis_jobs W Q J R U [] s = Inr s"
| "redis_jobs W Q J R U (job # jobs) s =
     (case q_pop J (redisQ s) of None \<Rightarrow> Inr s
      | Some (_, q) \<Rightarrow> andThen (redis_job W Q R U job (s\<lparr>redisQ := q\<rparr>)) (redis_jobs W Q J R U jobs))"

lemma redis_loop_jobs:
  assumes J: "queue_laws capJ contentJ J"
  shows "contentJ (redisQ s) = jobs \<Longrightarrow>
    redis_loop W Q J R U s = Some (redis_jobs W Q J R U jobs s) \<and>
    (\<forall>s'. redis_jobs W Q J R U jobs s = Inr s' \<longrightarrow> contentJ (redisQ s') = [])"
proof (induction jobs arbitrary: s)
  case Nil
  then show ?case using queue_pop_Nil [OF J Nil] by (subst redis_loop.simps) simp
next
  case (Cons job jobs)
  from queue_pop_Cons [OF J Cons.prems] obtain q where q: "q_pop J (redisQ s) = Some (job, q)" "contentJ q = jobs" by blast
  show ?case
  proof (cases "redis_job W Q R U job (s\<lparr>redisQ := q\<rparr>)")
    case (Inl e)
    with q show ?thesis by (subst redis_loop.simps) simp
  next
    case (Inr s1)
    with redis_job_redisQ [OF Inr] q(2) have "contentJ (redisQ s1) = jobs" by simp
    from Cons.IH [OF this] q Inr show ?thesis by (subst redis_loop.simps) simp
  qed
qed

text \<open>
  C23. The Redis thread does not hang in a burst of logins. Its inner loop always ends: it handles the
  jobs that were waiting, each once and in their order, and when no job faults it leaves the queue empty.
\<close>

theorem redis_loop_ends:
  assumes "queue_laws capJ contentJ J"
  shows "redis_loop W Q J R U s = Some (redis_jobs W Q J R U (contentJ (redisQ s)) s) \<and>
    (\<forall>s'. redis_loop W Q J R U s = Some (Inr s') \<longrightarrow> contentJ (redisQ s') = [])"
  using redis_loop_jobs [OF assms refl, where W = W and Q = Q and R = R and U = U and s = s] by auto

theorem redis_loop_ends_witness:
  "redis_loop plain_os (list_queue 4096) (list_queue 65534) \<lparr>r_set = (\<lambda>k v d. d), r_get = (\<lambda>k d. None)\<rparr> (\<lambda>_. 0) one_client =
     Some (redis_jobs plain_os (list_queue 4096) (list_queue 65534) \<lparr>r_set = (\<lambda>k v d. d), r_get = (\<lambda>k d. None)\<rparr> (\<lambda>_. 0)
       (redisQ one_client) one_client)"
  using redis_loop_ends [OF queue_laws_list [of 65534], of plain_os "list_queue 4096" "\<lparr>r_set = (\<lambda>k v d. d), r_get = (\<lambda>k d. None)\<rparr>" "\<lambda>_. 0" one_client]
  by blast

end
