(* ===== verification/RedisEvent.thy ===== *)
theory RedisEvent
  imports RedisDrain "HOL-Library.Sublist"
begin

text \<open>
  How \<open>RedisThread\<close> sleeps and wakes (ChatServer.cpp): the threads that enqueue a login and set
  \<open>redis_event\<close>, the thread that waits for the event and empties the queue, and the destructor that
  sets \<open>exit\<close>. A step is one of: a push, \<open>SetEvent\<close>, a look at \<open>exit\<close>, the end of a wait, a pop with the
  job it gives, a write of \<open>exit\<close>. No login is left waiting for an event that never comes.
\<close>

section \<open>The threads\<close>

text \<open>Where \<open>RedisThread\<close> is: at the head of its loop, in the wait, at the look at \<open>exit\<close> after it, at the pop.\<close>

datatype redis_pc = AtHead | AtWait | AtLook | AtPop | Ended | Faulted

datatype stop_pc = NotStopped | ExitSet | EventSet

text \<open>
  \<open>rw_setting\<close>: the threads between the push of \<open>EnqueueRedis\<close> and its \<open>SetEvent\<close>. \<open>rw_accepted\<close>: the jobs
  the queue took, \<open>rw_taken\<close>: the jobs popped from it, both in order.
\<close>

record 'n redis_world =
  rw_event :: bool
  rw_exit :: bool
  rw_thread :: redis_pc
  rw_stop :: stop_pc
  rw_setting :: "nat set"
  rw_accepted :: "st_Redis list"
  rw_taken :: "st_Redis list"
  rw_server :: 'n

text \<open>\<open>Handlers s\<close> is what the rest of the server does meanwhile, which does not touch the queue.\<close>

datatype 'n redis_move =
    Enqueue nat UINT64 nat
  | Signal nat
  | RedisTurn
  | SetExit
  | SignalExit
  | Handlers 'n

definition redis_access ::
  "os \<Rightarrow> (nat, 'q) queue_ops \<Rightarrow> (st_Redis, 'r) queue_ops \<Rightarrow> 'd redis_ops \<Rightarrow> (nat \<Rightarrow> byte) \<Rightarrow>
   ('q, 'r, 'd, 'a) chat redis_world \<Rightarrow> ('q, 'r, 'd, 'a) chat redis_world option" where
  "redis_access W Q J R U w =
     (case rw_thread w of
        AtHead \<Rightarrow> Some (w\<lparr>rw_thread := (if rw_exit w then Ended else AtWait)\<rparr>)
      | AtWait \<Rightarrow> (if rw_event w then Some (w\<lparr>rw_event := False, rw_thread := AtLook\<rparr>) else None)
      | AtLook \<Rightarrow> Some (w\<lparr>rw_thread := (if rw_exit w then Ended else AtPop)\<rparr>)
      | AtPop \<Rightarrow>
          (case q_pop J (redisQ (rw_server w)) of
             None \<Rightarrow> Some (w\<lparr>rw_thread := AtHead\<rparr>)
           | Some (job, q) \<Rightarrow>
               (case redis_job W Q R U job ((rw_server w)\<lparr>redisQ := q\<rparr>) of
                  Inl e \<Rightarrow> Some (w\<lparr>rw_thread := Faulted, rw_taken := rw_taken w @ [job], rw_server := (rw_server w)\<lparr>redisQ := q\<rparr>\<rparr>)
                | Inr s \<Rightarrow> Some (w\<lparr>rw_taken := rw_taken w @ [job], rw_server := s\<rparr>)))
      | Ended \<Rightarrow> None
      | Faulted \<Rightarrow> None)"

text \<open>\<open>EnqueueRedis\<close>: the push, then \<open>SetEvent\<close>.\<close>

definition enqueue_access ::
  "(st_Redis, 'r) queue_ops \<Rightarrow> nat \<Rightarrow> UINT64 \<Rightarrow> nat \<Rightarrow> ('q, 'r, 'd, 'a) chat redis_world \<Rightarrow> ('q, 'r, 'd, 'a) chat redis_world option" where
  "enqueue_access J t sid p w =
     (if t \<in> rw_setting w then None
      else Some (w\<lparr>rw_setting := insert t (rw_setting w),
                   rw_accepted := (if snd (q_push J (sid, p) (redisQ (rw_server w))) then rw_accepted w @ [(sid, p)] else rw_accepted w),
                   rw_server := EnqueueRedis J sid p (rw_server w)\<rparr>))"

definition signal_access :: "nat \<Rightarrow> 'n redis_world \<Rightarrow> 'n redis_world option" where
  "signal_access t w =
     (if t \<in> rw_setting w then Some (w\<lparr>rw_event := True, rw_setting := rw_setting w - {t}\<rparr>) else None)"

text \<open>The destructor, up to its wait for the thread.\<close>

definition exit_access :: "stop_pc \<Rightarrow> 'n redis_world \<Rightarrow> 'n redis_world option" where
  "exit_access pc w =
     (if rw_stop w \<noteq> pc then None
      else case pc of
             NotStopped \<Rightarrow> Some (w\<lparr>rw_exit := True, rw_stop := ExitSet\<rparr>)
           | ExitSet \<Rightarrow> Some (w\<lparr>rw_event := True, rw_stop := EventSet\<rparr>)
           | EventSet \<Rightarrow> None)"

definition redis_world_step ::
  "os \<Rightarrow> (nat, 'q) queue_ops \<Rightarrow> (st_Redis, 'r) queue_ops \<Rightarrow> 'd redis_ops \<Rightarrow> (nat \<Rightarrow> byte) \<Rightarrow>
   ('q, 'r, 'd, 'a) chat redis_move \<Rightarrow> ('q, 'r, 'd, 'a) chat redis_world \<Rightarrow> ('q, 'r, 'd, 'a) chat redis_world option" where
  "redis_world_step W Q J R U m w =
     (case m of
        Enqueue t sid p \<Rightarrow> enqueue_access J t sid p w
      | Signal t \<Rightarrow> signal_access t w
      | RedisTurn \<Rightarrow> redis_access W Q J R U w
      | SetExit \<Rightarrow> exit_access NotStopped w
      | SignalExit \<Rightarrow> exit_access ExitSet w
      | Handlers s \<Rightarrow> Some (w\<lparr>rw_server := s\<lparr>redisQ := redisQ (rw_server w)\<rparr>\<rparr>))"

text \<open>A run, which stops (\<open>None\<close>) at a move that cannot be made.\<close>

primrec redis_world_run ::
  "os \<Rightarrow> (nat, 'q) queue_ops \<Rightarrow> (st_Redis, 'r) queue_ops \<Rightarrow> 'd redis_ops \<Rightarrow> (nat \<Rightarrow> byte) \<Rightarrow>
   ('q, 'r, 'd, 'a) chat redis_move list \<Rightarrow> ('q, 'r, 'd, 'a) chat redis_world \<Rightarrow> ('q, 'r, 'd, 'a) chat redis_world option" where
  "redis_world_run W Q J R U [] w = Some w"
| "redis_world_run W Q J R U (m # ms) w =
     (case redis_world_step W Q J R U m w of None \<Rightarrow> None | Some w1 \<Rightarrow> redis_world_run W Q J R U ms w1)"

text \<open>The thread has just been started.\<close>

definition redis_started :: "'n \<Rightarrow> 'n redis_world" where
  "redis_started s = \<lparr>rw_event = False, rw_exit = False, rw_thread = AtHead, rw_stop = NotStopped, rw_setting = {},
     rw_accepted = [], rw_taken = [], rw_server = s\<rparr>"

definition redis_turns :: "'n redis_move list \<Rightarrow> nat" where
  "redis_turns ms = length (filter (\<lambda>m. m = RedisTurn) ms)"

definition enqueues :: "'n redis_move list \<Rightarrow> nat" where
  "enqueues ms = length (filter (\<lambda>m. \<exists>t sid p. m = Enqueue t sid p) ms)"

lemma redis_turns_simps [simp]: "redis_turns [] = 0" "redis_turns (m # ms) = (if m = RedisTurn then 1 else 0) + redis_turns ms"
  by (simp_all add: redis_turns_def)

lemma enqueues_simps [simp]: "enqueues [] = 0" "enqueues (Enqueue t sid p # ms) = 1 + enqueues ms"
  "enqueues (Signal t # ms) = enqueues ms" "enqueues (RedisTurn # ms) = enqueues ms" "enqueues (SetExit # ms) = enqueues ms"
  "enqueues (SignalExit # ms) = enqueues ms" "enqueues (Handlers s # ms) = enqueues ms"
  by (simp_all add: enqueues_def)

section \<open>The invariant\<close>

text \<open>
  A job is in the queue only while a signal is on its way: the event is set, a thread is about to set it, or
  the thread has taken the event and not yet found the queue empty.
\<close>

definition redis_awake :: "('r \<Rightarrow> st_Redis list) \<Rightarrow> ('q, 'r, 'd, 'a) chat redis_world \<Rightarrow> bool" where
  "redis_awake content w \<longleftrightarrow>
     rw_accepted w = rw_taken w @ content (redisQ (rw_server w)) \<and>
     (content (redisQ (rw_server w)) \<noteq> [] \<longrightarrow> rw_event w \<or> rw_setting w \<noteq> {} \<or> rw_thread w \<notin> {AtHead, AtWait}) \<and>
     (rw_exit w \<longleftrightarrow> rw_stop w \<noteq> NotStopped) \<and>
     (rw_thread w = Ended \<longrightarrow> rw_exit w) \<and>
     (rw_stop w = EventSet \<and> rw_thread w = AtWait \<longrightarrow> rw_event w)"

lemma EnqueueRedis_content:
  assumes "queue_laws cap content J"
  shows "content (redisQ (EnqueueRedis J sid p s)) =
    (if snd (q_push J (sid, p) (redisQ s)) then content (redisQ s) @ [(sid, p)] else content (redisQ s))"
  using assms by (simp add: EnqueueRedis_def queue_laws_def)

lemma redis_pop_cases:
  assumes J: "queue_laws cap content J" and pc: "rw_thread w = AtPop" and r: "redis_access W Q J R U w = Some w'"
  obtains (empty) "content (redisQ (rw_server w)) = []" "w' = w\<lparr>rw_thread := AtHead\<rparr>"
  | (job) job jobs s where "content (redisQ (rw_server w)) = job # jobs" "content (redisQ s) = jobs"
      "w' = w\<lparr>rw_taken := rw_taken w @ [job], rw_server := s\<rparr> \<or>
       w' = w\<lparr>rw_thread := Faulted, rw_taken := rw_taken w @ [job], rw_server := s\<rparr>"
proof (cases "content (redisQ (rw_server w))")
  case Nil
  with queue_pop_Nil [OF J Nil] pc r empty show thesis by (simp add: redis_access_def)
next
  case (Cons x xs)
  from queue_pop_Cons [OF J Cons] obtain q where q: "q_pop J (redisQ (rw_server w)) = Some (x, q)" "content q = xs" by blast
  show thesis
  proof (cases "redis_job W Q R U x ((rw_server w)\<lparr>redisQ := q\<rparr>)")
    case (Inl e)
    with q pc r have "w' = w\<lparr>rw_thread := Faulted, rw_taken := rw_taken w @ [x], rw_server := (rw_server w)\<lparr>redisQ := q\<rparr>\<rparr>"
      by (simp add: redis_access_def)
    with q Cons show thesis by (intro job [of x xs "(rw_server w)\<lparr>redisQ := q\<rparr>"]) simp_all
  next
    case (Inr s)
    with q pc r have "w' = w\<lparr>rw_taken := rw_taken w @ [x], rw_server := s\<rparr>" by (simp add: redis_access_def)
    moreover have "redisQ s = q" using redis_job_redisQ [OF Inr] by simp
    ultimately show thesis using q Cons by (intro job [of x xs s]) simp_all
  qed
qed

lemma redis_access_awake:
  assumes J: "queue_laws cap content J" and inv: "redis_awake content w" and r: "redis_access W Q J R U w = Some w'"
  shows "redis_awake content w'"
proof (cases "rw_thread w")
  case AtPop
  from J AtPop r show ?thesis
  proof (cases rule: redis_pop_cases)
    case empty
    with inv show ?thesis by (simp add: redis_awake_def)
  next
    case (job job jobs s)
    from job(3) show ?thesis
      by (rule disjE) (use inv AtPop job(1,2) in \<open>simp_all add: redis_awake_def\<close>)
  qed
next
  case AtHead
  with r have "w' = w\<lparr>rw_thread := (if rw_exit w then Ended else AtWait)\<rparr>" by (simp add: redis_access_def)
  with inv AtHead show ?thesis by (cases "rw_exit w") (auto simp: redis_awake_def)
next
  case AtWait
  with r have "rw_event w" "w' = w\<lparr>rw_event := False, rw_thread := AtLook\<rparr>" by (simp_all add: redis_access_def split: if_splits)
  with inv AtWait show ?thesis by (simp add: redis_awake_def)
next
  case AtLook
  with r have "w' = w\<lparr>rw_thread := (if rw_exit w then Ended else AtPop)\<rparr>" by (simp add: redis_access_def)
  with inv AtLook show ?thesis by (cases "rw_exit w") (simp_all add: redis_awake_def)
qed (use r in \<open>simp_all add: redis_access_def\<close>)

lemma redis_world_step_awake:
  assumes J: "queue_laws cap content J" and inv: "redis_awake content w" and r: "redis_world_step W Q J R U m w = Some w'"
  shows "redis_awake content w'"
proof (cases m)
  case (Enqueue t sid p)
  with r have "w' = w\<lparr>rw_setting := insert t (rw_setting w),
      rw_accepted := (if snd (q_push J (sid, p) (redisQ (rw_server w))) then rw_accepted w @ [(sid, p)] else rw_accepted w),
      rw_server := EnqueueRedis J sid p (rw_server w)\<rparr>"
    by (simp add: redis_world_step_def enqueue_access_def split: if_splits)
  with inv show ?thesis by (simp add: redis_awake_def EnqueueRedis_content [OF J]) blast
next
  case (Signal t)
  with r have "w' = w\<lparr>rw_event := True, rw_setting := rw_setting w - {t}\<rparr>"
    by (simp add: redis_world_step_def signal_access_def split: if_splits)
  with inv show ?thesis by (simp add: redis_awake_def) blast
next
  case RedisTurn
  with r redis_access_awake [OF J inv] show ?thesis by (simp add: redis_world_step_def)
next
  case SetExit
  with r have "rw_stop w = NotStopped" "w' = w\<lparr>rw_exit := True, rw_stop := ExitSet\<rparr>"
    by (simp_all add: redis_world_step_def exit_access_def split: if_splits)
  with inv show ?thesis by (simp add: redis_awake_def)
next
  case SignalExit
  with r have "rw_stop w = ExitSet" "w' = w\<lparr>rw_event := True, rw_stop := EventSet\<rparr>"
    by (simp_all add: redis_world_step_def exit_access_def split: if_splits)
  with inv show ?thesis by (simp add: redis_awake_def)
next
  case (Handlers s)
  with r have "w' = w\<lparr>rw_server := s\<lparr>redisQ := redisQ (rw_server w)\<rparr>\<rparr>" by (simp add: redis_world_step_def)
  with inv show ?thesis by (simp add: redis_awake_def) blast
qed

lemma redis_world_run_awake:
  assumes J: "queue_laws cap content J"
  shows "redis_awake content w \<Longrightarrow> redis_world_run W Q J R U ms w = Some w' \<Longrightarrow> redis_awake content w'"
proof (induction ms arbitrary: w)
  case (Cons m ms)
  from Cons.prems(2) obtain w1 where "redis_world_step W Q J R U m w = Some w1" "redis_world_run W Q J R U ms w1 = Some w'"
    by (auto split: option.splits)
  with Cons.IH redis_world_step_awake [OF J Cons.prems(1)] show ?case by blast
qed simp

lemma redis_started_awake: "content (redisQ s) = [] \<Longrightarrow> redis_awake content (redis_started s)"
  by (simp add: redis_awake_def redis_started_def)

lemma redis_access_exit:
  assumes "redis_access W Q J R U w = Some w'"
  shows "rw_exit w' = rw_exit w"
proof (cases "rw_thread w")
  case AtPop
  with assms show ?thesis by (auto simp: redis_access_def split: option.splits sum.splits)
qed (use assms in \<open>auto simp: redis_access_def split: if_splits\<close>)

lemma exit_stays: "rw_exit w \<Longrightarrow> redis_world_step W Q J R U m w = Some w' \<Longrightarrow> rw_exit w'"
  by (cases m)
    (auto simp: redis_world_step_def enqueue_access_def signal_access_def exit_access_def redis_access_exit
      split: if_splits stop_pc.splits)

lemma exit_stays_run: "redis_world_run W Q J R U ms w = Some w' \<Longrightarrow> rw_exit w \<Longrightarrow> rw_exit w'"
  by (induction ms arbitrary: w) (auto split: option.splits dest: exit_stays)

lemma faulted_stays: "redis_world_step W Q J R U m w = Some w' \<Longrightarrow> rw_thread w = Faulted \<Longrightarrow> rw_thread w' = Faulted"
  by (cases m)
    (auto simp: redis_world_step_def enqueue_access_def signal_access_def exit_access_def redis_access_def
      split: if_splits stop_pc.splits)

lemma faulted_stays_run: "redis_world_run W Q J R U ms w = Some w' \<Longrightarrow> rw_thread w = Faulted \<Longrightarrow> rw_thread w' = Faulted"
  by (induction ms arbitrary: w) (auto split: option.splits dest: faulted_stays)

section \<open>How long a job waits\<close>

text \<open>The turns of the thread until the first \<open>n\<close> jobs of the queue are taken.\<close>

definition wait_turns :: "redis_pc \<Rightarrow> nat \<Rightarrow> nat" where
  "wait_turns pc n = (if n = 0 then 0 else n + (case pc of AtHead \<Rightarrow> 3 | AtWait \<Rightarrow> 2 | AtLook \<Rightarrow> 1 | _ \<Rightarrow> 0))"

lemma wait_turns_le: "wait_turns pc n \<le> n + 3"
  by (simp add: wait_turns_def split: redis_pc.splits)

text \<open>A job stays in its place until it is taken.\<close>

definition ahead :: "('r \<Rightarrow> st_Redis list) \<Rightarrow> st_Redis list \<Rightarrow> ('q, 'r, 'd, 'a) chat redis_world \<Rightarrow> bool" where
  "ahead content jobs w \<longleftrightarrow> prefix jobs (rw_taken w @ content (redisQ (rw_server w)))"

definition missing :: "st_Redis list \<Rightarrow> 'n redis_world \<Rightarrow> nat" where
  "missing jobs w = length jobs - length (rw_taken w)"

lemma redis_access_ahead:
  assumes J: "queue_laws cap content J" and a: "ahead content jobs w" and r: "redis_access W Q J R U w = Some w'"
    and go: "\<not> rw_exit w" "rw_thread w' \<noteq> Faulted"
  shows "ahead content jobs w' \<and> Suc (wait_turns (rw_thread w') (missing jobs w')) \<le> max 1 (wait_turns (rw_thread w) (missing jobs w))"
proof (cases "rw_thread w")
  case AtPop
  from J AtPop r show ?thesis
  proof (cases rule: redis_pop_cases)
    case empty
    with a have "missing jobs w = 0" by (auto simp: ahead_def missing_def dest: prefix_length_le)
    with empty a show ?thesis by (simp add: ahead_def missing_def wait_turns_def)
  next
    case (job job jobs1 s)
    then have w': "w' = w\<lparr>rw_taken := rw_taken w @ [job], rw_server := s\<rparr>" using go(2) by auto
    show ?thesis using a job(1,2) AtPop by (auto simp: w' ahead_def missing_def wait_turns_def)
  qed
qed (use a r go(1) in \<open>auto simp: redis_access_def ahead_def missing_def wait_turns_def split: if_splits\<close>)

lemma ahead_steps:
  assumes J: "queue_laws cap content J" and a: "ahead content jobs w" and r: "redis_world_step W Q J R U m w = Some w'"
    and m: "m \<noteq> RedisTurn"
  shows "ahead content jobs w' \<and> rw_thread w' = rw_thread w \<and> missing jobs w' = missing jobs w"
proof (cases m)
  case (Enqueue t sid p)
  with r have w': "w' = w\<lparr>rw_setting := insert t (rw_setting w),
      rw_accepted := (if snd (q_push J (sid, p) (redisQ (rw_server w))) then rw_accepted w @ [(sid, p)] else rw_accepted w),
      rw_server := EnqueueRedis J sid p (rw_server w)\<rparr>"
    by (simp add: redis_world_step_def enqueue_access_def split: if_splits)
  from a have "prefix jobs ((rw_taken w @ content (redisQ (rw_server w))) @ [(sid, p)])"
    unfolding ahead_def by (rule prefix_prefix)
  with a show ?thesis by (simp add: w' ahead_def missing_def EnqueueRedis_content [OF J])
qed (use a r m in \<open>auto simp: redis_world_step_def signal_access_def exit_access_def ahead_def missing_def
      split: if_splits stop_pc.splits\<close>)

lemma wait_bounded:
  assumes J: "queue_laws cap content J"
  shows "ahead content jobs w \<Longrightarrow> redis_world_run W Q J R U ms w = Some w' \<Longrightarrow> \<not> rw_exit w' \<Longrightarrow> rw_thread w' \<noteq> Faulted \<Longrightarrow>
    wait_turns (rw_thread w) (missing jobs w) \<le> redis_turns ms \<Longrightarrow> ahead content jobs w' \<and> missing jobs w' = 0"
proof (induction ms arbitrary: w)
  case Nil
  then show ?case by (auto simp: wait_turns_def split: if_splits)
next
  case (Cons m ms)
  from Cons.prems(2) obtain w1 where s: "redis_world_step W Q J R U m w = Some w1" "redis_world_run W Q J R U ms w1 = Some w'"
    by (auto split: option.splits)
  note alive = exit_stays_run [OF s(2)] faulted_stays_run [OF s(2)]
  show ?case
  proof (cases "m = RedisTurn")
    case True
    then have r: "redis_access W Q J R U w = Some w1" using s(1) by (simp add: redis_world_step_def)
    have "\<not> rw_exit w" "rw_thread w1 \<noteq> Faulted" using alive redis_access_exit [OF r] Cons.prems(3,4) by auto
    from redis_access_ahead [OF J Cons.prems(1) r this] Cons.prems(5) True Cons.IH [OF _ s(2) Cons.prems(3,4)]
    show ?thesis by auto
  next
    case False
    from ahead_steps [OF J Cons.prems(1) s(1) False] Cons.prems(5) False Cons.IH [OF _ s(2) Cons.prems(3,4)]
    show ?thesis by simp
  qed
qed

text \<open>
  C14. No login waits for an event that never comes. Over every interleaving of threads that enqueue logins and set
  the event with the Redis thread and the destructor: the thread takes the jobs the queue accepted, each once and in
  their order; before the server stops it sleeps only when it has taken all of them or a thread is just about
  to set the event; and after as many of its turns as jobs are waiting, and three, all of these are taken,
  whatever else happens, unless the server stops or a job faults.
\<close>

theorem redis_thread_wakes:
  assumes J: "queue_laws cap content J" and "content (redisQ s) = []"
    and "redis_world_run W Q J R U ms (redis_started s) = Some w"
  shows "rw_accepted w = rw_taken w @ content (redisQ (rw_server w)) \<and>
    (redis_access W Q J R U w = None \<and> \<not> rw_exit w \<and> rw_thread w \<noteq> Faulted \<longrightarrow>
       rw_taken w = rw_accepted w \<or> rw_setting w \<noteq> {}) \<and>
    (\<forall>ms1 w1. redis_world_run W Q J R U ms1 w = Some w1 \<and> \<not> rw_exit w1 \<and> rw_thread w1 \<noteq> Faulted \<and>
       length (content (redisQ (rw_server w))) + 3 \<le> redis_turns ms1 \<longrightarrow> prefix (rw_accepted w) (rw_taken w1))"
proof (intro conjI allI impI; (elim conjE)?)
  have inv: "redis_awake content w" using redis_world_run_awake [OF J redis_started_awake assms(3)] assms(2) by simp
  then show acc: "rw_accepted w = rw_taken w @ content (redisQ (rw_server w))" by (simp add: redis_awake_def)
  show "rw_taken w = rw_accepted w \<or> rw_setting w \<noteq> {}"
    if "redis_access W Q J R U w = None" "\<not> rw_exit w" "rw_thread w \<noteq> Faulted"
    using that inv by (cases "rw_thread w") (auto simp: redis_awake_def redis_access_def split: if_splits option.splits sum.splits)
  fix ms1 w1
  assume run: "redis_world_run W Q J R U ms1 w = Some w1" "\<not> rw_exit w1" "rw_thread w1 \<noteq> Faulted"
    and turns: "length (content (redisQ (rw_server w))) + 3 \<le> redis_turns ms1"
  have a: "ahead content (rw_accepted w) w" "missing (rw_accepted w) w = length (content (redisQ (rw_server w)))"
    by (simp_all add: ahead_def missing_def acc)
  with turns have "wait_turns (rw_thread w) (missing (rw_accepted w) w) \<le> redis_turns ms1"
    using wait_turns_le [of "rw_thread w"] le_trans by metis
  from wait_bounded [OF J a(1) run this] show "prefix (rw_accepted w) (rw_taken w1)"
    by (auto simp: ahead_def missing_def prefix_append dest: prefix_length_prefix)
qed

text \<open>A login is enqueued while the thread sleeps; the event wakes it and it is at the pop.\<close>

theorem redis_thread_wakes_witness:
  "\<exists>w. redis_world_run plain_os (list_queue 4096) (list_queue 65534) \<lparr>r_set = (\<lambda>k v d. d), r_get = (\<lambda>k d. None)\<rparr> (\<lambda>_. 0)
       [RedisTurn, Enqueue 3 5 7, Signal 3, RedisTurn, RedisTurn] (redis_started empty_server) = Some w \<and>
     rw_thread w = AtPop \<and> rw_accepted w = rw_taken w @ redisQ (rw_server w) \<and> rw_accepted w = [(5, 7)]"
proof -
  have q: "redisQ empty_server = []" by (simp add: empty_server_def)
  then obtain w where run: "redis_world_run plain_os (list_queue 4096) (list_queue 65534)
      \<lparr>r_set = (\<lambda>k v d. d), r_get = (\<lambda>k d. None)\<rparr> (\<lambda>_. 0)
      [RedisTurn, Enqueue 3 5 7, Signal 3, RedisTurn, RedisTurn] (redis_started empty_server) = Some w"
    "rw_thread w = AtPop" "rw_accepted w = [(5, 7)]"
    by (simp add: redis_started_def redis_world_step_def enqueue_access_def signal_access_def redis_access_def list_queue_def)
  from redis_thread_wakes [OF queue_laws_list [of 65534] q run(1)] run show ?thesis by simp
qed

section \<open>Stopping\<close>

text \<open>The turns the thread can still make once \<open>exit\<close> is set.\<close>

definition end_turns :: "redis_pc \<Rightarrow> nat \<Rightarrow> nat" where
  "end_turns pc n = (case pc of AtHead \<Rightarrow> 1 | AtWait \<Rightarrow> 2 | AtLook \<Rightarrow> 1 | AtPop \<Rightarrow> n + 2 | Ended \<Rightarrow> 0 | Faulted \<Rightarrow> 0)"

lemma end_turns_le: "end_turns pc n \<le> n + 2"
  by (simp add: end_turns_def split: redis_pc.splits)

lemma redis_access_ends:
  assumes J: "queue_laws cap content J" and r: "redis_access W Q J R U w = Some w'" and x: "rw_exit w"
  shows "Suc (end_turns (rw_thread w') (length (content (redisQ (rw_server w'))))) \<le>
    end_turns (rw_thread w) (length (content (redisQ (rw_server w))))"
proof (cases "rw_thread w")
  case AtPop
  from J AtPop r show ?thesis
  proof (cases rule: redis_pop_cases)
    case (job job jobs s)
    from job(3) show ?thesis by (rule disjE) (use job(1,2) AtPop in \<open>simp_all add: end_turns_def\<close>)
  qed (use AtPop in \<open>simp add: end_turns_def\<close>)
qed (use r x in \<open>auto simp: redis_access_def end_turns_def split: if_splits\<close>)

lemma other_steps_end:
  assumes J: "queue_laws cap content J" and r: "redis_world_step W Q J R U m w = Some w'" and "m \<noteq> RedisTurn"
  shows "end_turns (rw_thread w') (length (content (redisQ (rw_server w')))) \<le>
    end_turns (rw_thread w) (length (content (redisQ (rw_server w)))) + enqueues [m]"
proof (cases m)
  case (Enqueue t sid p)
  with r have "rw_thread w' = rw_thread w" "rw_server w' = EnqueueRedis J sid p (rw_server w)"
    by (auto simp: redis_world_step_def enqueue_access_def split: if_splits)
  with Enqueue show ?thesis by (simp add: EnqueueRedis_content [OF J] end_turns_def split: redis_pc.splits)
qed (use assms in \<open>auto simp: redis_world_step_def signal_access_def exit_access_def split: if_splits stop_pc.splits\<close>)

lemma enqueues_Cons: "enqueues (m # ms) = enqueues [m] + enqueues ms"
  by (simp add: enqueues_def)

lemma run_ends:
  assumes J: "queue_laws cap content J"
  shows "redis_world_run W Q J R U ms w = Some w' \<Longrightarrow> rw_exit w \<Longrightarrow>
    redis_turns ms \<le> end_turns (rw_thread w) (length (content (redisQ (rw_server w)))) + enqueues ms"
proof (induction ms arbitrary: w)
  case (Cons m ms)
  from Cons.prems(1) obtain w1 where s: "redis_world_step W Q J R U m w = Some w1" "redis_world_run W Q J R U ms w1 = Some w'"
    by (auto split: option.splits)
  note ih = Cons.IH [OF s(2) exit_stays [OF Cons.prems(2) s(1)]]
  show ?case
  proof (cases "m = RedisTurn")
    case True
    then have "redis_access W Q J R U w = Some w1" using s(1) by (simp add: redis_world_step_def)
    from redis_access_ends [OF J this Cons.prems(2)] ih True show ?thesis by simp
  next
    case False
    from other_steps_end [OF J s(1) False] ih False show ?thesis by (subst enqueues_Cons) simp
  qed
qed simp

lemma event_set_stays: "redis_world_step W Q J R U m w = Some w' \<Longrightarrow> rw_stop w = EventSet \<Longrightarrow> rw_stop w' = EventSet"
proof (cases m)
  case RedisTurn
  assume "redis_world_step W Q J R U m w = Some w'" "rw_stop w = EventSet"
  with RedisTurn show ?thesis
    by (cases "rw_thread w") (auto simp: redis_world_step_def redis_access_def split: if_splits option.splits sum.splits)
qed (auto simp: redis_world_step_def enqueue_access_def signal_access_def exit_access_def split: if_splits stop_pc.splits)

lemma event_set_stays_run: "redis_world_run W Q J R U ms w = Some w' \<Longrightarrow> rw_stop w = EventSet \<Longrightarrow> rw_stop w' = EventSet"
  by (induction ms arbitrary: w) (auto split: option.splits dest: event_set_stays)

text \<open>The server stops between the end of a wait and the look at \<open>exit\<close>.\<close>

definition late_exit :: "UINT64 \<Rightarrow> nat \<Rightarrow> 'n redis_move list" where
  "late_exit sid p = [Enqueue 0 sid p, Signal 0, RedisTurn, RedisTurn, SetExit, RedisTurn, SignalExit]"

lemma late_exit_drops:
  assumes J: "queue_laws cap content J" and "content (redisQ s) = []" and "0 < cap"
  shows "\<exists>w. redis_world_run W Q J R U (late_exit sid p) (redis_started s) = Some w \<and> rw_thread w = Ended \<and>
    content (redisQ (rw_server w)) = [(sid, p)]"
proof -
  have "snd (q_push J (sid, p) (redisQ s))" using assms by (simp add: queue_laws_def)
  then show ?thesis
    using EnqueueRedis_content [OF J, of sid p s] assms(2)
    by (simp add: late_exit_def redis_started_def redis_world_step_def enqueue_access_def signal_access_def exit_access_def redis_access_def)
qed

text \<open>
  C22. The Redis thread ends when the server stops: once the destructor has set \<open>exit\<close> and the event, the thread is
  never asleep and makes at most two turns more than jobs were waiting or are enqueued meanwhile, so the
  wait of the destructor returns. The jobs then still in the queue are dropped with the references to their packets.
\<close>

theorem redis_thread_stops:
  assumes J: "queue_laws cap content J" and "content (redisQ s) = []" and "0 < cap"
    and "redis_world_run W Q J R U ms (redis_started s) = Some w" and "rw_stop w = EventSet"
    and "redis_world_run W Q J R U ms1 w = Some w1"
  shows "redis_turns ms1 \<le> length (content (redisQ (rw_server w))) + enqueues ms1 + 2 \<and>
    (rw_thread w1 = Ended \<or> rw_thread w1 = Faulted \<or> (\<exists>w2. redis_access W Q J R U w1 = Some w2)) \<and>
    (\<exists>w2. redis_world_run W Q J R U (late_exit sid p) (redis_started s) = Some w2 \<and> rw_thread w2 = Ended \<and>
      content (redisQ (rw_server w2)) = [(sid, p)])"
proof (intro conjI)
  have inv: "redis_awake content w" using redis_world_run_awake [OF J redis_started_awake assms(4)] assms(2) by simp
  then have "rw_exit w" using assms(5) by (simp add: redis_awake_def)
  from run_ends [OF J assms(6) this] end_turns_le [of "rw_thread w" "length (content (redisQ (rw_server w)))"]
  show "redis_turns ms1 \<le> length (content (redisQ (rw_server w))) + enqueues ms1 + 2" by simp
  have "redis_awake content w1" "rw_stop w1 = EventSet"
    using redis_world_run_awake [OF J inv assms(6)] event_set_stays_run [OF assms(6,5)] by simp_all
  then have "rw_thread w1 = AtWait \<Longrightarrow> rw_event w1" by (simp add: redis_awake_def)
  then show "rw_thread w1 = Ended \<or> rw_thread w1 = Faulted \<or> (\<exists>w2. redis_access W Q J R U w1 = Some w2)"
    by (cases "rw_thread w1") (auto simp: redis_access_def split: option.splits sum.splits)
  show "\<exists>w2. redis_world_run W Q J R U (late_exit sid p) (redis_started s) = Some w2 \<and> rw_thread w2 = Ended \<and>
      content (redisQ (rw_server w2)) = [(sid, p)]"
    by (rule late_exit_drops [OF J assms(2,3)])
qed

text \<open>The server stops while the thread sleeps.\<close>

theorem redis_thread_stops_witness:
  "\<exists>w w1. redis_world_run plain_os (list_queue 4096) (list_queue 65534) \<lparr>r_set = (\<lambda>k v d. d), r_get = (\<lambda>k d. None)\<rparr> (\<lambda>_. 0)
       [RedisTurn, SetExit, SignalExit] (redis_started empty_server) = Some w \<and>
     redis_world_run plain_os (list_queue 4096) (list_queue 65534) \<lparr>r_set = (\<lambda>k v d. d), r_get = (\<lambda>k d. None)\<rparr> (\<lambda>_. 0)
       [RedisTurn, RedisTurn] w = Some w1 \<and>
     rw_thread w1 = Ended \<and> redis_turns [RedisTurn, RedisTurn :: (nat list, st_Redis list, unit) ChatServer redis_move] \<le>
       length (redisQ (rw_server w)) + 2"
proof -
  have q: "redisQ empty_server = []" by (simp add: empty_server_def)
  obtain w w1 where run: "redis_world_run plain_os (list_queue 4096) (list_queue 65534)
      \<lparr>r_set = (\<lambda>k v d. d), r_get = (\<lambda>k d. None)\<rparr> (\<lambda>_. 0) [RedisTurn, SetExit, SignalExit] (redis_started empty_server) = Some w"
    "rw_stop w = EventSet"
    "redis_world_run plain_os (list_queue 4096) (list_queue 65534)
      \<lparr>r_set = (\<lambda>k v d. d), r_get = (\<lambda>k d. None)\<rparr> (\<lambda>_. 0) [RedisTurn, RedisTurn] w = Some w1"
    "rw_thread w1 = Ended"
    by (simp add: redis_started_def redis_world_step_def exit_access_def redis_access_def)
  from redis_thread_stops [OF queue_laws_list [of 65534] q _ run(1-3)] run show ?thesis by simp
qed

end
