(* ===== verification/CRuntime.thy ===== *)
theory CRuntime
  imports Prelude Complex_Main
begin

text \<open>
  What the monitoring code (CpuMonitor.cpp, monitor.cpp) uses of the C++ runtime: wide strings, the
  checked string functions, decimal printing, and floating point. An array of WCHARs that holds a
  string is the string it holds, without the terminator; the capacity of the array is an argument of the
  functions that write it.
\<close>

section \<open>Wide strings\<close>

type_synonym WCHAR = WORD
type_synonym wstr = "WCHAR list"

text \<open>A wide literal.\<close>

definition L :: "string \<Rightarrow> wstr" where
  "L s = map of_char s"

lemma L_simps [simp]: "L [] = []" "L (c # s) = of_char c # L s" "length (L s) = length s" "L (s @ t) = L s @ L t"
  by (simp_all add: L_def)

text \<open>\<open>wcscpy_s\<close> and \<open>swprintf_s\<close> end the process when the text and its terminator do not fit.\<close>

definition wcscpy_s :: "nat \<Rightarrow> wstr \<Rightarrow> wstr res" where
  "wcscpy_s n src = (if length src < n then Inr src else Inl InvalidParameter)"

definition swprintf_s :: "nat \<Rightarrow> wstr \<Rightarrow> wstr res" where
  "swprintf_s n text = (if length text < n then Inr text else Inl InvalidParameter)"

text \<open>\<open>swprintf_s(s + idx, size - idx, ...)\<close> where \<open>t\<close>, of length \<open>idx\<close>, is in \<open>s\<close>.\<close>

definition swprintf_at :: "int \<Rightarrow> wstr \<Rightarrow> wstr \<Rightarrow> wstr res" where
  "swprintf_at n t piece =
     (if int (length t) + int (length piece) < n then Inr (t @ piece) else Inl InvalidParameter)"

text \<open>\<open>_wcsicmp\<close> in the C locale.\<close>

definition wlower :: "WCHAR \<Rightarrow> WCHAR" where
  "wlower c = (if 65 \<le> c \<and> c \<le> 90 then c + 32 else c)"

definition wcsicmp_eq :: "wstr \<Rightarrow> wstr \<Rightarrow> bool" where
  "wcsicmp_eq a b \<longleftrightarrow> map wlower a = map wlower b"

text \<open>The string at the start of a piece of memory, and the memory of a list of strings with a final empty one.\<close>

definition c_str :: "WCHAR list \<Rightarrow> wstr" where
  "c_str p = takeWhile (\<lambda>c. c \<noteq> 0) p"

definition multi_sz :: "wstr list \<Rightarrow> WCHAR list" where
  "multi_sz names = concat (map (\<lambda>n. n @ [0]) names) @ [0]"

definition proper :: "wstr \<Rightarrow> bool" where
  "proper n \<longleftrightarrow> n \<noteq> [] \<and> 0 \<notin> set n"

lemma c_str_append: "0 \<notin> set n \<Longrightarrow> c_str (n @ 0 # xs) = n"
  by (induction n) (auto simp: c_str_def)

text \<open>The first string of such a list, and the step from it to the next, as the loops of the code make it.\<close>

lemma multi_sz_Nil [simp]: "multi_sz [] @ xs = 0 # xs"
  by (simp add: multi_sz_def)

lemma multi_sz_Cons:
  assumes "proper n"
  obtains c p where "multi_sz (n # ns) @ xs = c # p" and "c \<noteq> 0" and "0 \<in> set p" and "c_str (c # p) = n"
    and "drop (length n) p = multi_sz ns @ xs"
proof -
  obtain c n' where n: "n = c # n'" "c \<noteq> 0" using assms by (cases n) (auto simp: proper_def)
  have "c_str (n @ 0 # multi_sz ns @ xs) = n" using assms by (intro c_str_append) (simp add: proper_def)
  then show thesis
    by (intro that [of c "n' @ 0 # multi_sz ns @ xs"]) (simp_all add: multi_sz_def n)
qed

section \<open>Decimal numbers\<close>

fun decimal :: "nat \<Rightarrow> wstr" where
  "decimal n = (if n < 10 then [48 + of_nat n] else decimal (n div 10) @ [48 + of_nat (n mod 10)])"

declare decimal.simps [simp del]

definition pad3 :: "nat \<Rightarrow> wstr" where
  "pad3 n = replicate (3 - length (decimal n)) 48 @ decimal n"

lemma decimal_nonempty [simp]: "decimal n \<noteq> []"
  by (subst decimal.simps) simp

lemma length_decimal: "n < 10 ^ k \<Longrightarrow> 0 < k \<Longrightarrow> length (decimal n) \<le> k"
proof (induction n arbitrary: k rule: decimal.induct)
  case (1 n)
  show ?case
  proof (cases "n < 10")
    case True with 1 show ?thesis by (subst decimal.simps) simp
  next
    case False
    then obtain j where k: "k = Suc j" "0 < j" using 1(2,3) by (cases k; cases "k - 1") auto
    with False 1(2) have "n div 10 < 10 ^ j" by (simp add: less_mult_imp_div_less mult.commute)
    with 1(1) False k have "length (decimal (n div 10)) \<le> j" by simp
    with False k show ?thesis by (subst decimal.simps) simp
  qed
qed

lemma length_pad3: "n < 1000 \<Longrightarrow> length (pad3 n) = 3"
  using length_decimal [of n 3] by (simp add: pad3_def)

section \<open>Floating point\<close>

text \<open>
  Every operation on a \<open>double\<close> is the exact operation followed by the rounding \<open>fl_double\<close>, the
  conversion to \<open>float\<close> by \<open>fl_float\<close>. What IEEE 754 says of them: they are monotone, and integers of
  at most 53 and 24 bits are exact.
\<close>

record fp =
  fl_double :: "rat \<Rightarrow> rat"
  fl_float :: "rat \<Rightarrow> rat"

definition rounding :: "nat \<Rightarrow> (rat \<Rightarrow> rat) \<Rightarrow> bool" where
  "rounding b r \<longleftrightarrow> mono r \<and> (\<forall>k. \<bar>k\<bar> \<le> 2 ^ b \<longrightarrow> r (of_int k) = of_int k)"

definition fp_laws :: "fp \<Rightarrow> bool" where
  "fp_laws F \<longleftrightarrow> rounding 53 (fl_double F) \<and> rounding 24 (fl_float F)"

lemma fp_rounding: "fp_laws F \<Longrightarrow> rounding 53 (fl_double F)" "fp_laws F \<Longrightarrow> rounding 24 (fl_float F)"
  by (simp_all add: fp_laws_def)

lemma rounding_le: "rounding b r \<Longrightarrow> x \<le> y \<Longrightarrow> r x \<le> r y"
  by (simp add: rounding_def monoD)

lemma rounding_exact: "rounding b r \<Longrightarrow> \<bar>k\<bar> \<le> 2 ^ b \<Longrightarrow> r (of_int k) = of_int k"
  by (simp add: rounding_def)

lemma rounding_ge: "rounding b r \<Longrightarrow> \<bar>k\<bar> \<le> 2 ^ b \<Longrightarrow> of_int k \<le> x \<Longrightarrow> of_int k \<le> r x"
  using rounding_le [of b r "of_int k" x] by (simp add: rounding_exact)

lemma rounding_upto: "rounding b r \<Longrightarrow> \<bar>k\<bar> \<le> 2 ^ b \<Longrightarrow> x \<le> of_int k \<Longrightarrow> r x \<le> of_int k"
  using rounding_le [of b r x "of_int k"] by (simp add: rounding_exact)

text \<open>\<open>(float)(x / d * 100.0)\<close>.\<close>

definition percent :: "fp \<Rightarrow> rat \<Rightarrow> rat \<Rightarrow> rat" where
  "percent F x d = fl_float F (fl_double F (fl_double F (x / d) * 100))"

lemma percent_range:
  assumes F: "fp_laws F" and x: "0 \<le> x" "x \<le> d" "0 < d"
  shows "0 \<le> percent F x d \<and> percent F x d \<le> 100"
proof -
  note r = fp_rounding [OF F]
  let ?q = "fl_double F (x / d)"
  have "0 \<le> ?q" "?q \<le> 1"
    using x rounding_ge [OF r(1), of 0 "x / d"] rounding_upto [OF r(1), of 1 "x / d"] by simp_all
  then have "0 \<le> fl_double F (?q * 100)" "fl_double F (?q * 100) \<le> 100"
    using rounding_ge [OF r(1), of 0 "?q * 100"] rounding_upto [OF r(1), of 100 "?q * 100"] by simp_all
  then show ?thesis
    unfolding percent_def using rounding_ge [OF r(2), of 0] rounding_upto [OF r(2), of 100] by simp
qed

lemma percent_mono:
  assumes F: "fp_laws F" and x: "x \<le> y" "0 < d"
  shows "percent F x d \<le> percent F y d"
proof -
  note r = fp_rounding [OF F]
  have "x / d \<le> y / d" using x by (simp add: divide_right_mono)
  then have "fl_double F (x / d) * 100 \<le> fl_double F (y / d) * 100" using rounding_le [OF r(1)] by simp
  then show ?thesis unfolding percent_def by (intro rounding_le [OF r(2)] rounding_le [OF r(1)])
qed

text \<open>Arithmetic without rounding satisfies the laws.\<close>

definition exact_fp :: fp where
  "exact_fp = \<lparr>fl_double = (\<lambda>x. x), fl_float = (\<lambda>x. x)\<rparr>"

lemma exact_fp_laws: "fp_laws exact_fp"
  by (simp add: fp_laws_def rounding_def exact_fp_def mono_def)

end
