(* ===== verification/Performance.thy ===== *)
theory Performance
  imports CRuntime
begin

text \<open>
  \<open>CpuMonitor\<close> (CpuMonitor.h, CpuMonitor.cpp): processor times read from Windows, and counters read
  through PDH. Handles of PDH are numbers, 0 is the null handle. What Windows answers is an
  argument: \<open>pdh\<close> is the PDH library over a state of its own, \<open>sample\<close> one reading of the clocks.
\<close>

section \<open>The libraries\<close>

text \<open>
  \<open>None\<close> is a status other than \<open>ERROR_SUCCESS\<close>; the out parameter is then not written. The
  size query of \<open>PdhEnumObjectItems\<close> gives \<open>None\<close> unless it answers \<open>PDH_MORE_DATA\<close>.
\<close>

record 'p pdh =
  PdhOpenQuery :: "'p \<Rightarrow> nat option \<times> 'p"
  PdhCloseQuery :: "nat \<Rightarrow> 'p \<Rightarrow> 'p"
  PdhEnumSize :: "wstr \<Rightarrow> 'p \<Rightarrow> nat option"
  PdhEnumObjectItems :: "wstr \<Rightarrow> nat \<Rightarrow> 'p \<Rightarrow> WCHAR list option"
  PdhAddCounter :: "nat \<Rightarrow> wstr \<Rightarrow> 'p \<Rightarrow> nat option \<times> 'p"
  PdhCollectQueryData :: "nat \<Rightarrow> 'p \<Rightarrow> 'p"
  PdhGetLong :: "nat \<Rightarrow> 'p \<Rightarrow> DWORD option"
  PdhGetLarge :: "nat \<Rightarrow> 'p \<Rightarrow> UINT64 option"
  PdhGetDouble :: "nat \<Rightarrow> 'p \<Rightarrow> rat option"

text \<open>Idle, kernel and user time of \<open>GetSystemTimes\<close>; the clock; kernel and user time of the process.\<close>

record sample =
  sm_system :: "(UINT64 \<times> UINT64 \<times> UINT64) option"
  sm_now :: UINT64
  sm_process :: "(UINT64 \<times> UINT64) option"

section \<open>The monitor\<close>

record st_ETHERNET =
  bUse :: bool
  nicName :: wstr
  pdhRecv :: nat
  pdhSend :: nat

record CpuMonitor =
  mPid :: DWORD
  mNumberOfProcessors :: int
  mProcessorTotal :: rat
  mProcessorUser :: rat
  mProcessorKernel :: rat
  mProcessTotal :: rat
  mProcessUser :: rat
  mProcessKernel :: rat
  mSysLastKernel :: UINT64
  mSysLastUser :: UINT64
  mSysLastIdle :: UINT64
  mSysCpuInitialized :: bool
  mProcLastKernel :: UINT64
  mProcLastUser :: UINT64
  mProcLastTime :: UINT64
  mProcCpuInitialized :: bool
  mQuery :: nat
  mPdhProcessInstance :: wstr
  mProcessUserMemoryCounter :: nat
  mProcessUserMemory :: UINT64
  mProcessNonPagedMemoryCounter :: nat
  mProcessNonPagedMemory :: UINT64
  mAvailableMemoryCounter :: nat
  mAvailableMemoryMB :: UINT64
  mNonPagedMemoryCounter :: nat
  mNonPagedMemoryBytes :: UINT64
  mProcessHandleCountCounter :: nat
  mProcessHandleCount :: DWORD
  mProcessThreadCountCounter :: nat
  mProcessThreadCount :: DWORD
  mNics :: "st_ETHERNET list"
  mNetworkRecvBps :: rat
  mNetworkSendBps :: rat

definition PDH_ETHERNET_MAX :: nat where "PDH_ETHERNET_MAX = 8"

definition nic_new :: st_ETHERNET where
  "nic_new = \<lparr>bUse = False, nicName = [], pdhRecv = 0, pdhSend = 0\<rparr>"

definition monitor_new :: CpuMonitor where
  "monitor_new =
     \<lparr>mPid = 0, mNumberOfProcessors = 0, mProcessorTotal = 0, mProcessorUser = 0, mProcessorKernel = 0,
      mProcessTotal = 0, mProcessUser = 0, mProcessKernel = 0,
      mSysLastKernel = 0, mSysLastUser = 0, mSysLastIdle = 0, mSysCpuInitialized = False,
      mProcLastKernel = 0, mProcLastUser = 0, mProcLastTime = 0, mProcCpuInitialized = False,
      mQuery = 0, mPdhProcessInstance = [],
      mProcessUserMemoryCounter = 0, mProcessUserMemory = 0, mProcessNonPagedMemoryCounter = 0, mProcessNonPagedMemory = 0,
      mAvailableMemoryCounter = 0, mAvailableMemoryMB = 0, mNonPagedMemoryCounter = 0, mNonPagedMemoryBytes = 0,
      mProcessHandleCountCounter = 0, mProcessHandleCount = 0, mProcessThreadCountCounter = 0, mProcessThreadCount = 0,
      mNics = replicate PDH_ETHERNET_MAX nic_new, mNetworkRecvBps = 0, mNetworkSendBps = 0\<rparr>"

section \<open>Names\<close>

text \<open>The loops of \<open>GetExeBaseNameFromHandle\<close>: the part behind the last backslash, without its extension.\<close>

fun base_loop :: "wstr \<Rightarrow> wstr \<Rightarrow> wstr" where
  "base_loop base [] = base"
| "base_loop base (c # p) = base_loop (if c = 92 then p else base) p"

fun cut_loop :: "wstr \<Rightarrow> nat \<Rightarrow> wstr" where
  "cut_loop tmp 0 = tmp"
| "cut_loop tmp (Suc i) =
     (if tmp ! i = 46 then take i tmp else if tmp ! i = 92 then tmp else cut_loop tmp i)"

text \<open>The path of the executable is at most 259 characters; \<open>None\<close>: the query fails.\<close>

definition GetExeBaseNameFromHandle :: "wstr option \<Rightarrow> nat \<Rightarrow> wstr option res" where
  "GetExeBaseNameFromHandle img outCount =
     (case img of None \<Rightarrow> Inr None
      | Some full \<Rightarrow>
          andThen (wcscpy_s 260 (base_loop full full)) (\<lambda>tmp.
          andThen (wcscpy_s outCount (cut_loop tmp (length tmp))) (\<lambda>out. Inr (Some out))))"

text \<open>The loop of \<open>ResolvePdhProcessInstanceByPid\<close> over the instance names from \<open>p\<close> on.\<close>

function resolve_loop :: "'p pdh \<Rightarrow> nat \<Rightarrow> DWORD \<Rightarrow> nat \<Rightarrow> WCHAR list \<Rightarrow> 'p \<Rightarrow> (wstr option \<times> 'p) res" where
  "resolve_loop P q pid outCount [] ps = Inl OutOfBoundsRead"
| "resolve_loop P q pid outCount (c # p) ps =
     (if c = 0 then Inr (None, ps)
      else if 0 \<notin> set p then Inl OutOfBoundsRead
      else
        let name = c_str (c # p); rest = drop (length name) p
        in if wcsicmp_eq name (L ''_Total'') \<or> wcsicmp_eq name (L ''Idle'')
           then resolve_loop P q pid outCount rest ps
           else
             andThen (swprintf_s 512 ([92] @ L ''Process('' @ name @ L '')'' @ [92] @ L ''ID Process'')) (\<lambda>path.
               case PdhAddCounter P q path ps of
                 (None, ps1) \<Rightarrow> resolve_loop P q pid outCount rest ps1
               | (Some h, ps1) \<Rightarrow>
                   let ps2 = PdhCollectQueryData P q ps1
                   in case PdhGetLong P h ps2 of
                        Some v \<Rightarrow> if v = pid then andThen (wcscpy_s outCount name) (\<lambda>out. Inr (Some out, ps2))
                                 else resolve_loop P q pid outCount rest ps2
                      | None \<Rightarrow> resolve_loop P q pid outCount rest ps2))"
  by pat_completeness auto
termination by (relation "measure (\<lambda>(P, q, pid, n, p, ps). length p)") auto

declare resolve_loop.simps(2) [simp del]

definition ResolvePdhProcessInstanceByPid ::
  "'p pdh \<Rightarrow> DWORD \<Rightarrow> nat \<Rightarrow> 'p \<Rightarrow> (wstr option \<times> 'p) res" where
  "ResolvePdhProcessInstanceByPid P pid outCount ps =
     (case PdhEnumSize P (L ''Process'') ps of
        None \<Rightarrow> Inr (None, ps)
      | Some n \<Rightarrow>
          if n = 0 then Inr (None, ps)
          else case PdhEnumObjectItems P (L ''Process'') n ps of
                 None \<Rightarrow> Inr (None, ps)
               | Some insts \<Rightarrow>
                   (case PdhOpenQuery P ps of
                      (None, ps1) \<Rightarrow> Inr (None, ps1)
                    | (Some q, ps1) \<Rightarrow>
                        andThen (resolve_loop P q pid outCount insts ps1) (\<lambda>(r, ps2). Inr (r, PdhCloseQuery P q ps2))))"

section \<open>Adding counters\<close>

text \<open>
  \<open>AddProcessCounters\<close> adds six counters one after the other and stops at the first that fails;
  \<open>add_counter\<close> is one of its lines, over the path after \<open>swprintf_s\<close>.
\<close>

definition add_counter ::
  "'p pdh \<Rightarrow> wstr \<Rightarrow> (nat \<Rightarrow> CpuMonitor \<Rightarrow> CpuMonitor) \<Rightarrow> (bool \<times> CpuMonitor \<times> 'p) res \<Rightarrow> (bool \<times> CpuMonitor \<times> 'p) res" where
  "add_counter P text store r =
     andThen r (\<lambda>(b, m, ps).
       if \<not> b then Inr (False, m, ps)
       else andThen (swprintf_s 512 text) (\<lambda>path.
         case PdhAddCounter P (mQuery m) path ps of
           (None, ps1) \<Rightarrow> Inr (False, m, ps1)
         | (Some h, ps1) \<Rightarrow> Inr (True, store h m, ps1)))"

definition process_path :: "CpuMonitor \<Rightarrow> string \<Rightarrow> wstr" where
  "process_path m counter = [92] @ L ''Process('' @ mPdhProcessInstance m @ L '')'' @ [92] @ L counter"

definition AddProcessCounters :: "'p pdh \<Rightarrow> CpuMonitor \<Rightarrow> 'p \<Rightarrow> (bool \<times> CpuMonitor \<times> 'p) res" where
  "AddProcessCounters P m ps =
     (if mQuery m = 0 then Inr (False, m, ps)
      else if mPdhProcessInstance m = [] then Inr (False, m, ps)
      else
        add_counter P ([92] @ L ''Memory'' @ [92] @ L ''Pool Nonpaged Bytes'') (\<lambda>h m. m\<lparr>mNonPagedMemoryCounter := h\<rparr>)
       (add_counter P ([92] @ L ''Memory'' @ [92] @ L ''Available MBytes'') (\<lambda>h m. m\<lparr>mAvailableMemoryCounter := h\<rparr>)
       (add_counter P (process_path m ''Thread Count'') (\<lambda>h m. m\<lparr>mProcessThreadCountCounter := h\<rparr>)
       (add_counter P (process_path m ''Handle Count'') (\<lambda>h m. m\<lparr>mProcessHandleCountCounter := h\<rparr>)
       (add_counter P (process_path m ''Pool Nonpaged Bytes'') (\<lambda>h m. m\<lparr>mProcessNonPagedMemoryCounter := h\<rparr>)
       (add_counter P (process_path m ''Private Bytes'') (\<lambda>h m. m\<lparr>mProcessUserMemoryCounter := h\<rparr>)
          (Inr (True, m, ps))))))))"

definition nic_path :: "wstr \<Rightarrow> string \<Rightarrow> wstr" where
  "nic_path name counter = [92] @ L ''Network Interface('' @ name @ L '')'' @ [92] @ L counter"

function nic_loop ::
  "'p pdh \<Rightarrow> nat \<Rightarrow> WCHAR list \<Rightarrow> nat \<Rightarrow> st_ETHERNET list \<Rightarrow> 'p \<Rightarrow> (st_ETHERNET list \<times> 'p) res" where
  "nic_loop P q [] idx nics ps = Inl OutOfBoundsRead"
| "nic_loop P q (c # p) idx nics ps =
     (if c = 0 \<or> PDH_ETHERNET_MAX \<le> idx then Inr (nics, ps)
      else if 0 \<notin> set p then Inl OutOfBoundsRead
      else
        let name = c_str (c # p); rest = drop (length name) p
        in andThen (wcscpy_s 128 name) (\<lambda>nm.
           andThen (swprintf_s 512 (nic_path name ''Bytes Received/sec'')) (\<lambda>path1.
           andThen (swprintf_s 512 (nic_path name ''Bytes Sent/sec'')) (\<lambda>path2.
             let (r, ps1) = PdhAddCounter P q path1 ps;
                 (t, ps2) = PdhAddCounter P q path2 ps1;
                 nic = \<lparr>bUse = r \<noteq> None \<and> t \<noteq> None, nicName = nm,
                        pdhRecv = (case r of None \<Rightarrow> pdhRecv (nics ! idx) | Some h \<Rightarrow> h),
                        pdhSend = (case t of None \<Rightarrow> pdhSend (nics ! idx) | Some h \<Rightarrow> h)\<rparr>
             in nic_loop P q rest (idx + 1) (nics[idx := nic]) ps2))))"
  by pat_completeness auto
termination by (relation "measure (\<lambda>(P, q, p, idx, nics, ps). length p)") auto

declare nic_loop.simps(2) [simp del]

definition AddEthernetCounters :: "'p pdh \<Rightarrow> CpuMonitor \<Rightarrow> 'p \<Rightarrow> (bool \<times> CpuMonitor \<times> 'p) res" where
  "AddEthernetCounters P m ps =
     (if mQuery m = 0 then Inr (False, m, ps)
      else case PdhEnumSize P (L ''Network Interface'') ps of
             None \<Rightarrow> Inr (False, m, ps)
           | Some n \<Rightarrow>
               if n = 0 then Inr (False, m, ps)
               else case PdhEnumObjectItems P (L ''Network Interface'') n ps of
                      None \<Rightarrow> Inr (False, m, ps)
                    | Some insts \<Rightarrow>
                        andThen (nic_loop P (mQuery m) insts 0 (mNics m) ps) (\<lambda>(nics, ps1). Inr (True, m\<lparr>mNics := nics\<rparr>, ps1)))"

text \<open>The constructor, for a process with the given id and image path on a machine with \<open>n\<close> processors.\<close>

definition CpuMonitor_init ::
  "'p pdh \<Rightarrow> DWORD \<Rightarrow> DWORD \<Rightarrow> wstr option \<Rightarrow> 'p \<Rightarrow> (CpuMonitor \<times> 'p) res" where
  "CpuMonitor_init P pid n img ps =
     (let m = monitor_new\<lparr>mPid := pid, mNumberOfProcessors := sint n\<rparr>
      in case PdhOpenQuery P ps of
           (None, ps1) \<Rightarrow> Inr (m, ps1)
         | (Some q, ps1) \<Rightarrow>
             andThen (ResolvePdhProcessInstanceByPid P pid 260 ps1) (\<lambda>(r, ps2).
             andThen (case r of
                        Some name \<Rightarrow> Inr name
                      | None \<Rightarrow> andThen (GetExeBaseNameFromHandle img 260) (\<lambda>b.
                                 case b of None \<Rightarrow> Inr [] | Some exeBase \<Rightarrow> wcscpy_s 260 exeBase)) (\<lambda>inst.
             andThen (AddProcessCounters P (m\<lparr>mQuery := q, mPdhProcessInstance := inst\<rparr>) ps2) (\<lambda>(b1, m1, ps3).
             andThen (AddEthernetCounters P m1 ps3) (\<lambda>(b2, m2, ps4).
               Inr (m2, PdhCollectQueryData P q ps4))))))"

definition CpuMonitor_destroy :: "'p pdh \<Rightarrow> CpuMonitor \<Rightarrow> 'p \<Rightarrow> CpuMonitor \<times> 'p" where
  "CpuMonitor_destroy P m ps =
     (if mQuery m \<noteq> 0 then (m\<lparr>mQuery := 0\<rparr>, PdhCloseQuery P (mQuery m) ps) else (m, ps))"

section \<open>Update\<close>

text \<open>\<open>(double)\<close> of an unsigned 64-bit number.\<close>

definition to_double :: "fp \<Rightarrow> UINT64 \<Rightarrow> rat" where
  "to_double F x = fl_double F (of_int (uint x))"

definition Update_system :: "fp \<Rightarrow> (UINT64 \<times> UINT64 \<times> UINT64) option \<Rightarrow> CpuMonitor \<Rightarrow> CpuMonitor" where
  "Update_system F reading m =
     (case reading of None \<Rightarrow> m
      | Some (idle, kern, user) \<Rightarrow>
          let m1 =
            (if \<not> mSysCpuInitialized m then m\<lparr>mSysCpuInitialized := True\<rparr>
             else
               let kDiff = kern - mSysLastKernel m;
                   uDiff = user - mSysLastUser m;
                   iDiff = idle - mSysLastIdle m;
                   total = kDiff + uDiff
               in if total = 0 then m\<lparr>mProcessorTotal := 0, mProcessorUser := 0, mProcessorKernel := 0\<rparr>
                  else m\<lparr>mProcessorTotal := percent F (to_double F (total - iDiff)) (to_double F total),
                         mProcessorUser := percent F (to_double F uDiff) (to_double F total),
                         mProcessorKernel := percent F (to_double F (kDiff - iDiff)) (to_double F total)\<rparr>)
          in m1\<lparr>mSysLastIdle := idle, mSysLastKernel := kern, mSysLastUser := user\<rparr>)"

definition Update_process :: "fp \<Rightarrow> UINT64 \<Rightarrow> (UINT64 \<times> UINT64) option \<Rightarrow> CpuMonitor \<Rightarrow> CpuMonitor" where
  "Update_process F nowTime reading m =
     (case reading of None \<Rightarrow> m
      | Some (pKernel, pUser) \<Rightarrow>
          let m1 =
            (if \<not> mProcCpuInitialized m then m\<lparr>mProcCpuInitialized := True\<rparr>
             else
               let timeDiff = nowTime - mProcLastTime m;
                   userDiff = pUser - mProcLastUser m;
                   kernelDiff = pKernel - mProcLastKernel m;
                   total = userDiff + kernelDiff
               in if timeDiff = 0 \<or> mNumberOfProcessors m \<le> 0
                  then m\<lparr>mProcessTotal := 0, mProcessUser := 0, mProcessKernel := 0\<rparr>
                  else
                    let denom = fl_double F (fl_double F (of_int (mNumberOfProcessors m)) * to_double F timeDiff)
                    in m\<lparr>mProcessTotal := percent F (to_double F total) denom,
                         mProcessUser := percent F (to_double F userDiff) denom,
                         mProcessKernel := percent F (to_double F kernelDiff) denom\<rparr>)
          in m1\<lparr>mProcLastTime := nowTime, mProcLastKernel := pKernel, mProcLastUser := pUser\<rparr>)"

text \<open>One counter: its field keeps its value when there is no counter or PDH fails.\<close>

definition read_counter :: "(nat \<Rightarrow> 'p \<Rightarrow> 'v option) \<Rightarrow> nat \<Rightarrow> 'p \<Rightarrow> 'v \<Rightarrow> 'v" where
  "read_counter get c ps old = (if c \<noteq> 0 then (case get c ps of Some v \<Rightarrow> v | None \<Rightarrow> old) else old)"

fun net_loop :: "fp \<Rightarrow> 'p pdh \<Rightarrow> 'p \<Rightarrow> st_ETHERNET list \<Rightarrow> rat \<times> rat \<Rightarrow> rat \<times> rat" where
  "net_loop F P ps [] rs = rs"
| "net_loop F P ps (n # nics) (r, t) =
     (if \<not> bUse n then net_loop F P ps nics (r, t)
      else net_loop F P ps nics
        (if pdhRecv n \<noteq> 0 then (case PdhGetDouble P (pdhRecv n) ps of Some v \<Rightarrow> fl_double F (r + v) | None \<Rightarrow> r) else r,
         if pdhSend n \<noteq> 0 then (case PdhGetDouble P (pdhSend n) ps of Some v \<Rightarrow> fl_double F (t + v) | None \<Rightarrow> t) else t))"

definition Update_pdh :: "fp \<Rightarrow> 'p pdh \<Rightarrow> CpuMonitor \<Rightarrow> 'p \<Rightarrow> CpuMonitor \<times> 'p" where
  "Update_pdh F P m ps =
     (if mQuery m = 0 then (m, ps)
      else
        let ps1 = PdhCollectQueryData P (mQuery m) ps;
            (r, t) = net_loop F P ps1 (mNics m) (0, 0)
        in (m\<lparr>mProcessUserMemory := read_counter (PdhGetLarge P) (mProcessUserMemoryCounter m) ps1 (mProcessUserMemory m),
              mProcessNonPagedMemory := read_counter (PdhGetLarge P) (mProcessNonPagedMemoryCounter m) ps1 (mProcessNonPagedMemory m),
              mAvailableMemoryMB := read_counter (PdhGetLarge P) (mAvailableMemoryCounter m) ps1 (mAvailableMemoryMB m),
              mNonPagedMemoryBytes := read_counter (PdhGetLarge P) (mNonPagedMemoryCounter m) ps1 (mNonPagedMemoryBytes m),
              mProcessHandleCount := read_counter (PdhGetLong P) (mProcessHandleCountCounter m) ps1 (mProcessHandleCount m),
              mProcessThreadCount := read_counter (PdhGetLong P) (mProcessThreadCountCounter m) ps1 (mProcessThreadCount m),
              mNetworkRecvBps := r, mNetworkSendBps := t\<rparr>, ps1))"

definition Update :: "fp \<Rightarrow> 'p pdh \<Rightarrow> sample \<Rightarrow> CpuMonitor \<times> 'p \<Rightarrow> CpuMonitor \<times> 'p" where
  "Update F P x st =
     Update_pdh F P (Update_process F (sm_now x) (sm_process x) (Update_system F (sm_system x) (fst st))) (snd st)"

section \<open>Large numbers\<close>

text \<open>
  \<open>GetBigNumberStr\<close> into the buffer \<open>s\<close> (\<open>None\<close>: the null pointer) of \<open>n\<close> characters: the state is
  the rest of the number, the text so far, and \<open>first\<close>.
\<close>

definition big_group :: "int \<Rightarrow> int \<Rightarrow> int \<times> wstr \<times> bool \<Rightarrow> (int \<times> wstr \<times> bool) res" where
  "big_group n d st =
     (case st of (val, t, first) \<Rightarrow>
        if d \<le> val
        then andThen (swprintf_at n t ((if first then decimal (nat (val div d)) else pad3 (nat (val div d))) @ L '',''))
               (\<lambda>t1. Inr (val mod d, t1, False))
        else Inr (val mod d, t, first))"

definition GetBigNumberStr :: "int \<Rightarrow> wstr option \<Rightarrow> int \<Rightarrow> wstr option res" where
  "GetBigNumberStr val s n =
     (if s = None \<or> n \<le> 0 then Inr s
      else if val < 0 then andThen (swprintf_at n [] (L ''-'' @ decimal (nat (- val)))) (\<lambda>t. Inr (Some t))
      else
        andThen (big_group n 1000000000 (val, [], True)) (\<lambda>st1.
        andThen (big_group n 1000000 st1) (\<lambda>st2.
        andThen (big_group n 1000 st2) (\<lambda>(val3, t3, first).
        andThen (swprintf_at n t3 (if first then decimal (nat val3) else pad3 (nat val3))) (\<lambda>t. Inr (Some t))))))"

end
