(* ===== verification/Lifecycle.thy ===== *)
theory Lifecycle
  imports Server Performance
begin

text \<open>
  Starting and stopping the server (IOCPServer.cpp, ChatServer.cpp): the handles \<open>Start\<close> makes, the
  loops of the threads, and how \<open>Stop\<close> ends the workers through the completion port.
\<close>

section \<open>The host of a server\<close>

text \<open>
  What \<open>GetQueuedCompletionStatus\<close> gives a worker: the packet \<open>Stop\<close> posts (nothing transferred, null
  key, null overlapped), a failure without overlapped, another result without overlapped, or the
  completion of an operation of the session in a slot.
\<close>

datatype port_event = Quit | Broken | Stray | Io nat completion

datatype net_call =
    CallWSAStartup
  | CallCreatePort
  | CallSocket
  | CallInetPton
  | CallNoDelay
  | CallBind int
  | CallListen
  | CallBeginThread
  | CallCloseSocket SOCKET
  | CallCloseHandle nat
  | CallPostQuit
  | CallWait nat
  | CallWSACleanup

text \<open>What Windows answers in \<open>Start\<close>; \<open>ws_thread k\<close> is the handle of the \<open>k\<close>-th thread, 0 a failure.\<close>

record winsock =
  ws_startup :: bool
  ws_port :: nat
  ws_socket :: SOCKET
  ws_bind :: bool
  ws_listen :: bool
  ws_thread :: "nat \<Rightarrow> nat"

text \<open>
  The members of \<open>IOCPServer\<close> that hold handles, the queue of the completion port (\<open>h_port\<close>), the number of
  workers in their loop, the calls of Windows made, and the sessions (\<open>h_server\<close>).
\<close>

record 'n host =
  h_hcp :: nat
  h_listenSocket :: SOCKET
  h_acceptThread :: nat
  h_monitorThread :: nat
  h_allThreadCount :: int
  h_threadVector :: "nat list"
  h_port :: "port_event list"
  h_running :: nat
  h_calls :: "net_call list"
  h_server :: 'n

definition net :: "net_call \<Rightarrow> ('n, 'z) host_scheme \<Rightarrow> ('n, 'z) host_scheme" where
  "net c h = h\<lparr>h_calls := h_calls h @ [c]\<rparr>"

section \<open>Start\<close>

definition begin_worker :: "winsock \<Rightarrow> nat \<Rightarrow> ('n, 'z) host_scheme \<Rightarrow> ('n, 'z) host_scheme" where
  "begin_worker N i h =
     (net CallBeginThread h)\<lparr>h_threadVector := h_threadVector h @ [ws_thread N i],
                             h_running := h_running h + (if ws_thread N i \<noteq> 0 then 1 else 0)\<rparr>"

definition Start_host ::
  "winsock \<Rightarrow> (nat, 'q) queue_ops \<Rightarrow> bool \<Rightarrow> int \<Rightarrow> int \<Rightarrow> bool \<Rightarrow> nat \<Rightarrow> (('q, 'a) srv, 'z) host_scheme \<Rightarrow>
   bool \<times> (('q, 'a) srv, 'z) host_scheme" where
  "Start_host N Q ip port threadCount nagle maxUserCount h =
     (let h1 = net CallWSAStartup h
      in if \<not> ws_startup N then (False, h1)
         else let h2 = net CallCreatePort (h1\<lparr>h_hcp := ws_port N\<rparr>)
         in if ws_port N = 0 then (False, h2)
         else let h3 = net CallSocket (h2\<lparr>h_listenSocket := ws_socket N\<rparr>)
         in if ws_socket N = INVALID_SOCKET then (False, h3)
         else let h4 = (if ip then net CallInetPton h3 else h3);
                  h5 = net CallInetPton h4;
                  h6 = (if nagle then net CallNoDelay h5 else h5);
                  h7 = net (CallBind port) h6
         in if \<not> ws_bind N then (False, h7)
         else let h8 = net CallListen h7
         in if \<not> ws_listen N then (False, h8)
         else let h9 = h8\<lparr>h_server := snd (Start Q [] maxUserCount (h_server h8)), h_allThreadCount := threadCount + 1\<rparr>;
                  h10 = net CallBeginThread (h9\<lparr>h_acceptThread := ws_thread N 0\<rparr>)
         in (True, fold (begin_worker N) [1..<nat (h_allThreadCount h10)] h10))"

section \<open>Stop\<close>

text \<open>
  \<open>Stop\<close> up to its first wait: it posts a packet per worker. The handle of the accept thread is
  closed here, before it is waited for; the monitor thread is never started, so its handle is what memory held.
\<close>

definition Stop_begin :: "('n, 'z) host_scheme \<Rightarrow> ('n, 'z) host_scheme" where
  "Stop_begin h =
     (let h1 = net (CallCloseHandle (h_monitorThread h)) (net (CallCloseHandle (h_acceptThread h)) (net (CallCloseSocket (h_listenSocket h)) h))
      in if h_hcp h1 \<noteq> 0
         then fold (\<lambda>_ h. (net CallPostQuit h)\<lparr>h_port := h_port h @ [Quit]\<rparr>) (h_threadVector h1) h1
         else h1)"

definition join_thread :: "nat \<Rightarrow> ('n, 'z) host_scheme \<Rightarrow> ('n, 'z) host_scheme" where
  "join_thread t h = (if t \<noteq> 0 then net (CallCloseHandle t) (net (CallWait t) h) else h)"

text \<open>The rest of \<open>Stop\<close>, when every thread it waits for has ended.\<close>

definition Stop_end ::
  "(nat, 'q) queue_ops \<Rightarrow> ('q, 'a) leave \<Rightarrow> (('q, 'a) srv, 'z) host_scheme \<Rightarrow> (('q, 'a) srv, 'z) host_scheme res" where
  "Stop_end Q leave h =
     (let h1 = join_thread (h_monitorThread h) (join_thread (h_acceptThread h) h);
          h2 = (fold join_thread (h_threadVector h1) h1)\<lparr>h_threadVector := []\<rparr>
      in andThen (if sessionArray (h_server h2) \<noteq> [] then Stop Q leave (h_server h2)
                  else Inr ((h_server h2)\<lparr>sessionCount := 0, sendTPS := 0, recvTPS := 0, acceptTPS := 0, acceptCount := 0\<rparr>)) (\<lambda>s.
           let h3 = h2\<lparr>h_server := s\<rparr>;
               h4 = (if h_hcp h3 \<noteq> 0 then (net (CallCloseHandle (h_hcp h3)) h3)\<lparr>h_hcp := 0\<rparr> else h3)
           in Inr (net CallWSACleanup h4)))"

section \<open>The loops of the threads\<close>

text \<open>One turn of the loop of \<open>WorkerThread\<close>; the boolean says whether the loop goes on.\<close>

definition worker_turn ::
  "os \<Rightarrow> (nat, 'q) queue_ops \<Rightarrow> ('q, 'a) leave \<Rightarrow> ('q, 'a) recv \<Rightarrow> port_event \<Rightarrow> ('q, 'a) srv \<Rightarrow> (bool \<times> ('q, 'a) srv) res" where
  "worker_turn W Q leave recv e s =
     (case e of
        Quit \<Rightarrow> Inr (False, s)
      | Broken \<Rightarrow> Inr (False, s)
      | Stray \<Rightarrow> Inr (True, s)
      | Io i c \<Rightarrow> andThen (worker_step W Q leave recv i c s) (\<lambda>s1. Inr (True, s1)))"

text \<open>
  One turn of the loop of \<open>AcceptThread\<close> for what \<open>accept\<close> returned, and the loop for one answer of \<open>accept\<close> and of
  \<open>OnConnectionRequest\<close> after the other.
\<close>

definition accept_turn ::
  "os \<Rightarrow> (nat, 'q) queue_ops \<Rightarrow> ('q, 'a) leave \<Rightarrow> (UINT64 \<Rightarrow> ('q, 'a) srv \<Rightarrow> ('q, 'a) srv res) \<Rightarrow> bool \<Rightarrow> SOCKET \<Rightarrow>
   ('q, 'a) srv \<Rightarrow> (bool \<times> ('q, 'a) srv) res" where
  "accept_turn W Q leave join request socket s =
     (if socket = INVALID_SOCKET then Inr (False, s)
      else andThen (accept_step W Q leave join request socket s) (\<lambda>s1. Inr (True, s1)))"

fun accept_loop ::
  "os \<Rightarrow> (nat, 'q) queue_ops \<Rightarrow> ('q, 'a) leave \<Rightarrow> (UINT64 \<Rightarrow> ('q, 'a) srv \<Rightarrow> ('q, 'a) srv res) \<Rightarrow> (SOCKET \<times> bool) list \<Rightarrow>
   ('q, 'a) srv \<Rightarrow> ('q, 'a) srv res" where
  "accept_loop W Q leave join [] s = Inr s"
| "accept_loop W Q leave join ((socket, request) # conns) s =
     andThen (accept_turn W Q leave join request socket s)
       (\<lambda>(go, s1). if go then accept_loop W Q leave join conns s1 else Inr s1)"

text \<open>One failure of \<open>accept\<close> ends the thread: whoever connects afterwards is not served.\<close>

lemma accept_failure_ends:
  "accept_loop W Q leave join (before @ (INVALID_SOCKET, r) # after) s = accept_loop W Q leave join before s"
proof (induction before arbitrary: s)
  case Nil
  show ?case by (simp add: accept_turn_def)
next
  case (Cons c cs)
  obtain socket request where c: "c = (socket, request)" by (cases c)
  show ?case
    by (cases "accept_turn W Q leave join request socket s") (auto simp: c Cons.IH)
qed

text \<open>While the server is full every connection is closed and no session changes.\<close>

lemma accept_full:
  "maxClientCount s \<le> sessionCount s \<Longrightarrow> INVALID_SOCKET \<notin> fst ` set cs \<Longrightarrow>
    accept_loop W Q leave join cs s = Inr (s\<lparr>os_calls := os_calls s @ map (\<lambda>c. OsClose (fst c)) cs\<rparr>)"
proof (induction cs arbitrary: s)
  case (Cons c cs)
  obtain socket request where c: "c = (socket, request)" by (cases c)
  have "accept_turn W Q leave join request socket s = Inr (True, add_call (OsClose socket) s)"
    using Cons.prems by (auto simp: accept_turn_def accept_step_def c)
  with Cons.prems Cons.IH [of "add_call (OsClose socket) s"] show ?case by (simp add: c add_call_def)
qed simp

text \<open>
  \<open>RedisThread\<close>: \<open>exit\<close> as read at the head of the loop and after the wait; \<open>HeartbeatThread\<close> and
  \<open>MonitorThread\<close>: \<open>exit\<close> and whether the wait of a second ran out.
\<close>

definition redis_turn ::
  "os \<Rightarrow> (nat, 'q) queue_ops \<Rightarrow> (st_Redis, 'r) queue_ops \<Rightarrow> 'd redis_ops \<Rightarrow> (nat \<Rightarrow> byte) \<Rightarrow> bool \<Rightarrow> bool \<Rightarrow>
   ('q, 'r, 'd, 'a) chat \<Rightarrow> (bool \<times> ('q, 'r, 'd, 'a) chat) res" where
  "redis_turn W Q J R U exit1 exit2 s =
     (if exit1 \<or> exit2 then Inr (False, s)
      else andThen (returned (redis_loop W Q J R U s)) (\<lambda>s1. Inr (True, s1)))"

definition heartbeat_turn ::
  "os \<Rightarrow> (nat, 'q) queue_ops \<Rightarrow> bool \<Rightarrow> bool \<Rightarrow> ('q, 'r, 'd, 'a) chat \<Rightarrow> (bool \<times> ('q, 'r, 'd, 'a) chat) res" where
  "heartbeat_turn W Q exit timeout s =
     (if exit then Inr (False, s)
      else if timeout then andThen (CheckTimeOut W Q s) (\<lambda>s1. Inr (True, s1))
      else Inr (True, s))"

definition monitor_turn ::
  "fp \<Rightarrow> 'p pdh \<Rightarrow> sample \<Rightarrow> bool \<Rightarrow> bool \<Rightarrow> (CpuMonitor \<times> 'p) \<times> ('q, 'r, 'd, 'a) chat \<Rightarrow>
   bool \<times> (CpuMonitor \<times> 'p) \<times> ('q, 'r, 'd, 'a) chat" where
  "monitor_turn F P x exit timeout ms =
     (if exit then (False, ms)
      else if timeout then (True, Update F P x (fst ms), monitor_step (snd ms))
      else (True, ms))"

section \<open>The chat server\<close>

record 'n chat_host = "'n host" +
  c_redis_event :: nat
  c_redis_thread :: nat
  c_heartbeat_thread :: nat
  c_monitor_thread :: nat
  c_exit :: bool

record chat_handles =
  ch_event :: nat
  ch_redis :: nat
  ch_heartbeat :: nat
  ch_monitor :: nat

definition chat_Start ::
  "winsock \<Rightarrow> chat_handles \<Rightarrow> (nat, 'q) queue_ops \<Rightarrow> bool \<Rightarrow> int \<Rightarrow> int \<Rightarrow> bool \<Rightarrow> nat \<Rightarrow> ('q, 'a) srv chat_host \<Rightarrow>
   bool \<times> ('q, 'a) srv chat_host" where
  "chat_Start N X Q ip port threadCount nagle maxUserCount h =
     (let (b, h1) = Start_host N Q ip port threadCount nagle maxUserCount (h\<lparr>c_redis_event := ch_event X\<rparr>)
      in if \<not> b then (False, h1)
         else (True, h1\<lparr>c_redis_thread := ch_redis X, c_heartbeat_thread := ch_heartbeat X, c_monitor_thread := ch_monitor X,
                        h_calls := h_calls h1 @ [CallBeginThread, CallBeginThread, CallBeginThread]\<rparr>))"

text \<open>The destructor: the waits return when the three threads have seen \<open>exit\<close>.\<close>

definition chat_Stop :: "('q, 'r, 'd, 'a) chat chat_host \<Rightarrow> ('q, 'r, 'd, 'a) chat chat_host" where
  "chat_Stop h =
     (let h1 = h\<lparr>c_exit := True\<rparr>;
          h2 = h1\<lparr>h_calls := h_calls h1 @
                 [CallWait (c_redis_thread h1), CallWait (c_heartbeat_thread h1), CallWait (c_monitor_thread h1),
                  CallCloseHandle (c_heartbeat_thread h1), CallCloseHandle (c_monitor_thread h1),
                  CallCloseHandle (c_redis_event h1), CallCloseHandle (c_redis_thread h1)]\<rparr>
      in h2\<lparr>h_server := chat_destroy (h_server h2)\<rparr>)"

text \<open>\<open>main\<close> starts the server and never returns.\<close>

definition main_start :: "winsock \<Rightarrow> chat_handles \<Rightarrow> (nat, 'q) queue_ops \<Rightarrow> ('q, 'a) srv chat_host \<Rightarrow> bool \<times> ('q, 'a) srv chat_host" where
  "main_start N X Q h = chat_Start N X Q True 6000 4 True 5000 h"

section \<open>The workers\<close>

text \<open>
  A worker takes the event at the head of the port and handles it; anything else that happens
  changes the sessions and lets operations complete, but neither ends a worker nor posts a packet of \<open>Stop\<close>.
\<close>

definition go_on :: "bool \<Rightarrow> ('n, 'z) host_scheme \<Rightarrow> ('n, 'z) host_scheme" where
  "go_on go h = (if go then h else h\<lparr>h_running := h_running h - 1\<rparr>)"

inductive worker_takes ::
  "os \<Rightarrow> (nat, 'q) queue_ops \<Rightarrow> ('q, 'a) leave \<Rightarrow> ('q, 'a) recv \<Rightarrow> ('q, 'a) srv host \<Rightarrow> ('q, 'a) srv host \<Rightarrow> bool"
  for W Q leave recv where
  "0 < h_running h \<Longrightarrow> h_port h = e # q \<Longrightarrow> worker_turn W Q leave recv e (h_server h) = Inr (go, s) \<Longrightarrow>
   worker_takes W Q leave recv h (go_on go (h\<lparr>h_port := q, h_server := s\<rparr>))"

inductive others :: "('q, 'a) srv host \<Rightarrow> ('q, 'a) srv host \<Rightarrow> bool" where
  "Quit \<notin> set new \<Longrightarrow> others h (h\<lparr>h_port := h_port h @ new, h_server := s\<rparr>)"

inductive_cases worker_takesE: "worker_takes W Q leave recv h h'"
inductive_cases othersE: "others h h'"

text \<open>A run of workers and others with \<open>k\<close> turns of workers.\<close>

inductive worker_run ::
  "os \<Rightarrow> (nat, 'q) queue_ops \<Rightarrow> ('q, 'a) leave \<Rightarrow> ('q, 'a) recv \<Rightarrow> nat \<Rightarrow> ('q, 'a) srv host \<Rightarrow> ('q, 'a) srv host \<Rightarrow> bool"
  for W Q leave recv where
  none: "worker_run W Q leave recv 0 h h"
| turn: "worker_takes W Q leave recv h h1 \<Longrightarrow> worker_run W Q leave recv k h1 h' \<Longrightarrow> worker_run W Q leave recv (Suc k) h h'"
| other: "others h h1 \<Longrightarrow> worker_run W Q leave recv k h1 h' \<Longrightarrow> worker_run W Q leave recv k h h'"

text \<open>The events of the port up to the last packet of \<open>Stop\<close>, and the packets.\<close>

definition last_quit :: "port_event list \<Rightarrow> nat" where
  "last_quit q = length (dropWhile (\<lambda>e. e \<noteq> Quit) (rev q))"

definition quits :: "port_event list \<Rightarrow> nat" where
  "quits q = length (filter (\<lambda>e. e = Quit) q)"

lemma last_quit_le: "last_quit q \<le> length q"
  unfolding last_quit_def using length_dropWhile_le [of "\<lambda>e. e \<noteq> Quit" "rev q"] by simp

lemma drop_no_quit: "Quit \<notin> set q \<Longrightarrow> dropWhile (\<lambda>e. e \<noteq> Quit) (rev q @ xs) = dropWhile (\<lambda>e. e \<noteq> Quit) xs"
  by (induction q arbitrary: xs) auto

lemma last_quit_append [simp]: "Quit \<notin> set new \<Longrightarrow> last_quit (q @ new) = last_quit q"
  by (simp add: last_quit_def drop_no_quit)

lemma last_quit_none: "Quit \<notin> set q \<Longrightarrow> last_quit q = 0"
  using drop_no_quit [of q "[]"] by (simp add: last_quit_def)

lemma last_quit_Cons: "last_quit (e # q) = (if Quit \<in> set q then last_quit q + 1 else if e = Quit then 1 else 0)"
proof (cases "Quit \<in> set q")
  case True
  then have "Quit \<in> set (rev q)" by simp
  then show ?thesis using True by (simp add: last_quit_def dropWhile_append1)
next
  case False
  then show ?thesis
    using last_quit_none [of "e # q"] by (simp add: last_quit_def drop_no_quit)
qed

lemma quits_simps [simp]: "quits (e # q) = (if e = Quit then quits q + 1 else quits q)"
  "quits (a @ b) = quits a + quits b" "quits q = 0 \<longleftrightarrow> Quit \<notin> set q" "quits (replicate n Quit) = n"
  by (auto simp: quits_def filter_empty_conv)

lemma worker_turn_goes_on:
  "worker_turn W Q leave recv e s = Inr (go, s') \<Longrightarrow> go \<longleftrightarrow> e \<noteq> Quit \<and> e \<noteq> Broken"
  by (cases e) (auto simp: worker_turn_def andThen_eq_Inr)

lemma worker_takes_counts:
  assumes "worker_takes W Q leave recv h h'"
  shows "h_threadVector h' = h_threadVector h \<and> h_hcp h' = h_hcp h \<and>
    (\<exists>e. h_port h = e # h_port h' \<and> 0 < h_running h \<and>
       (if e = Quit \<or> e = Broken then h_running h' = h_running h - 1 else h_running h' = h_running h))"
  using assms
proof (cases rule: worker_takes.cases)
  case (1 e q go s)
  from worker_turn_goes_on [OF 1(4)] 1(1-3) show ?thesis by (simp add: go_on_def)
qed

lemma worker_takes_progress:
  assumes "worker_takes W Q leave recv h h'" and "h_running h \<le> quits (h_port h)"
  shows "h_running h' \<le> quits (h_port h') \<and> last_quit (h_port h) = Suc (last_quit (h_port h'))"
proof -
  from worker_takes_counts [OF assms(1)] obtain e where e: "h_port h = e # h_port h'" "0 < h_running h"
    "if e = Quit \<or> e = Broken then h_running h' = h_running h - 1 else h_running h' = h_running h" by blast
  with assms(2) have "0 < quits (e # h_port h')" by simp
  then have "Quit \<in> set (h_port h') \<or> e = Quit" by (auto split: if_splits simp: neq0_conv [symmetric] simp del: neq0_conv)
  moreover have "Quit \<notin> set (h_port h') \<Longrightarrow> last_quit (h_port h') = 0" by (rule last_quit_none)
  ultimately show ?thesis using e assms(2) by (auto simp: last_quit_Cons split: if_splits)
qed

lemma worker_run_bound:
  "worker_run W Q leave recv k h h' \<Longrightarrow> h_running h \<le> quits (h_port h) \<Longrightarrow>
   k \<le> last_quit (h_port h) \<and> h_running h' \<le> quits (h_port h')"
proof (induction rule: worker_run.induct)
  case (turn h h1 k h')
  with worker_takes_progress [OF turn.hyps(1) turn.prems] show ?case by simp
next
  case (other h h1 k h')
  from other.hyps(1) have "h_running h1 = h_running h" "quits (h_port h1) = quits (h_port h)" "last_quit (h_port h1) = last_quit (h_port h)"
    by (auto elim!: othersE)
  with other show ?case by simp
qed simp

text \<open>Before \<open>Stop\<close> no more workers run than there are handles.\<close>

lemma worker_run_members:
  "worker_run W Q leave recv k h h' \<Longrightarrow>
   h_threadVector h' = h_threadVector h \<and> h_hcp h' = h_hcp h \<and> h_running h' \<le> h_running h"
proof (induction rule: worker_run.induct)
  case (turn h h1 k h')
  with worker_takes_counts [OF turn.hyps(1)] show ?case by (auto split: if_splits)
qed (auto elim!: othersE)

lemma begin_workers: "h_running (fold (begin_worker N) is h) \<le> h_running h + length is \<and>
  length (h_threadVector (fold (begin_worker N) is h)) = length (h_threadVector h) + length is \<and>
  h_hcp (fold (begin_worker N) is h) = h_hcp h"
proof (induction "is" arbitrary: h)
  case (Cons i "is")
  from Cons.IH [of "begin_worker N i h"] show ?case by (auto simp: begin_worker_def net_def split: if_splits)
qed simp

lemma Start_host_workers:
  assumes "Start_host N Q ip port n nagle m h0 = (True, h)" and "h_running h0 = 0" and "h_threadVector h0 = []"
  shows "h_running h \<le> length (h_threadVector h) \<and> length (h_threadVector h) = nat n \<and> h_hcp h \<noteq> 0"
proof -
  from assms(1) obtain h10 where h10: "h = fold (begin_worker N) [1..<nat (n + 1)] h10" "h_running h10 = h_running h0"
    "h_threadVector h10 = h_threadVector h0" "h_hcp h10 = ws_port N" "ws_port N \<noteq> 0"
    by (auto simp: Start_host_def Let_def net_def split: if_splits)
  have "length [1..<nat (n + 1)] = nat n" by simp
  with begin_workers [of N "[1..<nat (n + 1)]" h10] h10 assms(2,3) show ?thesis by simp
qed

lemma Stop_begin_quits:
  assumes "h_hcp h \<noteq> 0"
  shows "h_port (Stop_begin h) = h_port h @ replicate (length (h_threadVector h)) Quit \<and> h_running (Stop_begin h) = h_running h \<and>
    h_server (Stop_begin h) = h_server h"
proof -
  have f: "h_port (fold (\<lambda>_ h. (net CallPostQuit h)\<lparr>h_port := h_port h @ [Quit]\<rparr>) ts h) = h_port h @ replicate (length ts) Quit \<and>
      h_running (fold (\<lambda>_ h. (net CallPostQuit h)\<lparr>h_port := h_port h @ [Quit]\<rparr>) ts h) = h_running h \<and>
      h_server (fold (\<lambda>_ h. (net CallPostQuit h)\<lparr>h_port := h_port h @ [Quit]\<rparr>) ts h) = h_server h" for ts :: "nat list" and h :: "('a, 'b) host_scheme"
    by (induction ts arbitrary: h) (simp_all add: net_def)
  show ?thesis using assms f by (simp add: Stop_begin_def Let_def net_def)
qed

text \<open>
  C21. \<open>Stop\<close> ends the workers. After a start that succeeded and any run of the server, \<open>Stop\<close> posts one
  packet per worker. From then on the workers take at most as many turns as the port holds
  events at that moment, whatever completes meanwhile; and as long as a worker runs one of them can take
  its next turn, so that the waits of \<open>Stop\<close> for the workers return - unless the handler of the next event
  faults or never returns, as a chat text of more than 420 bytes makes it: then \<open>Stop\<close> waits for ever.
\<close>

theorem stop_ends_workers:
  assumes "Start_host N Q ip port n nagle m h0 = (True, h)" and "h_running h0 = 0" and "h_threadVector h0 = []"
    and "worker_run W Q leave recv j h h1" and "worker_run W Q leave recv k (Stop_begin h1) h2"
  shows "k \<le> length (h_port h1) + nat n \<and>
    (h_running h2 = 0 \<or> (\<exists>h3. worker_takes W Q leave recv h2 h3) \<or>
     (\<exists>e q err. h_port h2 = e # q \<and> worker_turn W Q leave recv e (h_server h2) = Inl err))"
proof -
  from Start_host_workers [OF assms(1-3)] worker_run_members [OF assms(4)]
  have h1: "h_running h1 \<le> length (h_threadVector h1)" "length (h_threadVector h1) = nat n" "h_hcp h1 \<noteq> 0" by simp_all
  note stop = Stop_begin_quits [OF h1(3)]
  then have "h_running (Stop_begin h1) \<le> quits (h_port (Stop_begin h1))" using h1(1) by simp
  from worker_run_bound [OF assms(5) this]
  have k: "k \<le> last_quit (h_port (Stop_begin h1))" "h_running h2 \<le> quits (h_port h2)" by simp_all
  have "k \<le> length (h_port h1) + nat n" using k(1) last_quit_le [of "h_port (Stop_begin h1)"] stop h1(2) by simp
  moreover have "(\<exists>h3. worker_takes W Q leave recv h2 h3) \<or>
     (\<exists>e q err. h_port h2 = e # q \<and> worker_turn W Q leave recv e (h_server h2) = Inl err)" if run: "h_running h2 \<noteq> 0"
  proof (cases "h_port h2")
    case Nil
    with k(2) run show ?thesis by (simp add: quits_def)
  next
    case (Cons e q)
    then show ?thesis
      using worker_takes.intros [OF _ Cons, of W Q leave recv] run by (cases "worker_turn W Q leave recv e (h_server h2)") auto
  qed
  ultimately show ?thesis by blast
qed

section \<open>Two workers\<close>

definition demo_winsock :: winsock where
  "demo_winsock = \<lparr>ws_startup = True, ws_port = 1, ws_socket = 5, ws_bind = True, ws_listen = True, ws_thread = (\<lambda>k. k + 10)\<rparr>"

definition demo_host :: "(nat list, st_Redis list, unit) ChatServer host" where
  "demo_host = \<lparr>h_hcp = 0, h_listenSocket = 0, h_acceptThread = 0, h_monitorThread = 0, h_allThreadCount = 0,
     h_threadVector = [], h_port = [], h_running = 0, h_calls = [], h_server = empty_server\<rparr>"

definition demo_started :: "(nat list, st_Redis list, unit) ChatServer host" where
  "demo_started = snd (Start_host demo_winsock (list_queue 4096) True 6000 2 True 1 demo_host)"

lemma demo_start: "Start_host demo_winsock (list_queue 4096) True 6000 2 True 1 demo_host = (True, demo_started)"
  "h_port demo_started = []" "h_threadVector demo_started = [11, 12]" "h_hcp demo_started = 1"
  by (simp_all add: demo_started_def Start_host_def demo_winsock_def demo_host_def Let_def net_def INVALID_SOCKET_def
      upt_rec begin_worker_def)

theorem stop_ends_workers_witness:
  "h_port (Stop_begin demo_started) = [Quit, Quit] \<and>
   (h_running (Stop_begin demo_started) = 0 \<or>
    (\<exists>h3. worker_takes plain_os (list_queue 4096) (\<lambda>_. Inr) (\<lambda>_ _. Inr) (Stop_begin demo_started) h3))"
proof -
  have q: "h_port (Stop_begin demo_started) = [Quit, Quit]"
    using Stop_begin_quits [of demo_started] demo_start(2-4) by (simp add: numeral_2_eq_2)
  have z: "h_running demo_host = 0" "h_threadVector demo_host = []" by (simp_all add: demo_host_def)
  have r: "worker_run plain_os (list_queue 4096) (\<lambda>_. Inr) (\<lambda>_ _. Inr) 0 demo_started demo_started"
    "worker_run plain_os (list_queue 4096) (\<lambda>_. Inr) (\<lambda>_ _. Inr) 0 (Stop_begin demo_started) (Stop_begin demo_started)"
    by (rule worker_run.none)+
  from stop_ends_workers [OF demo_start(1) z r] q show ?thesis by (auto simp: worker_turn_def)
qed

end
