(* ===== verification/CpuLoad.thy ===== *)
theory CpuLoad
  imports Performance
begin

text \<open>
  What the monitor shows of the processors: the loads that \<open>Update\<close> computes from the clocks of
  Windows, after any number of updates, against the exact quotients of the times that have passed.
\<close>

section \<open>Clocks\<close>

text \<open>
  The counters behind \<open>GetSystemTimes\<close>: idle time, time busy in the kernel, user time. Windows reports
  the idle time as a part of the kernel time, in 64 bits. \<open>GetProcessTimes\<close> reports the kernel and
  user time of the process; the clock is \<open>GetSystemTimeAsFileTime\<close>.
\<close>

definition system_reading :: "int \<times> int \<times> int \<Rightarrow> UINT64 \<times> UINT64 \<times> UINT64" where
  "system_reading = (\<lambda>(idle, busy, user). (word_of_int idle, word_of_int (idle + busy), word_of_int user))"

definition process_reading :: "int \<times> int \<times> int \<Rightarrow> UINT64 \<times> UINT64 \<times> UINT64" where
  "process_reading = (\<lambda>(now, kern, user). (word_of_int now, word_of_int kern, word_of_int user))"

text \<open>The readings among a list of samples: a call of Windows that fails gives none.\<close>

definition system_readings :: "sample list \<Rightarrow> (UINT64 \<times> UINT64 \<times> UINT64) list" where
  "system_readings = List.map_filter sm_system"

definition process_readings :: "sample list \<Rightarrow> (UINT64 \<times> UINT64 \<times> UINT64) list" where
  "process_readings = List.map_filter (\<lambda>x. map_option (Pair (sm_now x)) (sm_process x))"

text \<open>No counter has gone back, and what has passed fits in 64 bits.\<close>

definition passed :: "int \<times> int \<times> int \<Rightarrow> int \<times> int \<times> int \<Rightarrow> int \<times> int \<times> int" where
  "passed = (\<lambda>(a, b, c) (a', b', c'). (a' - a, b' - b, c' - c))"

definition advances :: "int \<times> int \<times> int \<Rightarrow> bool" where
  "advances = (\<lambda>(a, b, c). 0 \<le> a \<and> 0 \<le> b \<and> 0 \<le> c \<and> a + b + c < 2 ^ 64)"

fun updates :: "fp \<Rightarrow> 'p pdh \<Rightarrow> sample list \<Rightarrow> CpuMonitor \<times> 'p \<Rightarrow> CpuMonitor \<times> 'p" where
  "updates F P [] st = st"
| "updates F P (x # xs) st = updates F P xs (Update F P x st)"

section \<open>Percentages\<close>

text \<open>
  A shown number is the percentage \<open>x\<close> of \<open>d\<close> up to one part in a million, and 0 when \<open>d\<close> is 0.
  IEEE 754 bounds the relative error of a rounding to \<open>b\<close> bits in the range of normal numbers.
\<close>

definition near :: "rat \<Rightarrow> rat \<Rightarrow> rat \<Rightarrow> bool" where
  "near e x y \<longleftrightarrow> \<bar>y - x\<bar> \<le> e * x"

definition percentage :: "int \<Rightarrow> int \<Rightarrow> rat \<Rightarrow> bool" where
  "percentage x d p \<longleftrightarrow> (if d = 0 then p = 0 else near (1 / 10 ^ 6) (100 * of_int x / of_int d) p)"

definition accurate :: "nat \<Rightarrow> (rat \<Rightarrow> rat) \<Rightarrow> bool" where
  "accurate b r \<longleftrightarrow> (\<forall>x. 1 / 2 ^ 120 \<le> x \<and> x \<le> 2 ^ 120 \<longrightarrow> near (1 / 2 ^ b) x (r x))"

definition fp_accurate :: "fp \<Rightarrow> bool" where
  "fp_accurate F \<longleftrightarrow> accurate 53 (fl_double F) \<and> accurate 24 (fl_float F)"

lemma exact_fp_accurate: "fp_accurate exact_fp"
  by (simp add: fp_accurate_def accurate_def near_def exact_fp_def)

lemma near_self: "0 \<le> e \<Longrightarrow> 0 \<le> x \<Longrightarrow> near e x x"
  by (simp add: near_def)

lemma near_weaken: "near e x y \<Longrightarrow> e \<le> f \<Longrightarrow> 0 \<le> x \<Longrightarrow> near f x y"
  unfolding near_def by (meson mult_right_mono order_trans)

lemma near_trans: "near e x y \<Longrightarrow> near f y z \<Longrightarrow> 0 \<le> f \<Longrightarrow> near (e + f + f * e) x z"
proof -
  assume a: "near e x y" and b: "near f y z" and f: "0 \<le> f"
  have "y \<le> x + e * x" using a unfolding near_def by linarith
  then have "f * y \<le> f * (x + e * x)" using f by (rule mult_left_mono)
  then have "f * y \<le> f * x + f * e * x" by (simp add: algebra_simps)
  then show ?thesis using a b unfolding near_def by (simp add: algebra_simps)
qed

lemma near_scale: "near e x y \<Longrightarrow> 0 \<le> c \<Longrightarrow> near e (c * x) (c * y)"
proof -
  assume a: "near e x y" and c: "0 \<le> c"
  have "\<bar>c * y - c * x\<bar> = c * \<bar>y - x\<bar>" using c by (metis abs_mult abs_of_nonneg right_diff_distrib)
  also have "\<dots> \<le> c * (e * x)" using a c unfolding near_def by (rule mult_left_mono)
  finally show ?thesis by (simp add: near_def algebra_simps)
qed

lemma near_inverse: "near e d d' \<Longrightarrow> 0 < d \<Longrightarrow> e \<le> 1 / 2 \<Longrightarrow> near (2 * e) (1 / d) (1 / d') \<and> 0 < d'"
proof -
  assume a: "near e d d'" and d: "0 < d" and e: "e \<le> 1 / 2"
  have "e * d \<le> 1 / 2 * d" using e d by (intro mult_right_mono) auto
  then have h: "d / 2 \<le> d'" using a unfolding near_def by linarith
  then have pos: "0 < d'" using d by linarith
  have "\<bar>1 / d' - 1 / d\<bar> = \<bar>d' - d\<bar> / (d * d')"
    using d pos by (simp add: field_simps abs_mult abs_div_pos [symmetric] diff_divide_distrib [symmetric] abs_minus_commute)
  also have "\<dots> \<le> (e * d) / (d * (d / 2))"
    using a d h by (intro frac_le mult_left_mono) (auto simp: near_def)
  also have "\<dots> = 2 * e * (1 / d)" using d by (simp add: field_simps)
  finally show ?thesis using pos by (simp add: near_def)
qed

lemma near_round:
  assumes n: "near e x y" and e: "e \<le> 1 / 2" and x: "1 / 2 ^ 110 \<le> x" "x \<le> 2 ^ 110" and r: "accurate b r"
  shows "near (e + 1 / 2 ^ b + 1 / 2 ^ b * e) x (r y)"
proof -
  have x0: "0 \<le> x" using x(1) by (rule order_trans [rotated]) simp
  then have "e * x \<le> 1 / 2 * x" using e by (intro mult_right_mono)
  then have "x / 2 \<le> y" "y \<le> 2 * x" using n x0 unfolding near_def by linarith+
  then have "1 / 2 ^ 120 \<le> y" "y \<le> 2 ^ 120" using x by simp_all
  then have "near (1 / 2 ^ b) y (r y)" using r by (simp add: accurate_def)
  with n show ?thesis by (rule near_trans) simp
qed

lemma double_near:
  assumes "fp_laws F" and "fp_accurate F" and "0 \<le> k" and "k < 2 ^ 64"
  shows "near (1 / 2 ^ 53) (of_int k) (fl_double F (of_int k))"
proof (cases "k = 0")
  case True
  then show ?thesis using rounding_exact [OF fp_rounding(1) [OF assms(1)], of 0] by (simp add: near_def)
next
  case False
  with assms(3) have "1 \<le> k" by simp
  then have "(of_int 1 :: rat) \<le> of_int k" by (simp only: of_int_le_iff)
  moreover have "(of_int k :: rat) \<le> of_int (2 ^ 64)" using assms(4) by (simp only: of_int_le_iff)
  ultimately show ?thesis using assms(2) by (simp add: fp_accurate_def accurate_def)
qed

lemma percent_near:
  assumes F: "fp_laws F" and A: "fp_accurate F" and x: "0 \<le> x" "x < 2 ^ 64"
    and d: "near (1 / 2 ^ 50) D d" and D: "1 \<le> D" "D \<le> 2 ^ 96"
  shows "near (1 / 10 ^ 6) (100 * of_int x / D) (percent F (fl_double F (of_int x)) d)"
proof (cases "x = 0")
  case True
  then show ?thesis
    using rounding_exact [OF fp_rounding(1) [OF F], of 0] rounding_exact [OF fp_rounding(2) [OF F], of 0]
    by (simp add: near_def percent_def)
next
  case False
  define X :: rat where "X = of_int x"
  have "1 \<le> x" using False x(1) by simp
  then have "(of_int 1 :: rat) \<le> of_int x" by (simp only: of_int_le_iff)
  moreover have "(of_int x :: rat) \<le> of_int (2 ^ 64)" using x(2) by (simp only: of_int_le_iff)
  ultimately have X: "1 \<le> X" "X \<le> 2 ^ 64" by (simp_all add: X_def)
  have acc: "accurate 53 (fl_double F)" "accurate 24 (fl_float F)" using A by (simp_all add: fp_accurate_def)
  let ?a = "fl_double F X"
  have a: "near (1 / 2 ^ 53) X ?a" using double_near [OF F A x] by (simp add: X_def)
  have "1 / 2 ^ 53 * X \<le> 1 * X" using X by (intro mult_right_mono) simp_all
  then have a0: "0 \<le> ?a" using a X unfolding near_def by linarith
  have i: "near (2 * (1 / 2 ^ 50)) (1 / D) (1 / d)" using near_inverse [OF d] D by simp
  have XD: "1 / 2 ^ 96 \<le> X / D" "X / D \<le> 2 ^ 64"
    using X D frac_le [of X 1 D "2 ^ 96"] frac_le [of "2 ^ 64" X 1 D] by simp_all
  have r: "1 / 2 ^ 110 \<le> X / D" "X / D \<le> 2 ^ 110" "0 \<le> X / D"
    "1 / 2 ^ 110 \<le> 100 * X / D" "100 * X / D \<le> 2 ^ 110" "0 \<le> 100 * X / D"
    using XD order_trans [OF _ XD(1), of "1 / 2 ^ 110"] order_trans [OF XD(2), of "2 ^ 110"] X D
    by (simp_all add: divide_simps)
  have "near (1 / 2 ^ 53) (X / D) (?a / D)" using near_scale [OF a, of "1 / D"] D by simp
  moreover have "near (2 * (1 / 2 ^ 50)) (?a / D) (?a / d)" using near_scale [OF i a0] by simp
  ultimately have q: "near (1 / 2 ^ 48) (X / D) (?a / d)"
    by (rule near_weaken [OF near_trans]) (rule r | simp)+
  have "near (1 / 2 ^ 47) (X / D) (fl_double F (?a / d))"
    by (rule near_weaken [OF near_round [OF q _ _ _ acc(1)]]) (rule r | simp)+
  from near_scale [OF this, of 100]
  have h: "near (1 / 2 ^ 47) (100 * X / D) (fl_double F (?a / d) * 100)" by (simp add: mult.commute)
  have "near (1 / 2 ^ 46) (100 * X / D) (fl_double F (fl_double F (?a / d) * 100))"
    by (rule near_weaken [OF near_round [OF h _ _ _ acc(1)]]) (rule r | simp)+
  then have "near (1 / 10 ^ 6) (100 * X / D) (percent F ?a d)"
    unfolding percent_def by (rule near_weaken [OF near_round [OF _ _ _ _ acc(2)]]) (rule r | simp)+
  then show ?thesis by (simp only: X_def)
qed

section \<open>What the last two readings show\<close>

text \<open>The fields of the system part: whether there is a reading, the last one, and the shown loads.\<close>

definition system_view :: "CpuMonitor \<Rightarrow> bool \<times> (UINT64 \<times> UINT64 \<times> UINT64) \<times> rat \<times> rat \<times> rat" where
  "system_view m = (mSysCpuInitialized m, (mSysLastIdle m, mSysLastKernel m, mSysLastUser m),
     mProcessorTotal m, mProcessorUser m, mProcessorKernel m)"

definition process_view :: "CpuMonitor \<Rightarrow> int \<times> bool \<times> (UINT64 \<times> UINT64 \<times> UINT64) \<times> rat \<times> rat \<times> rat" where
  "process_view m = (mNumberOfProcessors m, mProcCpuInitialized m, (mProcLastTime m, mProcLastKernel m, mProcLastUser m),
     mProcessTotal m, mProcessUser m, mProcessKernel m)"

text \<open>What one more reading makes of a monitor whose last reading it follows.\<close>

definition system_loads :: "fp \<Rightarrow> UINT64 \<times> UINT64 \<times> UINT64 \<Rightarrow> UINT64 \<times> UINT64 \<times> UINT64 \<Rightarrow> rat \<times> rat \<times> rat" where
  "system_loads F r r' = (case system_view (Update_system F (Some r') (monitor_new\<lparr>mSysCpuInitialized := True,
     mSysLastIdle := fst r, mSysLastKernel := fst (snd r), mSysLastUser := snd (snd r)\<rparr>)) of (b, l, v) \<Rightarrow> v)"

definition process_loads :: "fp \<Rightarrow> int \<Rightarrow> UINT64 \<times> UINT64 \<times> UINT64 \<Rightarrow> UINT64 \<times> UINT64 \<times> UINT64 \<Rightarrow> rat \<times> rat \<times> rat" where
  "process_loads F n r r' = (case process_view (Update_process F (fst r') (Some (snd r')) (monitor_new\<lparr>mNumberOfProcessors := n,
     mProcCpuInitialized := True, mProcLastTime := fst r, mProcLastKernel := fst (snd r), mProcLastUser := snd (snd r)\<rparr>)) of
     (k, b, l, v) \<Rightarrow> v)"

definition shown :: "(UINT64 \<times> UINT64 \<times> UINT64) list \<Rightarrow>
    (UINT64 \<times> UINT64 \<times> UINT64 \<Rightarrow> UINT64 \<times> UINT64 \<times> UINT64 \<Rightarrow> rat \<times> rat \<times> rat) \<Rightarrow>
    bool \<Rightarrow> UINT64 \<times> UINT64 \<times> UINT64 \<Rightarrow> rat \<times> rat \<times> rat \<Rightarrow> bool" where
  "shown rs loads b l v \<longleftrightarrow> (b \<longleftrightarrow> rs \<noteq> []) \<and> (rs \<noteq> [] \<longrightarrow> l = last rs) \<and>
     v = (case rev rs of r' # r # ss \<Rightarrow> loads r r' | _ \<Rightarrow> (0, 0, 0))"

definition system_inv :: "fp \<Rightarrow> (UINT64 \<times> UINT64 \<times> UINT64) list \<Rightarrow> CpuMonitor \<Rightarrow> bool" where
  "system_inv F rs m \<longleftrightarrow> (case system_view m of (b, l, v) \<Rightarrow> shown rs (system_loads F) b l v)"

definition process_inv :: "fp \<Rightarrow> int \<Rightarrow> (UINT64 \<times> UINT64 \<times> UINT64) list \<Rightarrow> CpuMonitor \<Rightarrow> bool" where
  "process_inv F n rs m \<longleftrightarrow> (case process_view m of (k, b, l, v) \<Rightarrow> k = n \<and> shown rs (process_loads F n) b l v)"

lemma shown_snoc:
  assumes "shown rs loads b l v" and "b' = True" and "l' = r'" and "v' = (if b then loads l r' else v)"
  shows "shown (rs @ [r']) loads b' l' v'"
  using assms by (cases rs rule: rev_cases) (auto simp: shown_def)

lemma Update_system_inv:
  assumes "system_inv F rs m"
  shows "system_inv F (rs @ (case r of None \<Rightarrow> [] | Some x \<Rightarrow> [x])) (Update_system F r m)"
proof (cases r)
  case (Some x)
  have "shown (rs @ [x]) (system_loads F) b' l' v'" if "system_view (Update_system F r m) = (b', l', v')" for b' l' v'
    using assms that Some
    by (intro shown_snoc [of rs _ "fst (system_view m)" "fst (snd (system_view m))" "snd (snd (system_view m))"])
       (auto simp: system_inv_def system_view_def Update_system_def system_loads_def Let_def monitor_new_def split: prod.splits if_splits)
  with Some show ?thesis by (auto simp: system_inv_def split: prod.split)
qed (use assms in \<open>simp add: Update_system_def\<close>)

lemma Update_process_inv:
  assumes "process_inv F n rs m"
  shows "process_inv F n (rs @ (case r of None \<Rightarrow> [] | Some x \<Rightarrow> [(t, x)])) (Update_process F t r m)"
proof (cases r)
  case (Some x)
  have "k' = n \<and> shown (rs @ [(t, x)]) (process_loads F n) b' l' v'"
    if "process_view (Update_process F t r m) = (k', b', l', v')" for k' b' l' v'
  proof
    show "k' = n" using assms that
      by (auto simp: process_inv_def process_view_def Update_process_def Let_def split: prod.splits if_splits option.splits)
    show "shown (rs @ [(t, x)]) (process_loads F n) b' l' v'" using assms that Some
      by (intro shown_snoc [of rs _ "fst (snd (process_view m))" "fst (snd (snd (process_view m)))" "snd (snd (snd (process_view m)))"])
       (auto simp: process_inv_def process_view_def Update_process_def process_loads_def Let_def monitor_new_def split: prod.splits if_splits)
  qed
  with Some show ?thesis by (auto simp: process_inv_def split: prod.split)
qed (use assms in \<open>simp add: Update_process_def\<close>)

lemma Update_pdh_views:
  "system_view (fst (Update_pdh F P m ps)) = system_view m" "process_view (fst (Update_pdh F P m ps)) = process_view m"
  by (simp_all add: Update_pdh_def system_view_def process_view_def Let_def split: prod.split)

lemma other_views:
  "system_view (Update_process F t r m) = system_view m" "process_view (Update_system F r' m) = process_view m"
  by (simp_all add: Update_process_def Update_system_def system_view_def process_view_def Let_def split: option.split prod.split)

lemma Update_inv:
  assumes "system_inv F rs (fst st)" and "process_inv F n qs (fst st)"
  shows "system_inv F (rs @ system_readings [x]) (fst (Update F P x st)) \<and>
    process_inv F n (qs @ process_readings [x]) (fst (Update F P x st))"
proof -
  let ?m = "Update_system F (sm_system x) (fst st)"
  have "process_inv F n qs ?m" using assms(2) by (simp add: process_inv_def other_views)
  from Update_process_inv [OF this, where r = "sm_process x" and t = "sm_now x"]
    Update_system_inv [OF assms(1), where r = "sm_system x"]
  show ?thesis
    by (auto simp: Update_def system_inv_def process_inv_def Update_pdh_views other_views system_readings_def
        process_readings_def List.map_filter_def split: option.splits)
qed

lemma updates_inv:
  "system_inv F rs (fst st) \<Longrightarrow> process_inv F n qs (fst st) \<Longrightarrow>
   system_inv F (rs @ system_readings xs) (fst (updates F P xs st)) \<and>
   process_inv F n (qs @ process_readings xs) (fst (updates F P xs st))"
proof (induction xs arbitrary: st rs qs)
  case (Cons x xs)
  have s: "system_readings (x # xs) = system_readings [x] @ system_readings xs"
    "process_readings (x # xs) = process_readings [x] @ process_readings xs"
    by (simp_all add: system_readings_def process_readings_def List.map_filter_def)
  have u: "system_inv F (rs @ system_readings [x]) (fst (Update F P x st))"
    "process_inv F n (qs @ process_readings [x]) (fst (Update F P x st))"
    using Update_inv [OF Cons.prems] by blast+
  show ?case using Cons.IH [OF u] by (simp only: s append_assoc updates.simps)
qed (simp add: system_readings_def process_readings_def List.map_filter_def)

section \<open>The loads of a reading\<close>

lemma to_double_int: "0 \<le> x \<Longrightarrow> x < 2 ^ 64 \<Longrightarrow> to_double F (word_of_int x) = fl_double F (of_int x)"
  by (simp add: to_double_def uint_word_of_int)

lemma word64_zero: "0 \<le> x \<Longrightarrow> x < 2 ^ 64 \<Longrightarrow> (word_of_int x :: UINT64) = 0 \<longleftrightarrow> x = 0"
  using uint_word_of_int [of x, where 'a = 64] by (auto simp: word_uint_eq_iff)

lemma percentage_near:
  assumes "fp_laws F" "fp_accurate F" "0 \<le> x" "x < 2 ^ 64" "near (1 / 2 ^ 50) (of_int D) d" "1 \<le> D" "D \<le> 2 ^ 96"
  shows "percentage x D (percent F (fl_double F (of_int x)) d)"
proof -
  have "(of_int 1 :: rat) \<le> of_int D" "(of_int D :: rat) \<le> of_int (2 ^ 96)" using assms(6,7) by (simp_all only: of_int_le_iff)
  then show ?thesis using percent_near [OF assms(1-5)] assms(6) by (simp add: percentage_def)
qed

lemma system_loads_near:
  assumes F: "fp_laws F" and A: "fp_accurate F" and p: "passed c c' = (i, b, u)" and a: "advances (i, b, u)"
    and l: "system_loads F (system_reading c) (system_reading c') = (tot, usr, ker)"
  shows "percentage (b + u) (i + b + u) tot \<and> percentage u (i + b + u) usr \<and> percentage b (i + b + u) ker \<and>
    0 \<le> usr \<and> usr \<le> tot \<and> 0 \<le> ker \<and> ker \<le> tot \<and> tot \<le> 100"
proof -
  have n: "0 \<le> i" "0 \<le> b" "0 \<le> u" "i + b + u < 2 ^ 64" using a by (simp_all add: advances_def)
  let ?w = "word_of_int :: int \<Rightarrow> UINT64"
  let ?D = "to_double F (?w (i + b + u))"
  have e: "system_loads F (system_reading c) (system_reading c') =
     (if ?w (i + b + u) = 0 then (0, 0, 0)
      else (percent F (to_double F (?w (b + u))) ?D, percent F (to_double F (?w u)) ?D, percent F (to_double F (?w b)) ?D))"
    using p by (auto simp: system_loads_def Update_system_def system_view_def monitor_new_def Let_def system_reading_def
        passed_def algebra_simps split: prod.splits)
  show ?thesis
  proof (cases "i + b + u = 0")
    case True
    with e l show ?thesis by (simp add: percentage_def)
  next
    case False
    have z: "?w (i + b + u) \<noteq> 0" using False n word64_zero [of "i + b + u"] by simp
    have D: "?D = fl_double F (of_int (i + b + u))" using n by (intro to_double_int) simp_all
    have d: "near (1 / 2 ^ 50) (of_int (i + b + u)) ?D" unfolding D
      by (rule near_weaken [OF double_near [OF F A]]) (use n in simp_all)
    have pos: "1 \<le> ?D"
      using False n rounding_ge [OF fp_rounding(1) [OF F], of 1 "of_int (i + b + u)"]
      unfolding D by (simp add: of_int_add [symmetric] del: of_int_add)
    have le: "fl_double F (of_int x) \<le> fl_double F (of_int y)" if "x \<le> y" for x y
      using that by (intro rounding_le [OF fp_rounding(1) [OF F]]) simp
    have v: "tot = percent F (fl_double F (of_int (b + u))) ?D" "usr = percent F (fl_double F (of_int u)) ?D"
      "ker = percent F (fl_double F (of_int b)) ?D"
      using e l z n to_double_int [of "b + u" F] to_double_int [of u F] to_double_int [of b F] by simp_all
    have g: "percentage x (i + b + u) (percent F (fl_double F (of_int x)) ?D)" if "0 \<le> x" "x \<le> i + b + u" for x
      using that n False by (intro percentage_near [OF F A _ _ d]) (simp_all)
    have r: "0 \<le> percent F (fl_double F (of_int x)) ?D \<and> percent F (fl_double F (of_int x)) ?D \<le> 100"
      if "0 \<le> x" "x \<le> i + b + u" for x
      using that pos le [of x "i + b + u"] le [of 0 x] rounding_exact [OF fp_rounding(1) [OF F], of 0]
      unfolding D by (intro percent_range [OF F]) simp_all
    have m: "percent F (fl_double F (of_int x)) ?D \<le> percent F (fl_double F (of_int y)) ?D" if "x \<le> y" for x y
      using le [OF that] pos by (intro percent_mono [OF F]) simp_all
    show ?thesis unfolding v
      using g [of "b + u"] g [of u] g [of b] r [of "b + u"] r [of u] r [of b] m [of u "b + u"] m [of b "b + u"] n
      by (simp del: of_int_add)
  qed
qed

lemma process_loads_near:
  assumes F: "fp_laws F" and A: "fp_accurate F" and p: "passed d d' = (t, k, u)" and a: "advances (t, k, u)"
    and n: "0 < n" "n < 2 ^ 31" and l: "process_loads F n (process_reading d) (process_reading d') = (tot, usr, ker)"
  shows "percentage (k + u) (n * t) tot \<and> percentage u (n * t) usr \<and> percentage k (n * t) ker \<and>
    0 \<le> usr \<and> usr \<le> tot \<and> 0 \<le> ker \<and> ker \<le> tot"
proof -
  have s: "0 \<le> t" "0 \<le> k" "0 \<le> u" "t + k + u < 2 ^ 64" using a by (simp_all add: advances_def)
  let ?w = "word_of_int :: int \<Rightarrow> UINT64"
  let ?D = "fl_double F (fl_double F (of_int n) * to_double F (?w t))"
  have e: "process_loads F n (process_reading d) (process_reading d') =
     (if ?w t = 0 then (0, 0, 0)
      else (percent F (to_double F (?w (u + k))) ?D, percent F (to_double F (?w u)) ?D, percent F (to_double F (?w k)) ?D))"
    using p n by (auto simp: process_loads_def Update_process_def process_view_def monitor_new_def Let_def process_reading_def
        passed_def algebra_simps split: prod.splits)
  show ?thesis
  proof (cases "t = 0")
    case True
    with e l show ?thesis by (simp add: percentage_def)
  next
    case False
    have z: "?w t \<noteq> 0" using False s word64_zero [of t] by simp
    have nt: "1 \<le> n * t" "n * t \<le> 2 ^ 31 * 2 ^ 64"
      using False s n mult_mono [of 1 n 1 t] mult_mono [of n "2 ^ 31" t "2 ^ 64"] by simp_all
    have "near (1 / 2 ^ 53) (of_int t) (to_double F (?w t))"
      using double_near [OF F A, of t] to_double_int [of t F] s by simp
    from near_scale [OF this, of "of_int n"]
    have q: "near (1 / 2 ^ 53) (of_int (n * t)) (fl_double F (of_int n) * to_double F (?w t))"
      using n rounding_exact [OF fp_rounding(1) [OF F], of n] by simp
    have ge: "(1 :: rat) \<le> of_int (n * t)" "(of_int (n * t) :: rat) \<le> 2 ^ 96"
    proof -
      have "(of_int 1 :: rat) \<le> of_int (n * t)" "(of_int (n * t) :: rat) \<le> of_int (2 ^ 96)"
        using nt by (simp_all only: of_int_le_iff) simp
      then show "(1 :: rat) \<le> of_int (n * t)" "(of_int (n * t) :: rat) \<le> 2 ^ 96" by (simp_all del: of_int_mult)
    qed
    have d: "near (1 / 2 ^ 50) (of_int (n * t)) ?D"
      by (rule near_weaken [OF near_round [OF q, of 53]]) (use ge A in \<open>simp_all add: fp_accurate_def del: of_int_mult\<close>)
    then have pos: "0 < ?D" using near_inverse [OF d] ge(1) by simp
    have le: "fl_double F (of_int x) \<le> fl_double F (of_int y)" if "x \<le> y" for x y
      using that by (intro rounding_le [OF fp_rounding(1) [OF F]]) simp
    have v: "tot = percent F (fl_double F (of_int (k + u))) ?D" "usr = percent F (fl_double F (of_int u)) ?D"
      "ker = percent F (fl_double F (of_int k)) ?D"
      using e l z s to_double_int [of "k + u" F] to_double_int [of u F] to_double_int [of k F] by (simp_all add: add.commute)
    have g: "percentage x (n * t) (percent F (fl_double F (of_int x)) ?D)" if "0 \<le> x" "x \<le> k + u" for x
      using that s nt by (intro percentage_near [OF F A _ _ d]) simp_all
    have m: "percent F (fl_double F (of_int x)) ?D \<le> percent F (fl_double F (of_int y)) ?D" if "x \<le> y" for x y
      using le [OF that] pos by (intro percent_mono [OF F])
    have z0: "percent F (fl_double F (of_int 0)) ?D = 0"
      using rounding_exact [OF fp_rounding(1) [OF F], of 0] rounding_exact [OF fp_rounding(2) [OF F], of 0]
      by (simp add: percent_def)
    show ?thesis unfolding v
      using g [of "k + u"] g [of u] g [of k] m [of u "k + u"] m [of k "k + u"] m [of 0 u] m [of 0 k] z0 s
      by (simp del: of_int_add)
  qed
qed

section \<open>The constructor\<close>

text \<open>A monitor starts without readings, all loads at 0.\<close>

definition keeps :: "(CpuMonitor \<Rightarrow> bool) \<Rightarrow> (bool \<times> CpuMonitor \<times> 'p) res \<Rightarrow> bool" where
  "keeps I r = (case r of Inl e \<Rightarrow> True | Inr (b, m, ps) \<Rightarrow> I m)"

lemma keepsD: "keeps I (Inr (b, m, ps)) \<Longrightarrow> I m"
  by (simp add: keeps_def)

lemma add_counter_keeps:
  assumes "keeps I r" and "\<And>h m. I m \<Longrightarrow> I (store h m)"
  shows "keeps I (add_counter P text store r)"
proof (cases r)
  case (Inr a)
  obtain b m ps where a: "a = (b, m, ps)" by (cases a)
  show ?thesis
  proof (cases "swprintf_s 512 text")
    case (Inr path)
    show ?thesis using assms \<open>r = Inr a\<close> a Inr by (cases "PdhAddCounter P (mQuery m) path ps")
        (auto simp: add_counter_def keeps_def split: option.split)
  qed (use assms(1) \<open>r = Inr a\<close> a in \<open>simp add: add_counter_def keeps_def\<close>)
qed (simp add: add_counter_def keeps_def)

definition load_start :: "int \<Rightarrow> CpuMonitor \<Rightarrow> bool" where
  "load_start n m \<longleftrightarrow> (\<exists>l l'. system_view m = (False, l, 0, 0, 0) \<and> process_view m = (n, False, l', 0, 0, 0))"

lemma load_start_counters [simp]:
  "load_start n (m\<lparr>mNonPagedMemoryCounter := h\<rparr>) = load_start n m"
  "load_start n (m\<lparr>mAvailableMemoryCounter := h\<rparr>) = load_start n m"
  "load_start n (m\<lparr>mProcessThreadCountCounter := h\<rparr>) = load_start n m"
  "load_start n (m\<lparr>mProcessHandleCountCounter := h\<rparr>) = load_start n m"
  "load_start n (m\<lparr>mProcessNonPagedMemoryCounter := h\<rparr>) = load_start n m"
  "load_start n (m\<lparr>mProcessUserMemoryCounter := h\<rparr>) = load_start n m"
  "load_start n (m\<lparr>mNics := ns\<rparr>) = load_start n m"
  by (simp_all add: load_start_def system_view_def process_view_def)

lemma AddProcessCounters_keeps:
  assumes "load_start n m"
  shows "keeps (load_start n) (AddProcessCounters P m ps)"
proof (cases "mQuery m = 0 \<or> mPdhProcessInstance m = []")
  case True
  with assms show ?thesis by (auto simp: AddProcessCounters_def keeps_def)
next
  case False
  have k: "keeps (load_start n) (Inr (True, m, ps))" using assms by (simp add: keeps_def)
  from False show ?thesis
    unfolding AddProcessCounters_def
    by (simp only: de_Morgan_disj if_False) (intro add_counter_keeps k; simp only: load_start_counters)
qed

lemma AddEthernetCounters_keeps: "load_start n m \<Longrightarrow> keeps (load_start n) (AddEthernetCounters P m ps)"
  by (auto simp: AddEthernetCounters_def keeps_def andThen_def
      split: option.split sum.split prod.split)

lemma CpuMonitor_init_starts:
  assumes "CpuMonitor_init P pid n img ps = Inr (m, ps')"
  shows "load_start (sint n) m"
proof -
  have new: "load_start (sint n) (monitor_new\<lparr>mPid := pid, mNumberOfProcessors := sint n, mQuery := q, mPdhProcessInstance := i\<rparr>)"
    "load_start (sint n) (monitor_new\<lparr>mPid := pid, mNumberOfProcessors := sint n\<rparr>)" for q i
    by (simp_all add: load_start_def system_view_def process_view_def monitor_new_def)
  show ?thesis
  proof (cases "PdhOpenQuery P ps")
    case (Pair q ps1)
    show ?thesis
    proof (cases q)
      case None
      with Pair assms new(2) show ?thesis by (auto simp: CpuMonitor_init_def Let_def)
    next
      case (Some q)
      with Pair assms obtain i m1 ps2 b1 ps3 b2 ps4 where
        a: "AddProcessCounters P (monitor_new\<lparr>mPid := pid, mNumberOfProcessors := sint n, mQuery := q, mPdhProcessInstance := i\<rparr>) ps2 =
            Inr (b1, m1, ps3)" "AddEthernetCounters P m1 ps3 = Inr (b2, m, ps4)"
        by (auto simp: CpuMonitor_init_def Let_def andThen_eq_Inr)
      have "load_start (sint n) m1" using AddProcessCounters_keeps [OF new(1)] a(1) keepsD by metis
      then show ?thesis using AddEthernetCounters_keeps a(2) keepsD by metis
    qed
  qed
qed

lemma load_start_inv: "load_start n m \<Longrightarrow> system_inv F [] m \<and> process_inv F n [] m"
  by (auto simp: load_start_def system_inv_def process_inv_def shown_def)

text \<open>
  C34. The loads shown are those of the clocks. Take a monitor made by its constructor and any
  number of updates of which at least two could read the processor times and two the times of the
  process; the last two readings come from counters that have not gone back. Then the load shown for the
  machine is the time not idle, in per cent of all time that has passed on its processors, its user
  and kernel share are the user time and the busy kernel time (idle time is not counted), and the load of the
  process is its user and kernel time in per cent of the time that has passed on all processors:
  each up to one part in a million, whatever the rounding of the floating point unit, and 0 when no time has
  passed. The load of the machine is at most 100, and no share exceeds its total.
\<close>

theorem cpu_load_shown:
  assumes "fp_laws F" and "fp_accurate F" and "CpuMonitor_init P pid n img ps = Inr st" and "0 < sint n"
    and "system_readings xs = rs @ [system_reading c, system_reading c']"
    and "passed c c' = (idle, busy, user)" and "advances (idle, busy, user)"
    and "process_readings xs = qs @ [process_reading d, process_reading d']"
    and "passed d d' = (time, pkern, puser)" and "advances (time, pkern, puser)"
    and "m = fst (updates F P xs st)"
  shows "percentage (busy + user) (idle + busy + user) (mProcessorTotal m) \<and>
    percentage user (idle + busy + user) (mProcessorUser m) \<and> percentage busy (idle + busy + user) (mProcessorKernel m) \<and>
    0 \<le> mProcessorUser m \<and> mProcessorUser m \<le> mProcessorTotal m \<and> 0 \<le> mProcessorKernel m \<and>
    mProcessorKernel m \<le> mProcessorTotal m \<and> mProcessorTotal m \<le> 100 \<and>
    percentage (pkern + puser) (sint n * time) (mProcessTotal m) \<and>
    percentage puser (sint n * time) (mProcessUser m) \<and> percentage pkern (sint n * time) (mProcessKernel m) \<and>
    0 \<le> mProcessUser m \<and> mProcessUser m \<le> mProcessTotal m \<and> 0 \<le> mProcessKernel m \<and>
    mProcessKernel m \<le> mProcessTotal m"
proof -
  have "load_start (sint n) (fst st)" using CpuMonitor_init_starts [of P pid n img ps "fst st" "snd st"] assms(3) by simp
  from load_start_inv [OF this] have i: "system_inv F [] (fst st)" "process_inv F (sint n) [] (fst st)" by blast+
  have "system_inv F (system_readings xs) m" "process_inv F (sint n) (process_readings xs) m"
    using updates_inv [OF i, of xs P] assms(11) by simp_all
  then have l: "system_loads F (system_reading c) (system_reading c') = (mProcessorTotal m, mProcessorUser m, mProcessorKernel m)"
    "process_loads F (sint n) (process_reading d) (process_reading d') = (mProcessTotal m, mProcessUser m, mProcessKernel m)"
    unfolding assms(5,8) by (simp_all add: system_inv_def process_inv_def shown_def system_view_def process_view_def)
  have n31: "sint n < 2 ^ 31" using sint_lt [of n] by simp
  show ?thesis
    using system_loads_near [OF assms(1,2,6,7) l(1)] process_loads_near [OF assms(1,2,9,10,4) n31 l(2)] by blast
qed

text \<open>A PDH that has no counters, and readings, one of which fails: 60 of 100 units idle, 10 of them user time.\<close>

definition no_pdh :: "unit pdh" where
  "no_pdh = \<lparr>PdhOpenQuery = (\<lambda>ps. (None, ps)), PdhCloseQuery = (\<lambda>q ps. ps), PdhEnumSize = (\<lambda>s ps. None),
     PdhEnumObjectItems = (\<lambda>s n ps. None), PdhAddCounter = (\<lambda>q s ps. (None, ps)), PdhCollectQueryData = (\<lambda>q ps. ps),
     PdhGetLong = (\<lambda>c ps. None), PdhGetLarge = (\<lambda>c ps. None), PdhGetDouble = (\<lambda>c ps. None)\<rparr>"

definition demo_readings :: "sample list" where
  "demo_readings =
     [\<lparr>sm_system = Some (1000, 2000, 500), sm_now = 7000, sm_process = Some (40, 30)\<rparr>,
      \<lparr>sm_system = None, sm_now = 7020, sm_process = None\<rparr>,
      \<lparr>sm_system = Some (1060, 2090, 510), sm_now = 7050, sm_process = Some (50, 45)\<rparr>]"

theorem cpu_load_shown_witness:
  "\<exists>m. fst (updates exact_fp no_pdh demo_readings (monitor_new\<lparr>mPid := 9, mNumberOfProcessors := 2\<rparr>, ())) = m \<and>
     mProcessorTotal m = 40 \<and> percentage 30 100 (mProcessorKernel m) \<and> mProcessTotal m = 25 \<and> percentage 15 100 (mProcessUser m)"
proof -
  let ?st = "(monitor_new\<lparr>mPid := 9, mNumberOfProcessors := 2\<rparr>, ())"
  have i: "CpuMonitor_init no_pdh 9 2 None () = Inr ?st" by (simp add: CpuMonitor_init_def no_pdh_def)
  have s: "system_readings demo_readings = [] @ [system_reading (1000, 1000, 500), system_reading (1060, 1030, 510)]"
    "process_readings demo_readings = [] @ [process_reading (7000, 40, 30), process_reading (7050, 50, 45)]"
    by (simp_all add: demo_readings_def system_readings_def process_readings_def system_reading_def process_reading_def
        List.map_filter_def)
  have t: "mProcessorTotal (fst (updates exact_fp no_pdh demo_readings ?st)) = 40"
    "mProcessTotal (fst (updates exact_fp no_pdh demo_readings ?st)) = 25"
    by (simp_all add: demo_readings_def monitor_new_def Update_def Update_system_def Update_process_def Update_pdh_def
        Let_def percent_def to_double_def exact_fp_def)
  have a: "passed (1000, 1000, 500) (1060, 1030, 510) = (60, 30, 10)" "advances (60, 30, 10)"
    "passed (7000, 40, 30) (7050, 50, 45) = (50, 10, 15)" "advances (50, 10, 15)"
    by (simp_all add: passed_def advances_def)
  from cpu_load_shown [OF exact_fp_laws exact_fp_accurate i _ s(1) a(1,2) s(2) a(3,4) refl] t show ?thesis by simp
qed

end
