(* ===== verification/PdhNames.thy ===== *)
theory PdhNames
  imports Performance
begin

text \<open>
  What the monitor makes of the lists of names PDH answers: the process instance it watches and the network
  interfaces it sums over. PDH writes the names into one buffer, each with a terminator, and an empty
  name at the end (\<open>multi_sz\<close>).
\<close>

section \<open>The instance of the process\<close>

definition skipped :: "wstr \<Rightarrow> bool" where
  "skipped name \<longleftrightarrow> wcsicmp_eq name (L ''_Total'') \<or> wcsicmp_eq name (L ''Idle'')"

text \<open>
  The code asks for the process id of an instance by a counter it adds for it: \<open>ask\<close> is the answer and the
  state of PDH after it, \<open>answers\<close> and \<open>asked\<close> the answers to one instance after the other and the state
  behind them.
\<close>

definition id_path :: "wstr \<Rightarrow> wstr" where
  "id_path name = [92] @ L ''Process('' @ name @ L '')'' @ [92] @ L ''ID Process''"

definition ask :: "'p pdh \<Rightarrow> nat \<Rightarrow> wstr \<Rightarrow> 'p \<Rightarrow> DWORD option \<times> 'p" where
  "ask P q name ps =
     (case PdhAddCounter P q (id_path name) ps of
        (None, ps1) \<Rightarrow> (None, ps1)
      | (Some h, ps1) \<Rightarrow> (PdhGetLong P h (PdhCollectQueryData P q ps1), PdhCollectQueryData P q ps1))"

fun answers :: "'p pdh \<Rightarrow> nat \<Rightarrow> wstr list \<Rightarrow> 'p \<Rightarrow> DWORD option list" where
  "answers P q [] ps = []"
| "answers P q (n # ns) ps = fst (ask P q n ps) # answers P q ns (snd (ask P q n ps))"

fun asked :: "'p pdh \<Rightarrow> nat \<Rightarrow> wstr list \<Rightarrow> 'p \<Rightarrow> 'p" where
  "asked P q [] ps = ps"
| "asked P q (n # ns) ps = asked P q ns (snd (ask P q n ps))"

text \<open>
  What a search over the instances \<open>names\<close> comes to when it has asked those of \<open>before\<close> in vain and \<open>rest\<close> is left.
\<close>

definition search_end ::
  "'p pdh \<Rightarrow> nat \<Rightarrow> DWORD \<Rightarrow> 'p \<Rightarrow> wstr list \<Rightarrow> wstr list \<Rightarrow> (wstr option \<times> 'p) res \<Rightarrow> bool" where
  "search_end P q pid ps before rest result =
     (let ps' = asked P q before ps
      in case rest of
           [] \<Rightarrow> result = Inr (None, ps')
         | n # ns \<Rightarrow>
             if 512 \<le> length (id_path n) then result = Inl InvalidParameter
             else fst (ask P q n ps') = Some pid \<and>
               result = (if length n < 260 then Inr (Some n, snd (ask P q n ps')) else Inl InvalidParameter))"

definition searched :: "'p pdh \<Rightarrow> nat \<Rightarrow> DWORD \<Rightarrow> 'p \<Rightarrow> wstr list \<Rightarrow> (wstr option \<times> 'p) res \<Rightarrow> bool" where
  "searched P q pid ps names result \<longleftrightarrow>
     (\<exists>before rest. filter (\<lambda>n. \<not> skipped n) names = before @ rest \<and> (\<forall>n\<in>set before. length (id_path n) < 512) \<and>
        Some pid \<notin> set (answers P q before ps) \<and> search_end P q pid ps before rest result)"

lemma searched_skip: "skipped n \<Longrightarrow> searched P q pid ps (n # ns) result = searched P q pid ps ns result"
  by (simp add: searched_def)

lemma searched_next:
  assumes "\<not> skipped n" and "length (id_path n) < 512" and "fst (ask P q n ps) \<noteq> Some pid"
    and "searched P q pid (snd (ask P q n ps)) ns result"
  shows "searched P q pid ps (n # ns) result"
proof -
  from assms(4) obtain before rest where b: "filter (\<lambda>n. \<not> skipped n) ns = before @ rest"
    "\<forall>n\<in>set before. length (id_path n) < 512" "Some pid \<notin> set (answers P q before (snd (ask P q n ps)))"
    "search_end P q pid (snd (ask P q n ps)) before rest result" by (auto simp: searched_def)
  then have "search_end P q pid ps (n # before) rest result" by (simp add: search_end_def)
  with b assms(1-3) show ?thesis unfolding searched_def by (intro exI [of _ "n # before"] exI [of _ rest]) auto
qed

lemma searched_stop: "\<not> skipped n \<Longrightarrow> search_end P q pid ps [] (n # filter (\<lambda>n. \<not> skipped n) ns) result \<Longrightarrow>
    searched P q pid ps (n # ns) result"
  unfolding searched_def by (intro exI [of _ "[]"] exI [of _ "n # filter (\<lambda>n. \<not> skipped n) ns"]) simp

lemma resolve_loop_searched:
  "\<forall>n\<in>set names. proper n \<Longrightarrow> searched P q pid ps names (resolve_loop P q pid 260 (multi_sz names @ xs) ps)"
proof (induction names arbitrary: ps)
  case Nil
  then show ?case by (simp add: resolve_loop.simps(2) searched_def search_end_def)
next
  case (Cons n ns)
  from Cons.prems have n: "proper n" by simp
  obtain c p where p: "multi_sz (n # ns) @ xs = c # p" "c \<noteq> 0" "0 \<in> set p" "c_str (c # p) = n"
    "drop (length n) p = multi_sz ns @ xs" using multi_sz_Cons [OF n] by blast
  have IH: "searched P q pid ps2 ns (resolve_loop P q pid 260 (multi_sz ns @ xs) ps2)" for ps2
    using Cons.IH [of ps2] Cons.prems by simp
  have path: "[92] @ L ''Process('' @ n @ L '')'' @ [92] @ L ''ID Process'' = id_path n" by (simp add: id_path_def)
  note unfold = resolve_loop.simps(2) Let_def p(2-5) path
  obtain h ps1 where h: "PdhAddCounter P q (id_path n) ps = (h, ps1)" by (cases "PdhAddCounter P q (id_path n) ps")
  consider "skipped n" | "\<not> skipped n" "512 \<le> length (id_path n)" | "\<not> skipped n" "length (id_path n) < 512" by linarith
  then show ?case unfolding p(1)
  proof cases
    case 1
    then have "resolve_loop P q pid 260 (c # p) ps = resolve_loop P q pid 260 (multi_sz ns @ xs) ps"
      using p(2,3) by (simp add: unfold skipped_def)
    with 1 IH show "searched P q pid ps (n # ns) (resolve_loop P q pid 260 (c # p) ps)" by (simp add: searched_skip)
  next
    case 2
    then have "resolve_loop P q pid 260 (c # p) ps = Inl InvalidParameter"
      using p(2,3) unfolding unfold by (simp add: skipped_def swprintf_s_def)
    with 2 show "searched P q pid ps (n # ns) (resolve_loop P q pid 260 (c # p) ps)"
      by (intro searched_stop) (simp_all add: search_end_def)
  next
    case 3
    then have fits: "swprintf_s 512 (id_path n) = Inr (id_path n)" by (simp add: swprintf_s_def)
    have step: "resolve_loop P q pid 260 (c # p) ps =
       (if fst (ask P q n ps) = Some pid
        then (if length n < 260 then Inr (Some n, snd (ask P q n ps)) else Inl InvalidParameter)
        else resolve_loop P q pid 260 (multi_sz ns @ xs) (snd (ask P q n ps)))"
      using 3(1) p(2,3) unfolding unfold fits
      by (cases h) (auto simp: skipped_def ask_def h wcscpy_s_def split: option.split)
    show "searched P q pid ps (n # ns) (resolve_loop P q pid 260 (c # p) ps)"
    proof (cases "fst (ask P q n ps) = Some pid")
      case True
      with 3 show ?thesis unfolding step by (intro searched_stop) (simp_all add: search_end_def)
    next
      case False
      with 3 IH show ?thesis unfolding step by (simp add: searched_next)
    qed
  qed
qed

text \<open>
  C36. The watched process. When PDH lists the instances of processes, the search passes over the total and the idle
  process and asks the others for their process ids in the order of the list, up to the first that
  answers the id searched for. That instance is returned, and none when all have been
  asked in vain; the query is closed then. The process ends instead when the name it would return has 260
  characters or more, or when it comes to a name too long for the path of a counter.
\<close>

theorem process_instance_found:
  assumes "PdhEnumSize P (L ''Process'') ps = Some n" and "0 < n"
    and "PdhEnumObjectItems P (L ''Process'') n ps = Some (multi_sz names @ xs)" and "PdhOpenQuery P ps = (Some q, ps1)"
    and "\<forall>x\<in>set names. proper x"
  shows "\<exists>result. searched P q pid ps1 names result \<and>
    ResolvePdhProcessInstanceByPid P pid 260 ps =
      (case result of Inl e \<Rightarrow> Inl e | Inr (r, ps') \<Rightarrow> Inr (r, PdhCloseQuery P q ps'))"
  using resolve_loop_searched [OF assms(5), of P q pid ps1 xs] assms(1-4)
  by (intro exI [of _ "resolve_loop P q pid 260 (multi_sz names @ xs) ps1"])
     (auto simp: ResolvePdhProcessInstanceByPid_def andThen_def split: sum.split)

section \<open>The network interfaces\<close>

lemma swprintf_s_fits: "length t < n \<Longrightarrow> swprintf_s n t = Inr t"
  by (simp add: swprintf_s_def)

lemma nic_loop_full: "8 \<le> idx \<Longrightarrow> buf \<noteq> [] \<Longrightarrow> nic_loop P q buf idx nics ps = Inr (nics, ps)"
  by (cases buf) (simp_all add: nic_loop.simps(2) PDH_ETHERNET_MAX_def)

text \<open>One turn of the loop.\<close>

lemma nic_loop_turn:
  assumes n: "proper n" "length n < 128" and i: "idx < 8"
  shows "\<exists>nic ps2. nicName nic = n \<and>
    nic_loop P q (multi_sz (n # ns) @ xs) idx nics ps = nic_loop P q (multi_sz ns @ xs) (idx + 1) (nics[idx := nic]) ps2"
proof -
  obtain c p where p: "multi_sz (n # ns) @ xs = c # p" "c \<noteq> 0" "0 \<in> set p" "c_str (c # p) = n"
    "drop (length n) p = multi_sz ns @ xs" using multi_sz_Cons [OF n(1)] by blast
  have fits: "wcscpy_s 128 n = Inr n" "swprintf_s 512 (nic_path n ''Bytes Received/sec'') = Inr (nic_path n ''Bytes Received/sec'')"
    "swprintf_s 512 (nic_path n ''Bytes Sent/sec'') = Inr (nic_path n ''Bytes Sent/sec'')"
    using n(2) by (simp_all add: wcscpy_s_def swprintf_s_fits nic_path_def)
  obtain r ps1 where r: "PdhAddCounter P q (nic_path n ''Bytes Received/sec'') ps = (r, ps1)" by fastforce
  obtain t ps2 where t: "PdhAddCounter P q (nic_path n ''Bytes Sent/sec'') ps1 = (t, ps2)" by fastforce
  show ?thesis
    by (intro exI [of _ "\<lparr>bUse = r \<noteq> None \<and> t \<noteq> None, nicName = n,
        pdhRecv = (case r of None \<Rightarrow> pdhRecv (nics ! idx) | Some h \<Rightarrow> h),
        pdhSend = (case t of None \<Rightarrow> pdhSend (nics ! idx) | Some h \<Rightarrow> h)\<rparr>"] exI [of _ ps2])
      (use i in \<open>simp add: p nic_loop.simps(2) PDH_ETHERNET_MAX_def Let_def fits r t\<close>)
qed

lemma nic_loop_long_name:
  assumes "proper n" and "128 \<le> length n" and "idx < 8"
  shows "nic_loop P q (multi_sz (n # ns) @ xs) idx nics ps = Inl InvalidParameter"
proof -
  obtain c p where p: "multi_sz (n # ns) @ xs = c # p" "c \<noteq> 0" "0 \<in> set p" "c_str (c # p) = n"
    using multi_sz_Cons [OF assms(1)] by blast
  with assms show ?thesis by (simp add: nic_loop.simps(2) PDH_ETHERNET_MAX_def Let_def wcscpy_s_def)
qed

definition short_names :: "nat \<Rightarrow> wstr list \<Rightarrow> bool" where
  "short_names k names \<longleftrightarrow> (\<forall>n\<in>set (take k names). length n < 128)"

lemma short_names_Cons: "0 < k \<Longrightarrow> short_names k (n # ns) \<longleftrightarrow> length n < 128 \<and> short_names (k - 1) ns"
  by (cases k) (auto simp: short_names_def)

lemma nic_loop_names:
  "\<forall>n\<in>set names. proper n \<Longrightarrow> length nics = 8 \<Longrightarrow> idx \<le> 8 \<Longrightarrow>
   if short_names (8 - idx) names
   then \<exists>nics' ps'. nic_loop P q (multi_sz names @ xs) idx nics ps = Inr (nics', ps') \<and> length nics' = 8 \<and>
     map nicName nics' = take 8 (take idx (map nicName nics) @ names @ drop (idx + length names) (map nicName nics)) \<and>
     drop (idx + length names) nics' = drop (idx + length names) nics
   else nic_loop P q (multi_sz names @ xs) idx nics ps = Inl InvalidParameter"
proof (induction names arbitrary: idx nics ps)
  case Nil
  then show ?case by (simp add: nic_loop.simps(2) short_names_def)
next
  case (Cons n ns)
  have n: "proper n" using Cons.prems(1) by simp
  consider "idx = 8" | "idx < 8" "128 \<le> length n" | "idx < 8" "length n < 128" using Cons.prems(3) by linarith
  then show ?case
  proof cases
    case 1
    obtain c p where "multi_sz (n # ns) @ xs = c # p" using multi_sz_Cons [OF n] by blast
    with 1 Cons.prems(2) show ?thesis by (simp add: nic_loop_full short_names_def)
  next
    case 2
    with nic_loop_long_name [OF n] show ?thesis by (simp add: short_names_Cons)
  next
    case 3
    from nic_loop_turn [OF n 3(2,1), of P q ns xs nics ps] obtain nic ps2 where
      t: "nicName nic = n" "nic_loop P q (multi_sz (n # ns) @ xs) idx nics ps = nic_loop P q (multi_sz ns @ xs) (idx + 1) (nics[idx := nic]) ps2"
      by blast
    have "take (idx + 1) (map nicName (nics[idx := nic])) = take idx (map nicName nics) @ [n]"
      using 3 Cons.prems(2) t(1) by (simp add: take_Suc_conv_app_nth map_update)
    with Cons.IH [of "nics[idx := nic]" "idx + 1" ps2] Cons.prems(1,2) 3 show ?thesis
      by (auto simp: t short_names_Cons map_update)
  qed
qed

text \<open>
  The watched interfaces. The monitor has room for 8 interfaces with names of less than 128
  characters. When PDH lists interfaces, the first 8 are taken in the order of the list, further ones are
  ignored, and slots beyond the list stay empty; when one of the first 8 names is longer, the
  process ends.
\<close>

theorem interfaces_listed:
  assumes "mQuery m \<noteq> 0" and "mNics m = replicate 8 nic_new"
    and "PdhEnumSize P (L ''Network Interface'') ps = Some n" and "0 < n"
    and "PdhEnumObjectItems P (L ''Network Interface'') n ps = Some (multi_sz names @ xs)" and "\<forall>x\<in>set names. proper x"
  shows "if \<exists>x\<in>set (take 8 names). 128 \<le> length x
    then AddEthernetCounters P m ps = Inl InvalidParameter
    else \<exists>nics ps'. AddEthernetCounters P m ps = Inr (True, m\<lparr>mNics := nics\<rparr>, ps') \<and> length nics = 8 \<and>
      map nicName (take (length names) nics) = take 8 names \<and>
      drop (length names) nics = replicate (8 - length names) nic_new"
proof -
  have c: "(\<exists>x\<in>set (take 8 names). 128 \<le> length x) \<longleftrightarrow> \<not> short_names 8 names" by (auto simp: short_names_def not_less)
  show ?thesis
  proof (cases "short_names 8 names")
    case True
    with nic_loop_names [OF assms(6), of "replicate 8 nic_new" 0 P "mQuery m" xs ps] obtain nics ps' where
      h: "nic_loop P (mQuery m) (multi_sz names @ xs) 0 (replicate 8 nic_new) ps = Inr (nics, ps')" "length nics = 8"
        "map nicName nics = take 8 (names @ drop (length names) (map nicName (replicate 8 nic_new)))"
        "drop (length names) nics = drop (length names) (replicate 8 nic_new)" by auto
    have "map nicName (take (length names) nics) = take (length names) (map nicName nics)" by (simp add: take_map)
    also have "\<dots> = take 8 names" unfolding h(3) by (cases "length names \<le> 8") simp_all
    finally have names: "map nicName (take (length names) nics) = take 8 names" .
    have "AddEthernetCounters P m ps = Inr (True, m\<lparr>mNics := nics\<rparr>, ps')"
      using h(1) assms(1-5) by (simp add: AddEthernetCounters_def)
    with True h(2,4) names show ?thesis unfolding c by auto
  next
    case False
    with nic_loop_names [OF assms(6), of "replicate 8 nic_new" 0 P "mQuery m" xs ps] assms(1-5) show ?thesis
      unfolding c by (simp add: AddEthernetCounters_def)
  qed
qed

section \<open>A PDH with one process and two interfaces\<close>

definition demo_pdh :: "nat pdh" where
  "demo_pdh = \<lparr>PdhOpenQuery = (\<lambda>ps. (Some 1, ps)), PdhCloseQuery = (\<lambda>q ps. ps), PdhEnumSize = (\<lambda>s ps. Some 30),
     PdhEnumObjectItems = (\<lambda>s n ps. Some (if s = L ''Process'' then multi_sz [L ''Idle'', L ''chat''] @ []
                                          else multi_sz [L ''eth0'', L ''eth1''] @ [])),
     PdhAddCounter = (\<lambda>q s ps. (Some (ps + 1), ps + 1)), PdhCollectQueryData = (\<lambda>q ps. ps),
     PdhGetLong = (\<lambda>c ps. Some 42), PdhGetLarge = (\<lambda>c ps. None), PdhGetDouble = (\<lambda>c ps. None)\<rparr>"

lemma demo_names: "\<forall>x\<in>set [L ''Idle'', L ''chat'']. proper x" "\<forall>x\<in>set [L ''eth0'', L ''eth1'']. proper x"
  by (simp_all add: proper_def)

theorem process_instance_found_witness:
  "ResolvePdhProcessInstanceByPid demo_pdh 42 260 0 = Inr (Some (L ''chat''), 1)"
proof -
  have f: "filter (\<lambda>n. \<not> skipped n) [L ''Idle'', L ''chat''] = [L ''chat'']" by (simp add: skipped_def wcsicmp_eq_def wlower_def)
  have a: "ask demo_pdh 1 (L ''chat'') 0 = (Some 42, 1)" by (simp add: ask_def demo_pdh_def)
  have s: "result = Inr (Some (L ''chat''), 1)" if r: "searched demo_pdh 1 42 0 [L ''Idle'', L ''chat''] result" for result
  proof -
    from r obtain before rest where b: "[L ''chat''] = before @ rest" "Some 42 \<notin> set (answers demo_pdh 1 before 0)"
      "search_end demo_pdh 1 42 0 before rest result" unfolding searched_def f by blast
    with a have "before = []" "rest = [L ''chat'']" by (cases before; auto)+
    with b(3) a show ?thesis by (simp add: search_end_def id_path_def)
  qed
  have "PdhEnumSize demo_pdh (L ''Process'') 0 = Some 30"
    "PdhEnumObjectItems demo_pdh (L ''Process'') 30 0 = Some (multi_sz [L ''Idle'', L ''chat''] @ [])"
    "PdhOpenQuery demo_pdh 0 = (Some 1, 0)" by (simp_all add: demo_pdh_def)
  from process_instance_found [OF this(1) _ this(2,3) demo_names(1), of 42] obtain result where
    r: "searched demo_pdh 1 42 0 [L ''Idle'', L ''chat''] result"
      "ResolvePdhProcessInstanceByPid demo_pdh 42 260 0 =
         (case result of Inl e \<Rightarrow> Inl e | Inr (r, ps') \<Rightarrow> Inr (r, PdhCloseQuery demo_pdh 1 ps'))" by auto
  have "PdhCloseQuery demo_pdh 1 1 = 1" by (simp add: demo_pdh_def)
  with r(2) show ?thesis unfolding s [OF r(1)] by simp
qed

theorem interfaces_listed_witness:
  "\<exists>nics ps'. AddEthernetCounters demo_pdh (monitor_new\<lparr>mQuery := 1\<rparr>) 0 = Inr (True, monitor_new\<lparr>mQuery := 1, mNics := nics\<rparr>, ps') \<and>
     map nicName (take 2 nics) = [L ''eth0'', L ''eth1'']"
proof -
  have "L ''Network Interface'' \<noteq> L ''Process''" by simp
  then have "PdhEnumSize demo_pdh (L ''Network Interface'') 0 = Some 30"
    "PdhEnumObjectItems demo_pdh (L ''Network Interface'') 30 0 = Some (multi_sz [L ''eth0'', L ''eth1''] @ [])"
    by (simp_all add: demo_pdh_def)
  from interfaces_listed [OF _ _ this(1) _ this(2) demo_names(2), of "monitor_new\<lparr>mQuery := 1\<rparr>"] show ?thesis
    by (auto simp: monitor_new_def PDH_ETHERNET_MAX_def numeral_2_eq_2)
qed

end
