(* ===== verification/BigNumber.thy ===== *)
theory BigNumber
  imports Performance
begin

text \<open>
  \<open>GetBigNumberStr\<close> against the usual way to write a number with a comma between groups of three digits.
\<close>

fun group_digits :: "nat \<Rightarrow> wstr" where
  "group_digits n = (if n < 1000 then decimal n else group_digits (n div 1000) @ L '','' @ pad3 (n mod 1000))"

declare group_digits.simps [simp del]

text \<open>The groups of a number of up to four groups.\<close>

definition million :: "nat \<Rightarrow> nat" where "million v = v div 1000000 mod 1000"
definition thousand :: "nat \<Rightarrow> nat" where "thousand v = v div 1000 mod 1000"

lemmas group_defs = million_def thousand_def

definition inner :: "bool \<Rightarrow> nat \<Rightarrow> wstr" where
  "inner shown g = (if shown then pad3 g @ L '','' else [])"

lemma length_inner: "g < 1000 \<Longrightarrow> length (inner shown g) = (if shown then 4 else 0)"
  by (simp add: inner_def length_pad3)

definition number_text :: "(nat \<Rightarrow> bool) \<Rightarrow> nat \<Rightarrow> wstr" where
  "number_text shown v =
     (if v < 1000 then decimal v
      else if v < 1000000 then decimal (thousand v) @ L '','' @ pad3 (v mod 1000)
      else if v < 1000000000 then decimal (million v) @ L '','' @ inner (shown (thousand v)) (thousand v) @ pad3 (v mod 1000)
      else decimal (v div 1000000000) @ L '','' @ inner (shown (million v)) (million v) @
           inner (shown (thousand v)) (thousand v) @ pad3 (v mod 1000))"

lemma group_digits_text: "v < 10 ^ 12 \<Longrightarrow> group_digits v = number_text (\<lambda>_. True) v"
proof -
  assume v: "v < 10 ^ 12"
  have d: "v div 1000 div 1000 = v div 1000000" "v div 1000000 div 1000 = v div 1000000000"
    by (simp_all add: div_mult2_eq [symmetric])
  consider "v < 1000" | "1000 \<le> v" "v < 1000000" | "1000000 \<le> v" "v < 1000000000" | "1000000000 \<le> v" by linarith
  then show ?thesis
  proof cases
    case 1
    then show ?thesis by (subst group_digits.simps) (simp add: number_text_def)
  next
    case 2
    then have "v div 1000 < 1000" by linarith
    with 2 show ?thesis
      by (subst group_digits.simps, subst group_digits.simps) (simp add: number_text_def group_defs)
  next
    case 3
    then have "v div 1000000 < 1000" "\<not> v div 1000 < 1000" by linarith+
    with 3 show ?thesis
      by (subst group_digits.simps, subst group_digits.simps, subst group_digits.simps)
        (simp add: number_text_def group_defs inner_def d)
  next
    case 4
    moreover from v have "v < 1000000000000" by simp
    ultimately have "v div 1000000000 < 1000" "\<not> v div 1000000 < 1000" "\<not> v div 1000 < 1000" by linarith+
    with 4 show ?thesis
      by (subst group_digits.simps, subst group_digits.simps, subst group_digits.simps, subst group_digits.simps)
        (simp add: number_text_def group_defs inner_def d)
  qed
qed

section \<open>What the code prints\<close>

lemma big_group_nat:
  "0 < d \<Longrightarrow> big_group n (int d) (int v, t, first) =
     (if d \<le> v
      then andThen (swprintf_at n t ((if first then decimal (v div d) else pad3 (v div d)) @ L '',''))
             (\<lambda>t1. Inr (int (v mod d), t1, False))
      else Inr (int v, t, first))"
  by (simp add: big_group_def zdiv_int [symmetric] zmod_int [symmetric])

lemmas big_groups =
  big_group_nat [where d = 1000000000, unfolded of_nat_numeral]
  big_group_nat [where d = 1000000, unfolded of_nat_numeral]
  big_group_nat [where d = 1000, unfolded of_nat_numeral]

lemma swprintf_at_fits: "int (length t + length x) < n \<Longrightarrow> swprintf_at n t x = Inr (t @ x)"
  by (simp add: swprintf_at_def)

lemma length_decimal3: "v < 1000 \<Longrightarrow> length (decimal v) \<le> 3"
  using length_decimal [of v 3] by simp

text \<open>An inner group is left out when it is zero.\<close>

lemma GetBigNumberStr_text:
  assumes v: "v < 10 ^ 12" and n: "16 \<le> n"
  shows "GetBigNumberStr (int v) (Some s) n = Inr (Some (number_text (\<lambda>g. g \<noteq> 0) v))"
proof -
  define a where "a = v mod 1000000000"
  define b where "b = a mod 1000000"
  have "a = 1000000 * million v + v mod 1000000"
    using mod_mult2_eq [of v 1000000 1000] by (simp add: a_def million_def)
  moreover have b: "v mod 1000000 = 1000 * thousand v + v mod 1000"
    using mod_mult2_eq [of v 1000 1000] by (simp add: thousand_def)
  ultimately have ab: "a = 1000000 * million v + b" "b = 1000 * thousand v + v mod 1000" "b < 1000000"
    by (simp_all add: b_def)
  then have m: "a div 1000000 = million v" "b div 1000 = thousand v" "b mod 1000 = v mod 1000" by simp_all
  have lt: "million v < 1000" "thousand v < 1000" "v mod 1000 < 1000" "v div 1000000000 < 1000"
    using v by (simp_all add: group_defs)
  have sh: "1000000 \<le> a \<longleftrightarrow> million v \<noteq> 0" "1000 \<le> b \<longleftrightarrow> thousand v \<noteq> 0" using ab mod_less_divisor [of 1000 v] by linarith+
  have z: "million v = 0 \<Longrightarrow> a = b" "thousand v = 0 \<Longrightarrow> b = v mod 1000" "(1000000 \<le> b) = False" using ab by simp_all
  note len = length_decimal3 [OF lt(1)] length_decimal3 [OF lt(2)] length_decimal3 [OF lt(3)] length_decimal3 [OF lt(4)]
    length_pad3 [OF lt(1)] length_pad3 [OF lt(2)] length_pad3 [OF lt(3)]
  consider "v < 1000" | "1000 \<le> v" "v < 1000000" | "1000000 \<le> v" "v < 1000000000" | "1000000000 \<le> v" by linarith
  then show ?thesis
  proof cases
    case 1
    then show ?thesis using n length_decimal3 [OF 1]
      by (simp add: GetBigNumberStr_def big_groups swprintf_at_fits number_text_def)
  next
    case 2
    then have "a = v" "b = v" by (simp_all add: a_def b_def)
    with 2 m have "v div 1000 = thousand v" by simp
    with 2 n len show ?thesis
      by (simp add: GetBigNumberStr_def big_groups swprintf_at_fits number_text_def)
  next
    case 3
    then have a: "a = v" "v mod 1000000 = b" by (simp_all add: a_def b_def)
    with 3 m have d: "v div 1000000 = million v" by simp
    from 3 n len show ?thesis
      by (cases "thousand v = 0")
        (simp_all add: GetBigNumberStr_def big_groups swprintf_at_fits number_text_def a d m sh z inner_def)
  next
    case 4
    have a: "v mod 1000000000 = a" "a mod 1000000 = b" by (simp_all add: a_def b_def)
    from 4 n len show ?thesis
      by (cases "million v = 0"; cases "thousand v = 0")
        (simp_all add: GetBigNumberStr_def big_groups swprintf_at_fits number_text_def a m sh z inner_def)
  qed
qed

section \<open>Where it is right\<close>

text \<open>No inner group of three digits is zero.\<close>

definition no_gap :: "nat \<Rightarrow> bool" where
  "no_gap v \<longleftrightarrow> (v < 1000000 \<or> thousand v \<noteq> 0) \<and> (v < 1000000000 \<or> million v \<noteq> 0)"

lemma number_text_eq: "number_text (\<lambda>g. g \<noteq> 0) v = number_text (\<lambda>_. True) v \<longleftrightarrow> no_gap v"
proof -
  have lt: "million v < 1000" "thousand v < 1000" by (simp_all add: group_defs)
  note len = lt [THEN length_inner]
  have "\<not> no_gap v \<Longrightarrow> length (number_text (\<lambda>g. g \<noteq> 0) v) \<noteq> length (number_text (\<lambda>_. True) v)"
    by (auto simp: number_text_def no_gap_def len)
  moreover have "no_gap v \<Longrightarrow> number_text (\<lambda>g. g \<noteq> 0) v = number_text (\<lambda>_. True) v"
    by (auto simp: number_text_def no_gap_def)
  ultimately show ?thesis by metis
qed

section \<open>What is printed otherwise\<close>

text \<open>A number without its inner groups that are zero; the other groups close up.\<close>

fun skip_zeros :: "nat \<Rightarrow> nat" where
  "skip_zeros n =
     (if n < 1000 then n
      else if n mod 1000 = 0 then skip_zeros (n div 1000)
      else skip_zeros (n div 1000) * 1000 + n mod 1000)"

declare skip_zeros.simps [simp del]

definition close_gaps :: "nat \<Rightarrow> nat" where
  "close_gaps n = (if n < 1000 then n else skip_zeros (n div 1000) * 1000 + n mod 1000)"

lemma skip_zeros_group:
  "n < 1000 \<Longrightarrow> skip_zeros n = n"
  "0 < n \<Longrightarrow> g < 1000 \<Longrightarrow> skip_zeros (n * 1000 + g) = (if g = 0 then skip_zeros n else skip_zeros n * 1000 + g)"
  by (subst skip_zeros.simps, simp)+

lemma skip_zeros_zero: "0 < n \<Longrightarrow> skip_zeros (n * 1000) = skip_zeros n"
  using skip_zeros_group(2) [of n 0] by simp

lemma close_gaps_group: "g < 1000 \<Longrightarrow> close_gaps (n * 1000 + g) = (if n = 0 then g else skip_zeros n * 1000 + g)"
  by (simp add: close_gaps_def)

text \<open>A number below a million millions has one to four groups.\<close>

lemma groups_cases:
  assumes "(v :: nat) < 10 ^ 12"
  obtains (one) g where "g < 1000" "v = g"
  | (two) t g where "0 < t" "t < 1000" "g < 1000" "v = t * 1000 + g"
  | (three) m t g where "0 < m" "m < 1000" "t < 1000" "g < 1000" "v = (m * 1000 + t) * 1000 + g"
  | (four) a m t g where "0 < a" "a < 1000" "m < 1000" "t < 1000" "g < 1000" "v = ((a * 1000 + m) * 1000 + t) * 1000 + g"
proof -
  consider "v < 1000" | "1000 \<le> v" "v < 1000000" | "1000000 \<le> v" "v < 1000000000" | "1000000000 \<le> v" by linarith
  then show thesis
  proof cases
    case 1
    then show thesis by (rule one) simp
  next
    case 2
    then have "0 < v div 1000" "v div 1000 < 1000" by linarith+
    then show thesis using two [of "v div 1000" "v mod 1000"] by simp
  next
    case 3
    then have "0 < v div 1000 div 1000" "v div 1000 div 1000 < 1000" by linarith+
    then show thesis using three [of "v div 1000 div 1000" "v div 1000 mod 1000" "v mod 1000"] by (simp del: distrib_right_numeral)
  next
    case 4
    moreover have "v < 1000000000000" using assms by simp
    ultimately have "0 < v div 1000 div 1000 div 1000" "v div 1000 div 1000 div 1000 < 1000" by linarith+
    then show thesis 
      using four [of "v div 1000 div 1000 div 1000" "v div 1000 div 1000 mod 1000" "v div 1000 mod 1000" "v mod 1000"]
      by (simp del: distrib_right_numeral)
  qed
qed

lemma number_text_groups:
  assumes "m < 1000" "t < 1000" "g < 1000"
  shows "number_text sh g = decimal g"
    and "0 < t \<Longrightarrow> number_text sh (t * 1000 + g) = decimal t @ L '','' @ pad3 g"
    and "0 < m \<Longrightarrow> number_text sh ((m * 1000 + t) * 1000 + g) = decimal m @ L '','' @ inner (sh t) t @ pad3 g"
    and "0 < a \<Longrightarrow> number_text sh (((a * 1000 + m) * 1000 + t) * 1000 + g) =
      decimal a @ L '','' @ inner (sh m) m @ inner (sh t) t @ pad3 g"
proof -
  show "number_text sh g = decimal g" using assms by (simp add: number_text_def)
  have d: "(x * 1000 + y) div 1000 = x" "(x * 1000 + y) mod 1000 = y" if "y < 1000" for x y :: nat using that by simp_all
  have q: "x div 1000000 = x div 1000 div 1000" "x div 1000000000 = x div 1000 div 1000 div 1000" for x :: nat
    by (simp_all add: div_mult2_eq [symmetric])
  note [simp] = number_text_def group_defs q d
  show "0 < t \<Longrightarrow> number_text sh (t * 1000 + g) = decimal t @ L '','' @ pad3 g"
  proof -
    assume "0 < t"
    with assms have "t * 1000 + g < 1000000" "\<not> t * 1000 + g < 1000" by linarith+
    then show ?thesis using assms by simp
  qed
  show "0 < m \<Longrightarrow> number_text sh ((m * 1000 + t) * 1000 + g) = decimal m @ L '','' @ inner (sh t) t @ pad3 g"
  proof -
    assume "0 < m"
    with assms have "\<not> (m * 1000 + t) * 1000 + g < 1000000" "(m * 1000 + t) * 1000 + g < 1000000000" by simp_all
    then show ?thesis using assms by (simp del: distrib_right_numeral)
  qed
  show "0 < a \<Longrightarrow> number_text sh (((a * 1000 + m) * 1000 + t) * 1000 + g) =
      decimal a @ L '','' @ inner (sh m) m @ inner (sh t) t @ pad3 g"
  proof -
    assume "0 < a"
    with assms have "\<not> ((a * 1000 + m) * 1000 + t) * 1000 + g < 1000000000" by simp
    then show ?thesis using assms by (simp del: distrib_right_numeral)
  qed
qed

lemma close_gaps_groups:
  assumes "m < 1000" "t < 1000" "g < 1000"
  shows "close_gaps g = g"
    and "0 < t \<Longrightarrow> close_gaps (t * 1000 + g) = t * 1000 + g"
    and "0 < m \<Longrightarrow> close_gaps ((m * 1000 + t) * 1000 + g) = (if t = 0 then m * 1000 + g else (m * 1000 + t) * 1000 + g)"
    and "0 < a \<Longrightarrow> a < 1000 \<Longrightarrow> close_gaps (((a * 1000 + m) * 1000 + t) * 1000 + g) =
      (if m = 0 then (if t = 0 then a * 1000 + g else (a * 1000 + t) * 1000 + g)
       else if t = 0 then (a * 1000 + m) * 1000 + g else ((a * 1000 + m) * 1000 + t) * 1000 + g)"
  using assms by (simp_all add: close_gaps_group skip_zeros_group skip_zeros_zero close_gaps_def [of g] del: distrib_right_numeral)

lemma no_gap_groups:
  assumes "m < 1000" "t < 1000" "g < 1000"
  shows "no_gap g"
    and "no_gap (t * 1000 + g)"
    and "0 < m \<Longrightarrow> no_gap ((m * 1000 + t) * 1000 + g) \<longleftrightarrow> t \<noteq> 0"
    and "0 < a \<Longrightarrow> a < 1000 \<Longrightarrow> no_gap (((a * 1000 + m) * 1000 + t) * 1000 + g) \<longleftrightarrow> t \<noteq> 0 \<and> m \<noteq> 0"
proof -
  have q: "z div 1000000 = z div 1000 div 1000" for z :: nat by (simp add: div_mult2_eq [symmetric])
  have d: "(x * 1000 + y) div 1000 = x" "(x * 1000 + y) mod 1000 = y" if "y < 1000" for x y :: nat using that by simp_all
  show "no_gap g" "no_gap (t * 1000 + g)" using assms by (simp_all add: no_gap_def)
  show "no_gap ((m * 1000 + t) * 1000 + g) \<longleftrightarrow> t \<noteq> 0" if "0 < m"
  proof -
    have "\<not> (m * 1000 + t) * 1000 + g < 1000000" "(m * 1000 + t) * 1000 + g < 1000000000" using assms that by simp_all
    then show ?thesis using assms by (simp add: no_gap_def group_defs q d del: distrib_right_numeral)
  qed
  show "no_gap (((a * 1000 + m) * 1000 + t) * 1000 + g) \<longleftrightarrow> t \<noteq> 0 \<and> m \<noteq> 0" if "0 < a"
  proof -
    have "\<not> ((a * 1000 + m) * 1000 + t) * 1000 + g < 1000000" "\<not> ((a * 1000 + m) * 1000 + t) * 1000 + g < 1000000000"
      using assms that by simp_all
    then show ?thesis using assms by (simp add: no_gap_def group_defs q d del: distrib_right_numeral)
  qed
qed

lemma close_gaps_text:
  assumes "(v :: nat) < 10 ^ 12"
  shows "number_text (\<lambda>_. True) (close_gaps v) = number_text (\<lambda>g. g \<noteq> 0) v \<and> close_gaps v \<le> v \<and> no_gap (close_gaps v)"
  using assms
proof (cases rule: groups_cases)
  case (one g)
  then show ?thesis by (simp add: close_gaps_groups number_text_groups no_gap_groups)
next
  case (two t g)
  then show ?thesis by (simp add: close_gaps_groups number_text_groups no_gap_groups)
next
  case (three m t g)
  then have "close_gaps v = (if t = 0 then m * 1000 + g else v)" "number_text sh v = decimal m @ L '','' @ inner (sh t) t @ pad3 g"
    "number_text sh (m * 1000 + g) = decimal m @ L '','' @ pad3 g" "no_gap (m * 1000 + g)" "no_gap v \<longleftrightarrow> t \<noteq> 0"
    "m * 1000 + g \<le> v" for sh
    by (simp_all only: close_gaps_groups number_text_groups no_gap_groups split: if_split) simp_all
  then show ?thesis by (simp add: inner_def)
next
  case (four a m t g)
  then have "close_gaps v = (if m = 0 then (if t = 0 then a * 1000 + g else (a * 1000 + t) * 1000 + g)
       else if t = 0 then (a * 1000 + m) * 1000 + g else v)"
    "number_text sh v = decimal a @ L '','' @ inner (sh m) m @ inner (sh t) t @ pad3 g"
    "number_text sh (a * 1000 + g) = decimal a @ L '','' @ pad3 g"
    "number_text sh ((a * 1000 + t) * 1000 + g) = decimal a @ L '','' @ inner (sh t) t @ pad3 g"
    "number_text sh ((a * 1000 + m) * 1000 + g) = decimal a @ L '','' @ inner (sh m) m @ pad3 g"
    "no_gap (a * 1000 + g)" "no_gap ((a * 1000 + t) * 1000 + g) \<longleftrightarrow> t \<noteq> 0" "no_gap ((a * 1000 + m) * 1000 + g) \<longleftrightarrow> m \<noteq> 0"
    "no_gap v \<longleftrightarrow> t \<noteq> 0 \<and> m \<noteq> 0" "a * 1000 + g \<le> v" "(a * 1000 + t) * 1000 + g \<le> v" "(a * 1000 + m) * 1000 + g \<le> v" for sh
    by (simp_all only: close_gaps_groups number_text_groups no_gap_groups split: if_split) simp_all
  then show ?thesis by (simp add: inner_def del: distrib_right_numeral)
qed

text \<open>
  C35. Large numbers. For a number below a million millions and a buffer of at least 16
  characters the text is written without a fault. It is the usual text, with a comma between groups of
  three digits, of the number without its inner groups that are zero: of the number itself exactly when there
  are none. Otherwise a smaller number prints alike.
\<close>

theorem big_number_grouped:
  assumes "v < 10 ^ 12" and "16 \<le> n"
  shows "\<exists>t. GetBigNumberStr (int v) (Some s) n = Inr (Some t) \<and> t = group_digits (close_gaps v) \<and>
    (t = group_digits v \<longleftrightarrow> no_gap v) \<and>
    (\<not> no_gap v \<longrightarrow> close_gaps v < v \<and> GetBigNumberStr (int (close_gaps v)) (Some s) n = Inr (Some t))"
proof -
  let ?c = "close_gaps v" and ?t = "number_text (\<lambda>g. g \<noteq> 0) v"
  note c = close_gaps_text [OF assms(1), THEN conjunct1] close_gaps_text [OF assms(1), THEN conjunct2, THEN conjunct1]
    close_gaps_text [OF assms(1), THEN conjunct2, THEN conjunct2]
  have c12: "?c < 10 ^ 12" using c(2) assms(1) by simp
  have eq: "?t = group_digits v \<longleftrightarrow> no_gap v" by (simp only: group_digits_text [OF assms(1)] number_text_eq)
  have t: "?t = group_digits ?c" by (simp only: group_digits_text [OF c12] c(1))
  have "?c \<noteq> v" if "\<not> no_gap v" using that eq t by auto
  moreover have "number_text (\<lambda>g. g \<noteq> 0) ?c = ?t" using number_text_eq [of ?c] c(1,3) by simp
  ultimately show ?thesis
    using GetBigNumberStr_text [OF assms, of s] GetBigNumberStr_text [OF c12 assms(2), of s] eq t c(2) by auto
qed

theorem big_number_grouped_witness:
  "(\<exists>t. GetBigNumberStr 1000000005 (Some []) 32 = Inr (Some t) \<and> t \<noteq> group_digits 1000000005 \<and>
      GetBigNumberStr 1005 (Some []) 32 = Inr (Some t)) \<and>
   GetBigNumberStr 1234567 (Some []) 32 = Inr (Some (group_digits 1234567))"
proof -
  have g: "\<not> no_gap 1000000005" "no_gap 1234567" by (simp_all add: no_gap_def group_defs)
  have c: "close_gaps 1000000005 = 1005" by (simp add: close_gaps_def skip_zeros.simps)
  from big_number_grouped [of 1000000005 32 "[]"] g(1) c have
    "\<exists>t. GetBigNumberStr 1000000005 (Some []) 32 = Inr (Some t) \<and> t \<noteq> group_digits 1000000005 \<and>
      GetBigNumberStr 1005 (Some []) 32 = Inr (Some t)" by auto
  moreover from big_number_grouped [of 1234567 32 "[]"] g(2)
  have "GetBigNumberStr 1234567 (Some []) 32 = Inr (Some (group_digits 1234567))" by auto
  ultimately show ?thesis by blast
qed

end
