(* ===== verification/Profiler.thy ===== *)
theory Profiler
  imports CRuntime
begin

text \<open>
  The profiler (monitor.h, monitor.cpp): every thread has an array of 50 samples in thread-local
  storage, one per name, and a table of 50 threads names the arrays for the report. Pointers to arrays
  are positions in \<open>sampleArrays\<close> plus 1, with 0 for null; a time is a value of the performance counter.
\<close>

section \<open>The data\<close>

definition dfTAG_NAME_MAX :: nat where "dfTAG_NAME_MAX = 64"
definition dfTHREAD_MAX :: nat where "dfTHREAD_MAX = 50"
definition dfSAMPLE_MAX :: nat where "dfSAMPLE_MAX = 50"

definition DBL_MAX :: rat where
  "DBL_MAX = of_int ((2 ^ 53 - 1) * 2 ^ 971)"

record PROFILE_SAMPLE =
  bFlag :: bool
  szName :: wstr
  lStartTime :: int
  dTotalTime :: rat
  dMin0 :: rat
  dMin1 :: rat
  dMax0 :: rat
  dMax1 :: rat
  iCall :: int

record profiler =
  tlsValue :: "DWORD \<Rightarrow> nat"
  sampleArrays :: "PROFILE_SAMPLE list list"
  stProfileThread :: "(DWORD \<times> nat) list"
  dMicroFrequency :: rat

text \<open>
  What the code gets from Windows and the compiler: whether \<open>TlsSetValue\<close> succeeds, what \<open>wsprintf\<close>
  prints for a format without arguments, and what fresh memory holds.
\<close>

record profile_env =
  tls_ok :: bool
  wsprintf :: "wstr \<Rightarrow> wstr"
  fresh_memory :: "nat \<Rightarrow> PROFILE_SAMPLE"

section \<open>Operations\<close>

text \<open>\<open>freq\<close> is the frequency of the performance counter, \<open>alloc\<close> whether \<open>TlsAlloc\<close> succeeds.\<close>

definition ProfileInit :: "fp \<Rightarrow> int \<Rightarrow> bool \<Rightarrow> bool \<times> profiler" where
  "ProfileInit F freq alloc =
     (alloc, \<lparr>tlsValue = (\<lambda>_. 0), sampleArrays = [], stProfileThread = replicate dfTHREAD_MAX (0, 0),
              dMicroFrequency = fl_double F (fl_double F (of_int freq) / 1000000)\<rparr>)"

text \<open>
  \<open>memset(&pSample[iCnt], 0, sizeof(dfSAMPLE_MAX))\<close> clears 4 bytes: \<open>bFlag\<close> and the first
  character of \<open>szName\<close>, behind one byte of padding.
\<close>

definition clear_sample :: "PROFILE_SAMPLE \<Rightarrow> PROFILE_SAMPLE" where
  "clear_sample s = s\<lparr>bFlag := False, szName := []\<rparr>"

fun register_thread :: "DWORD \<Rightarrow> nat \<Rightarrow> (DWORD \<times> nat) list \<Rightarrow> (DWORD \<times> nat) list" where
  "register_thread t p [] = []"
| "register_thread t p (e # es) = (if fst e = 0 \<and> snd e = 0 then (t, p) # es else e # register_thread t p es)"

definition name_sample :: "wstr \<Rightarrow> PROFILE_SAMPLE \<Rightarrow> PROFILE_SAMPLE" where
  "name_sample text s = s\<lparr>bFlag := True, szName := text, lStartTime := 0, dTotalTime := 0, dMin0 := DBL_MAX, dMin1 := DBL_MAX,
                          dMax0 := 0, dMax1 := 0, iCall := 0\<rparr>"

text \<open>The loop over the samples from number \<open>i\<close> on: the number of the sample found or made, and the samples.\<close>

fun sample_loop :: "(wstr \<Rightarrow> wstr) \<Rightarrow> wstr \<Rightarrow> nat \<Rightarrow> PROFILE_SAMPLE list \<Rightarrow> (nat option \<times> PROFILE_SAMPLE list) res" where
  "sample_loop fmt pszName i [] = Inr (None, [])"
| "sample_loop fmt pszName i (s # ss) =
     (if bFlag s \<and> szName s = pszName then Inr (Some i, s # ss)
      else if szName s = []
      then (if length (fmt pszName) < dfTAG_NAME_MAX then Inr (Some i, name_sample (fmt pszName) s # ss)
            else Inl OutOfBoundsWrite)
      else andThen (sample_loop fmt pszName (i + 1) ss) (\<lambda>(r, ss'). Inr (r, s # ss')))"

text \<open>\<open>GetSample\<close> in thread \<open>t\<close>: the value returned, the sample (array and number), and the state.\<close>

definition GetSample ::
  "profile_env \<Rightarrow> DWORD \<Rightarrow> wstr \<Rightarrow> profiler \<Rightarrow> (bool \<times> (nat \<times> nat) option \<times> profiler) res" where
  "GetSample E t pszName st =
     (let fresh = tlsValue st t = 0;
          st1 = (if fresh
                 then st\<lparr>sampleArrays := sampleArrays st @ [map (\<lambda>k. clear_sample (fresh_memory E k)) [0..<dfSAMPLE_MAX]]\<rparr>
                 else st);
          p = (if fresh then length (sampleArrays st1) else tlsValue st t)
      in if fresh \<and> \<not> tls_ok E then Inr (False, None, st1)
         else
           let st2 = (if fresh
                      then st1\<lparr>tlsValue := (tlsValue st1)(t := p), stProfileThread := register_thread t p (stProfileThread st1)\<rparr>
                      else st1)
           in andThen (sample_loop (wsprintf E) pszName 0 (sampleArrays st2 ! (p - 1))) (\<lambda>(r, ss).
                Inr (True, map_option (Pair p) r, st2\<lparr>sampleArrays := (sampleArrays st2)[p - 1 := ss]\<rparr>)))"

definition upd_sample :: "nat \<times> nat \<Rightarrow> (PROFILE_SAMPLE \<Rightarrow> PROFILE_SAMPLE) \<Rightarrow> profiler \<Rightarrow> profiler" where
  "upd_sample sp f st =
     (case sp of (p, i) \<Rightarrow>
        let ss = sampleArrays st ! (p - 1) in st\<lparr>sampleArrays := (sampleArrays st)[p - 1 := ss[i := f (ss ! i)]]\<rparr>)"

definition get_sample :: "nat \<times> nat \<Rightarrow> profiler \<Rightarrow> PROFILE_SAMPLE" where
  "get_sample sp st = sampleArrays st ! (fst sp - 1) ! snd sp"

definition ProfileBegin :: "profile_env \<Rightarrow> DWORD \<Rightarrow> int \<Rightarrow> wstr \<Rightarrow> profiler \<Rightarrow> (bool \<times> profiler) res" where
  "ProfileBegin E t time name st =
     andThen (GetSample E t name st) (\<lambda>(b, r, st1).
       case r of None \<Rightarrow> Inr (False, st1)
       | Some sp \<Rightarrow>
           if lStartTime (get_sample sp st1) \<noteq> 0 then Inr (False, st1)
           else Inr (True, upd_sample sp (\<lambda>s. s\<lparr>lStartTime := time\<rparr>) st1))"

text \<open>What \<open>ProfileEnd\<close> does to its sample.\<close>

definition end_sample :: "fp \<Rightarrow> rat \<Rightarrow> int \<Rightarrow> PROFILE_SAMPLE \<Rightarrow> PROFILE_SAMPLE" where
  "end_sample F micro lEndTime s =
     (let ticks = fl_double F (of_int (lEndTime - lStartTime s));
          us = fl_double F (ticks / micro);
          s1 = (if dMax1 s < ticks then s\<lparr>dMax0 := dMax1 s, dMax1 := us\<rparr> else s);
          s2 = (if dMin1 s1 > ticks then s1\<lparr>dMin0 := dMin1 s1, dMin1 := us\<rparr> else s1)
      in s2\<lparr>dTotalTime := fl_double F (dTotalTime s2 + us), iCall := iCall s2 + 1, lStartTime := 0\<rparr>)"

definition ProfileEnd :: "fp \<Rightarrow> profile_env \<Rightarrow> DWORD \<Rightarrow> int \<Rightarrow> wstr \<Rightarrow> profiler \<Rightarrow> (bool \<times> profiler) res" where
  "ProfileEnd F E t time name st =
     andThen (GetSample E t name st) (\<lambda>(b, r, st1).
       case r of None \<Rightarrow> Inr (False, st1)
       | Some sp \<Rightarrow> Inr (True, upd_sample sp (end_sample F (dMicroFrequency st1) time) st1))"

section \<open>The report\<close>

text \<open>
  \<open>row\<close> is what \<open>swprintf_s\<close> prints for a thread, a name, the average (\<open>None\<close>: not a number, a division
  by no calls), the least and the greatest time and the number of calls.
\<close>

type_synonym row_format = "DWORD \<Rightarrow> wstr \<Rightarrow> rat option \<Rightarrow> rat \<Rightarrow> rat \<Rightarrow> int \<Rightarrow> wstr"

fun save_samples :: "fp \<Rightarrow> row_format \<Rightarrow> DWORD \<Rightarrow> PROFILE_SAMPLE list \<Rightarrow> wstr list res" where
  "save_samples F row t [] = Inr []"
| "save_samples F row t (s # ss) =
     (if \<not> bFlag s then Inr []
      else
        let average = (if iCall s = 0 then None else Some (fl_double F (dTotalTime s / of_int (iCall s))))
        in andThen (swprintf_s 500 (row t (szName s) average (dMin1 s) (dMax1 s) (iCall s))) (\<lambda>line.
           andThen (save_samples F row t ss) (\<lambda>rest. Inr (line # rest))))"

definition rule_line :: wstr where
  "rule_line = L ''------------------------------------------------------------------------------------------------------------ - '' @ [13, 10]"

definition head_line :: wstr where
  "head_line = L ''ThreadID |                Name  |           Average  |            Min   |            Max   |          Call |'' @ [13, 10]"

text \<open>The condition of the loop over the table of threads is the constant 50: only an unused entry ends it.\<close>

fun save_threads :: "fp \<Rightarrow> row_format \<Rightarrow> PROFILE_SAMPLE list list \<Rightarrow> (DWORD \<times> nat) list \<Rightarrow> wstr list res" where
  "save_threads F row arrays [] = Inl OutOfBoundsRead"
| "save_threads F row arrays (e # es) =
     (if fst e = 0 then Inr []
      else if snd e = 0 then Inl NullPointer
      else
        andThen (save_samples F row (fst e) (arrays ! (snd e - 1))) (\<lambda>rows.
        andThen (save_threads F row arrays es) (\<lambda>rest. Inr (rows @ [rule_line] @ rest))))"

text \<open>The lines appended to the file; \<open>opened\<close>: \<open>_wfopen_s\<close> succeeds, otherwise \<open>fp\<close> is null.\<close>

definition SaveProfile :: "fp \<Rightarrow> row_format \<Rightarrow> bool \<Rightarrow> profiler \<Rightarrow> (bool \<times> wstr list) res" where
  "SaveProfile F row opened st =
     (if \<not> opened then Inl NullPointer
      else andThen (save_threads F row (sampleArrays st) (stProfileThread st)) (\<lambda>rows.
             Inr (True, [rule_line, head_line, rule_line] @ rows)))"

end
