(* ===== verification/ProfileRuns.thy ===== *)
theory ProfileRuns
  imports Profiler
begin

text \<open>
  The profiler against its specification: a map from threads and names to samples, where every
  operation touches the sample of its thread and name only.
\<close>

section \<open>The samples of a thread as a map\<close>

definition sample_map :: "PROFILE_SAMPLE list \<Rightarrow> wstr \<rightharpoonup> PROFILE_SAMPLE" where
  "sample_map ss = map_of (map (\<lambda>s. (szName s, s)) (filter bFlag ss))"

definition new_sample :: "wstr \<Rightarrow> PROFILE_SAMPLE" where
  "new_sample name = \<lparr>bFlag = True, szName = name, lStartTime = 0, dTotalTime = 0, dMin0 = DBL_MAX, dMin1 = DBL_MAX,
                      dMax0 = 0, dMax1 = 0, iCall = 0\<rparr>"

lemma name_sample_new [simp]: "name_sample name s = new_sample name"
  by (simp add: name_sample_def new_sample_def)

text \<open>An array is a row of named samples followed by unused ones.\<close>

definition used_ok :: "PROFILE_SAMPLE list \<Rightarrow> bool" where
  "used_ok used \<longleftrightarrow> (\<forall>s\<in>set used. bFlag s \<and> szName s \<noteq> []) \<and> distinct (map szName used)"

definition free_ok :: "PROFILE_SAMPLE list \<Rightarrow> bool" where
  "free_ok free \<longleftrightarrow> (\<forall>s\<in>set free. \<not> bFlag s \<and> szName s = [])"

definition table_ok :: "PROFILE_SAMPLE list \<Rightarrow> bool" where
  "table_ok ss \<longleftrightarrow> length ss = dfSAMPLE_MAX \<and> used_ok (takeWhile bFlag ss) \<and> free_ok (dropWhile bFlag ss)"

lemma split_table: "used_ok used \<Longrightarrow> free_ok free \<Longrightarrow> takeWhile bFlag (used @ free) = used \<and> dropWhile bFlag (used @ free) = free"
  by (cases free) (auto simp: used_ok_def free_ok_def)

lemma table_ok_append: "used_ok used \<Longrightarrow> free_ok free \<Longrightarrow> length used + length free = dfSAMPLE_MAX \<Longrightarrow> table_ok (used @ free)"
  using split_table [of used free] by (simp add: table_ok_def)

lemma filter_used: "used_ok used \<Longrightarrow> filter bFlag used = used" "free_ok free \<Longrightarrow> filter bFlag free = []"
  by (auto simp: used_ok_def free_ok_def filter_id_conv filter_empty_conv)

lemma map_of_samples_update:
  "k < length used \<Longrightarrow> szName y = szName (used ! k) \<Longrightarrow> distinct (map szName used) \<Longrightarrow>
   map_of (map (\<lambda>s. (szName s, s)) (used[k := y])) = (map_of (map (\<lambda>s. (szName s, s)) used))(szName y \<mapsto> y)"
proof (induction used arbitrary: k)
  case (Cons s ss)
  show ?case
  proof (cases k)
    case (Suc j)
    with Cons.prems have "szName y \<in> szName ` set ss" by simp
    then have "szName s \<noteq> szName y" using Cons.prems(3) by auto
    with Cons Suc show ?thesis by (auto simp: fun_upd_twist)
  qed (use Cons.prems in \<open>auto simp: fun_eq_iff\<close>)
qed simp

lemma sample_map_update:
  assumes "used_ok used" and "free_ok free" and "k < length used" and "szName y = szName (used ! k)" and "bFlag y"
  shows "sample_map (used[k := y] @ free) = (sample_map (used @ free))(szName y \<mapsto> y) \<and> used_ok (used[k := y])"
proof -
  have d: "distinct (map szName used)" using assms(1) by (simp add: used_ok_def)
  have m: "map szName (used[k := y]) = map szName used" using assms(3,4) by (simp add: map_update list_update_same_conv)
  have "szName (used ! k) \<noteq> []" using assms(1,3) by (simp add: used_ok_def)
  then have "\<forall>s\<in>set (used[k := y]). bFlag s \<and> szName s \<noteq> []"
    using assms(1,4,5) set_update_subset_insert [of used k y] by (auto simp: used_ok_def)
  with d m have "used_ok (used[k := y])" by (simp add: used_ok_def)
  then show ?thesis using map_of_samples_update [OF assms(3,4) d] assms(1,2) by (simp add: sample_map_def filter_used)
qed

lemma sample_map_new:
  assumes "used_ok used" and "free_ok (s # free)" and "name \<notin> szName ` set used" and "name \<noteq> []"
  shows "sample_map ((used @ [new_sample name]) @ free) = (sample_map (used @ s # free))(name \<mapsto> new_sample name) \<and>
    used_ok (used @ [new_sample name]) \<and> free_ok free"
proof -
  have u: "used_ok (used @ [new_sample name])" using assms by (auto simp: used_ok_def new_sample_def)
  have f: "free_ok free" using assms(2) by (simp add: free_ok_def)
  have "map_of (map (\<lambda>s. (szName s, s)) used) name = None" using assms(3) by (auto simp: map_of_eq_None_iff)
  then have "map_of (map (\<lambda>s. (szName s, s)) (used @ [new_sample name])) = (map_of (map (\<lambda>s. (szName s, s)) used))(name \<mapsto> new_sample name)"
    by (auto simp: fun_eq_iff map_add_def new_sample_def split: option.split)
  with u f assms(1,2) show ?thesis
    by (simp add: sample_map_def filter_used) (simp add: free_ok_def filter_used new_sample_def)
qed

lemma sample_map_nth: "used_ok used \<Longrightarrow> free_ok free \<Longrightarrow> k < length used \<Longrightarrow> sample_map (used @ free) (szName (used ! k)) = Some (used ! k)"
  by (auto simp: sample_map_def filter_used used_ok_def intro!: map_of_is_SomeI) (simp add: comp_def)

lemma sample_map_dom: "used_ok used \<Longrightarrow> free_ok free \<Longrightarrow> sample_map (used @ free) name = None \<longleftrightarrow> name \<notin> szName ` set used"
  by (auto simp: sample_map_def filter_used map_of_eq_None_iff image_image)

text \<open>The loop finds the sample of a name, or takes the first unused one for it.\<close>

lemma sample_loop_used:
  assumes "name \<noteq> []" and "length name < dfTAG_NAME_MAX" and "fmt name = name"
  shows "used_ok used \<Longrightarrow> free_ok free \<Longrightarrow> name \<in> szName ` set used \<or> free \<noteq> [] \<Longrightarrow>
    \<exists>k. if name \<in> szName ` set used
      then k < length used \<and> szName (used ! k) = name \<and> sample_loop fmt name i (used @ free) = Inr (Some (i + k), used @ free)
      else k = length used \<and> sample_loop fmt name i (used @ free) = Inr (Some (i + k), used @ new_sample name # tl free)"
proof (induction used arbitrary: i)
  case Nil
  then obtain s ss where "free = s # ss" by (cases free) auto
  with Nil assms show ?case by (auto simp: free_ok_def)
next
  case (Cons s used)
  show ?case
  proof (cases "szName s = name")
    case True
    with Cons.prems show ?thesis by (intro exI [of _ 0]) (auto simp: used_ok_def)
  next
    case False
    have "used_ok used" using Cons.prems(1) by (simp add: used_ok_def)
    from Cons.IH [OF this Cons.prems(2), of "i + 1"] Cons.prems(3) False obtain k where
      k: "if name \<in> szName ` set used
        then k < length used \<and> szName (used ! k) = name \<and> sample_loop fmt name (i + 1) (used @ free) = Inr (Some (i + 1 + k), used @ free)
        else k = length used \<and> sample_loop fmt name (i + 1) (used @ free) = Inr (Some (i + 1 + k), used @ new_sample name # tl free)"
      by auto
    with Cons.prems(1) False show ?thesis
      by (intro exI [of _ "k + 1"]) (auto simp: used_ok_def split: if_splits)
  qed
qed

text \<open>Both cases as one: the table after the loop.\<close>

lemma sample_loop_table:
  assumes name: "name \<noteq> []" "length name < dfTAG_NAME_MAX" "fmt name = name"
    and ok: "table_ok ss" and room: "name \<in> dom (sample_map ss) \<or> length (takeWhile bFlag ss) < dfSAMPLE_MAX"
  shows "\<exists>k ss'. sample_loop fmt name 0 ss = Inr (Some k, ss') \<and> table_ok ss' \<and> k < length (takeWhile bFlag ss') \<and>
    szName (ss' ! k) = name \<and> ss' ! k = (case sample_map ss name of None \<Rightarrow> new_sample name | Some s \<Rightarrow> s) \<and>
    sample_map ss' = (sample_map ss)(name \<mapsto> ss' ! k)"
proof -
  define used free where "used = takeWhile bFlag ss" and "free = dropWhile bFlag ss"
  have ss: "ss = used @ free" by (simp add: used_def free_def)
  have u: "used_ok used" "free_ok free" "length used + length free = dfSAMPLE_MAX"
    using ok by (auto simp: table_ok_def used_def free_def simp flip: length_append)
  have dom: "name \<in> dom (sample_map ss) \<longleftrightarrow> name \<in> szName ` set used" using sample_map_dom [OF u(1,2), of name] by (auto simp: ss dom_def)
  have "name \<in> szName ` set used \<or> free \<noteq> []" using room dom u(3) by (cases free) (auto simp: used_def)
  from sample_loop_used [where fmt = fmt and i = 0, OF name u(1,2) this] obtain k where
    k: "if name \<in> szName ` set used
      then k < length used \<and> szName (used ! k) = name \<and> sample_loop fmt name 0 (used @ free) = Inr (Some k, used @ free)
      else k = length used \<and> sample_loop fmt name 0 (used @ free) = Inr (Some k, used @ new_sample name # tl free)"
    unfolding add_0 by blast
  show ?thesis
  proof (cases "name \<in> szName ` set used")
    case True
    with k have h: "k < length used" "szName (used ! k) = name" "sample_loop fmt name 0 ss = Inr (Some k, ss)" by (simp_all add: ss)
    from sample_map_nth [OF u(1,2) h(1)] h(2) have m: "sample_map ss name = Some (used ! k)" by (simp add: ss)
    have n: "ss ! k = used ! k" using h(1) by (simp add: ss nth_append)
    show ?thesis using h ok m n by (intro exI [of _ k] exI [of _ ss]) (auto simp: used_def [symmetric])
  next
    case False
    then have "free \<noteq> []" using \<open>name \<in> szName ` set used \<or> free \<noteq> []\<close> by simp
    then obtain s fs where f: "free = s # fs" by (cases free) auto
    let ?used = "used @ [new_sample name]"
    from sample_map_new [OF u(1) _ False name(1), of s fs] u(2)
    have h: "sample_map (?used @ fs) = (sample_map ss)(name \<mapsto> new_sample name)" "used_ok ?used" "free_ok fs"
      by (simp_all add: ss f)
    have "table_ok (?used @ fs)" using u(3) f by (intro table_ok_append h) simp
    moreover have "takeWhile bFlag (?used @ fs) = ?used" using split_table [OF h(2,3)] by simp
    moreover have "sample_map ss name = None" using False dom by (simp add: domIff)
    ultimately show ?thesis using k False h(1)
      by (intro exI [of _ k] exI [of _ "?used @ fs"]) (simp add: ss f new_sample_def)
  qed
qed

section \<open>The samples of all threads\<close>

definition view :: "profiler \<Rightarrow> DWORD \<Rightarrow> wstr \<rightharpoonup> PROFILE_SAMPLE" where
  "view st t = (if tlsValue st t = 0 then Map.empty else sample_map (sampleArrays st ! (tlsValue st t - 1)))"

definition prof_ok :: "profiler \<Rightarrow> bool" where
  "prof_ok st \<longleftrightarrow> (\<forall>t. tlsValue st t \<le> length (sampleArrays st)) \<and>
     (\<forall>t u. tlsValue st t \<noteq> 0 \<longrightarrow> tlsValue st t = tlsValue st u \<longrightarrow> t = u) \<and> (\<forall>ss\<in>set (sampleArrays st). table_ok ss)"

definition good_name :: "profile_env \<Rightarrow> wstr \<Rightarrow> bool" where
  "good_name E name \<longleftrightarrow> name \<noteq> [] \<and> length name < dfTAG_NAME_MAX \<and> wsprintf E name = name"

lemma card_sample_map: "table_ok ss \<Longrightarrow> card (dom (sample_map ss)) = length (takeWhile bFlag ss)"
proof -
  assume ok: "table_ok ss"
  then have u: "used_ok (takeWhile bFlag ss)" "free_ok (dropWhile bFlag ss)" by (simp_all add: table_ok_def)
  have "sample_map ss name \<noteq> None \<longleftrightarrow> name \<in> szName ` set (takeWhile bFlag ss)" for name
    using sample_map_dom [OF u, of name] by simp
  then have "dom (sample_map ss) = set (map szName (takeWhile bFlag ss))" by (auto simp: dom_def)
  then show ?thesis using u(1) by (simp add: used_ok_def distinct_card del: set_map)
qed

lemma fresh_table: "table_ok (map (\<lambda>k. clear_sample (m k)) [0..<dfSAMPLE_MAX])"
  "sample_map (map (\<lambda>k. clear_sample (m k)) [0..<dfSAMPLE_MAX]) = Map.empty"
proof -
  let ?ss = "map (\<lambda>k. clear_sample (m k)) [0..<dfSAMPLE_MAX]"
  have f: "free_ok ?ss" by (auto simp: free_ok_def clear_sample_def)
  with table_ok_append [of "[]" ?ss] show "table_ok ?ss" by (simp add: used_ok_def)
  show "sample_map ?ss = Map.empty" using filter_used(2) [OF f] by (simp add: sample_map_def)
qed

lemma GetSample_ok:
  assumes E: "tls_ok E" "good_name E name" and ok: "prof_ok st"
    and room: "name \<in> dom (view st t) \<or> card (dom (view st t)) < dfSAMPLE_MAX"
  shows "\<exists>i st1. GetSample E t name st = Inr (True, Some (tlsValue st1 t, i), st1) \<and> prof_ok st1 \<and> tlsValue st1 t \<noteq> 0 \<and>
    i < length (takeWhile bFlag (sampleArrays st1 ! (tlsValue st1 t - 1))) \<and> szName (get_sample (tlsValue st1 t, i) st1) = name \<and>
    get_sample (tlsValue st1 t, i) st1 = (case view st t name of None \<Rightarrow> new_sample name | Some s \<Rightarrow> s) \<and>
    view st1 = (view st)(t := (view st t)(name \<mapsto> get_sample (tlsValue st1 t, i) st1)) \<and>
    dMicroFrequency st1 = dMicroFrequency st"
proof -
  define fresh where "fresh = (tlsValue st t = 0)"
  define new where "new = map (\<lambda>k. clear_sample (fresh_memory E k)) [0..<dfSAMPLE_MAX]"
  define arrays where "arrays = (if fresh then sampleArrays st @ [new] else sampleArrays st)"
  define p where "p = (if fresh then length arrays else tlsValue st t)"
  define st2 where "st2 = (if fresh then st\<lparr>sampleArrays := arrays, tlsValue := (tlsValue st)(t := p),
      stProfileThread := register_thread t p (stProfileThread st)\<rparr> else st)"
  have st2: "sampleArrays st2 = arrays" "tlsValue st2 = (tlsValue st)(t := p)" "dMicroFrequency st2 = dMicroFrequency st"
    by (simp_all add: st2_def arrays_def p_def)
  have tok: "\<forall>ss\<in>set arrays. table_ok ss" using ok fresh_table(1) by (auto simp: prof_ok_def arrays_def new_def)
  have p: "0 < p" "p \<le> length arrays" using ok by (auto simp: p_def fresh_def arrays_def prof_ok_def)
  have below: "tlsValue st u \<noteq> p" if "u \<noteq> t" for u
  proof (cases fresh)
    case True
    then have "p = length (sampleArrays st) + 1" by (simp add: p_def arrays_def)
    moreover have "tlsValue st u \<le> length (sampleArrays st)" using ok by (simp add: prof_ok_def)
    ultimately show ?thesis by simp
  next
    case False
    then have "p = tlsValue st t" "tlsValue st t \<noteq> 0" by (simp_all add: p_def fresh_def)
    with ok that show ?thesis unfolding prof_ok_def by metis
  qed
  define ss where "ss = arrays ! (p - 1)"
  have ss: "table_ok ss" "sample_map ss = view st t"
  proof -
    from p have "ss \<in> set arrays" unfolding ss_def by (intro nth_mem) simp
    with tok show "table_ok ss" by simp
    show "sample_map ss = view st t"
      using fresh_table(2) [of "fresh_memory E"] by (auto simp: ss_def arrays_def p_def fresh_def view_def new_def)
  qed
  have "name \<in> dom (sample_map ss) \<or> length (takeWhile bFlag ss) < dfSAMPLE_MAX"
    using room card_sample_map [OF ss(1)] by (simp only: ss(2))
  with sample_loop_table [of name "wsprintf E", OF _ _ _ ss(1)] E(2) obtain k ss' where
    l: "sample_loop (wsprintf E) name 0 ss = Inr (Some k, ss')" "table_ok ss'" "k < length (takeWhile bFlag ss')" "szName (ss' ! k) = name"
      "ss' ! k = (case sample_map ss name of None \<Rightarrow> new_sample name | Some s \<Rightarrow> s)" "sample_map ss' = (sample_map ss)(name \<mapsto> ss' ! k)"
    unfolding good_name_def by blast
  define st1 where "st1 = st2\<lparr>sampleArrays := arrays[p - 1 := ss']\<rparr>"
  have st1: "sampleArrays st1 = arrays[p - 1 := ss']" "tlsValue st1 = (tlsValue st)(t := p)" "dMicroFrequency st1 = dMicroFrequency st"
    by (simp_all add: st1_def st2)
  have at: "arrays[p - 1 := ss'] ! (p - 1) = ss'" using p by simp
  have get: "GetSample E t name st = Inr (True, Some (p, k), st1)"
    using l(1) E(1)
    by (cases fresh) (simp_all add: GetSample_def Let_def fresh_def [symmetric] new_def [symmetric] ss_def st1_def st2_def arrays_def p_def)
  have "prof_ok st1"
    unfolding prof_ok_def st1
  proof (intro conjI allI impI ballI)
    show "((tlsValue st)(t := p)) u \<le> length (arrays[p - 1 := ss'])" for u
    proof -
      have "tlsValue st u \<le> length (sampleArrays st)" using ok by (simp add: prof_ok_def)
      then show ?thesis using p(2) by (simp add: arrays_def split: if_splits)
    qed
    show "u = v" if "((tlsValue st)(t := p)) u \<noteq> 0" "((tlsValue st)(t := p)) u = ((tlsValue st)(t := p)) v" for u v
      using that below ok unfolding prof_ok_def by (auto split: if_splits)
    show "table_ok x" if "x \<in> set (arrays[p - 1 := ss'])" for x
      using that tok l(2) set_update_subset_insert [of arrays "p - 1" ss'] by blast
  qed
  moreover have "view st1 = (view st)(t := (view st t)(name \<mapsto> ss' ! k))"
  proof
    fix u
    show "view st1 u = ((view st)(t := (view st t)(name \<mapsto> ss' ! k))) u"
    proof (cases "u = t")
      case True
      then show ?thesis using p at l(6) ss(2) by (simp add: view_def [of st1] st1)
    next
      case False
      have "tlsValue st u \<noteq> 0 \<Longrightarrow> arrays[p - 1 := ss'] ! (tlsValue st u - 1) = sampleArrays st ! (tlsValue st u - 1)"
      proof -
        assume nz: "tlsValue st u \<noteq> 0"
        have le: "tlsValue st u \<le> length (sampleArrays st)" using ok by (simp add: prof_ok_def)
        have "p - 1 \<noteq> tlsValue st u - 1" using below [OF False] nz p(1) by linarith
        moreover have "tlsValue st u - 1 < length (sampleArrays st)" using le nz by linarith
        ultimately show ?thesis by (simp add: arrays_def nth_append)
      qed
      with False show ?thesis by (simp add: view_def st1)
    qed
  qed
  ultimately show ?thesis
    using get l(3-5) p at ss(2) st1 by (intro exI [of _ k] exI [of _ st1]) (simp add: get_sample_def)
qed

lemma upd_sample_ok:
  assumes ok: "prof_ok st" and t: "tlsValue st t \<noteq> 0" and i: "i < length (takeWhile bFlag (sampleArrays st ! (tlsValue st t - 1)))"
    and name: "szName (get_sample (tlsValue st t, i) st) = name" and f: "\<And>s. szName (f s) = szName s \<and> bFlag (f s) = bFlag s"
  shows "prof_ok (upd_sample (tlsValue st t, i) f st) \<and>
    view (upd_sample (tlsValue st t, i) f st) = (view st)(t := (view st t)(name \<mapsto> f (get_sample (tlsValue st t, i) st))) \<and>
    dMicroFrequency (upd_sample (tlsValue st t, i) f st) = dMicroFrequency st"
proof -
  let ?p = "tlsValue st t"
  define ss where "ss = sampleArrays st ! (?p - 1)"
  have p: "?p - 1 < length (sampleArrays st)" using ok t by (simp add: prof_ok_def) (metis Suc_pred le_imp_less_Suc less_Suc_eq_le Suc_le_eq)
  then have tab: "table_ok ss" using ok by (simp add: prof_ok_def ss_def)
  define used free where "used = takeWhile bFlag ss" and "free = dropWhile bFlag ss"
  have u: "ss = used @ free" "used_ok used" "free_ok free" "i < length used" "length used + length free = dfSAMPLE_MAX"
    using tab i by (auto simp: table_ok_def used_def free_def ss_def simp flip: length_append)
  have x: "ss ! i = used ! i" "bFlag (used ! i)" using u(2,4) by (simp_all add: u(1) nth_append used_ok_def)
  define ss' where "ss' = ss[i := f (ss ! i)]"
  have ss': "ss' = used[i := f (used ! i)] @ free" using u(4) x(1) by (simp add: ss'_def u(1) list_update_append)
  have nm: "szName (used ! i) = name" using name x(1) by (simp add: get_sample_def ss_def)
  from sample_map_update [OF u(2-4), of "f (used ! i)"] f x(2) nm
  have m: "sample_map ss' = (sample_map ss)(name \<mapsto> f (ss ! i))" "used_ok (used[i := f (used ! i)])"
    unfolding ss' x(1) by (simp_all add: u(1))
  have tab': "table_ok ss'" unfolding ss' using u(3,5) m(2) by (intro table_ok_append) simp_all
  have st: "upd_sample (?p, i) f st = st\<lparr>sampleArrays := (sampleArrays st)[?p - 1 := ss']\<rparr>"
    by (simp add: upd_sample_def Let_def ss'_def ss_def)
  have "prof_ok (upd_sample (?p, i) f st)"
    using ok tab' set_update_subset_insert [of "sampleArrays st" "?p - 1" ss'] by (auto simp: prof_ok_def st)
  moreover have "view (upd_sample (?p, i) f st) = (view st)(t := (view st t)(name \<mapsto> f (get_sample (?p, i) st)))"
  proof
    fix v
    show "view (upd_sample (?p, i) f st) v = ((view st)(t := (view st t)(name \<mapsto> f (get_sample (?p, i) st)))) v"
    proof (cases "v = t")
      case True
      then show ?thesis using p t m(1) by (simp add: view_def st get_sample_def ss_def)
    next
      case False
      have "?p - 1 \<noteq> tlsValue st v - 1" if "tlsValue st v \<noteq> 0"
      proof -
        have "tlsValue st v \<noteq> ?p" using ok that False unfolding prof_ok_def by metis
        with that t show ?thesis by linarith
      qed
      with False show ?thesis by (simp add: view_def st)
    qed
  qed
  ultimately show ?thesis by (simp add: st)
qed

section \<open>Runs\<close>

text \<open>A call of \<open>ProfileBegin\<close> or \<open>ProfileEnd\<close> in a thread, with the value of the performance counter.\<close>

datatype call_kind = Begin | End

record prof_call =
  pc_thread :: DWORD
  pc_name :: wstr
  pc_kind :: call_kind
  pc_time :: int

definition prof_call :: "fp \<Rightarrow> profile_env \<Rightarrow> prof_call \<Rightarrow> profiler \<Rightarrow> profiler res" where
  "prof_call F E c st =
     (case pc_kind c of
        Begin \<Rightarrow> andThen (ProfileBegin E (pc_thread c) (pc_time c) (pc_name c) st) (\<lambda>(b, st1). Inr st1)
      | End \<Rightarrow> andThen (ProfileEnd F E (pc_thread c) (pc_time c) (pc_name c) st) (\<lambda>(b, st1). Inr st1))"

fun prof_run :: "fp \<Rightarrow> profile_env \<Rightarrow> prof_call list \<Rightarrow> profiler \<Rightarrow> profiler res" where
  "prof_run F E [] st = Inr st"
| "prof_run F E (c # cs) st = andThen (prof_call F E c st) (prof_run F E cs)"

text \<open>What the specification makes of one sample: nothing happens on a second begin.\<close>

definition sample_call :: "fp \<Rightarrow> rat \<Rightarrow> prof_call \<Rightarrow> PROFILE_SAMPLE \<Rightarrow> PROFILE_SAMPLE" where
  "sample_call F micro c s =
     (case pc_kind c of
        Begin \<Rightarrow> if lStartTime s \<noteq> 0 then s else s\<lparr>lStartTime := pc_time c\<rparr>
      | End \<Rightarrow> end_sample F micro (pc_time c) s)"

fun history :: "fp \<Rightarrow> rat \<Rightarrow> prof_call list \<Rightarrow> PROFILE_SAMPLE option \<Rightarrow> PROFILE_SAMPLE option" where
  "history F micro [] o1 = o1"
| "history F micro (c # cs) o1 =
     history F micro cs (Some (sample_call F micro c (case o1 of None \<Rightarrow> new_sample (pc_name c) | Some s \<Rightarrow> s)))"

lemma sample_call_name: "szName (sample_call F micro c s) = szName s \<and> bFlag (sample_call F micro c s) = bFlag s"
  by (simp add: sample_call_def end_sample_def Let_def split: call_kind.split)

lemma prof_call_ok:
  assumes E: "tls_ok E" "good_name E (pc_name c)" and ok: "prof_ok st"
    and room: "pc_name c \<in> dom (view st (pc_thread c)) \<or> card (dom (view st (pc_thread c))) < dfSAMPLE_MAX"
  shows "\<exists>st'. prof_call F E c st = Inr st' \<and> prof_ok st' \<and> dMicroFrequency st' = dMicroFrequency st \<and>
    view st' = (view st)(pc_thread c := (view st (pc_thread c))(pc_name c \<mapsto>
      sample_call F (dMicroFrequency st) c (case view st (pc_thread c) (pc_name c) of None \<Rightarrow> new_sample (pc_name c) | Some s \<Rightarrow> s)))"
proof -
  let ?t = "pc_thread c" and ?n = "pc_name c"
  let ?s = "case view st ?t ?n of None \<Rightarrow> new_sample ?n | Some s \<Rightarrow> s"
  from GetSample_ok [OF E ok room] obtain i st1 where
    g: "GetSample E ?t ?n st = Inr (True, Some (tlsValue st1 ?t, i), st1)" "prof_ok st1" "tlsValue st1 ?t \<noteq> 0"
      "i < length (takeWhile bFlag (sampleArrays st1 ! (tlsValue st1 ?t - 1)))" "szName (get_sample (tlsValue st1 ?t, i) st1) = ?n"
      "get_sample (tlsValue st1 ?t, i) st1 = ?s"
      "view st1 = (view st)(?t := (view st ?t)(?n \<mapsto> get_sample (tlsValue st1 ?t, i) st1))"
      "dMicroFrequency st1 = dMicroFrequency st"
    by blast
  show ?thesis
  proof (cases "pc_kind c = Begin \<and> lStartTime ?s \<noteq> 0")
    case True
    then have "prof_call F E c st = Inr st1" using g(1,6) by (simp add: prof_call_def ProfileBegin_def)
    moreover have "sample_call F (dMicroFrequency st) c ?s = ?s" using True by (simp add: sample_call_def)
    ultimately show ?thesis using g(2,6-8) by simp
  next
    case False
    define f where "f = (if pc_kind c = Begin then (\<lambda>s. s\<lparr>lStartTime := pc_time c\<rparr>) else end_sample F (dMicroFrequency st1) (pc_time c))"
    have f: "szName (f s) = szName s \<and> bFlag (f s) = bFlag s" for s by (simp add: f_def end_sample_def Let_def)
    have "prof_call F E c st = Inr (upd_sample (tlsValue st1 ?t, i) f st1)"
      using False g(1,6) by (cases "pc_kind c") (auto simp: prof_call_def ProfileBegin_def ProfileEnd_def f_def)
    moreover have "sample_call F (dMicroFrequency st) c ?s = f ?s"
      using False g(8) by (cases "pc_kind c") (auto simp: sample_call_def f_def)
    ultimately show ?thesis using upd_sample_ok [OF g(2-5), of f] f g(6-8) by simp
  qed
qed

text \<open>The names a thread uses.\<close>

definition names_of :: "DWORD \<Rightarrow> prof_call list \<Rightarrow> wstr set" where
  "names_of t cs = pc_name ` {c \<in> set cs. pc_thread c = t}"

lemma prof_run_refines:
  assumes E: "tls_ok E"
  shows "prof_ok st \<Longrightarrow> \<forall>c\<in>set cs. good_name E (pc_name c) \<Longrightarrow>
    \<forall>t. card (dom (view st t) \<union> names_of t cs) \<le> dfSAMPLE_MAX \<and> finite (dom (view st t)) \<Longrightarrow>
    \<exists>st'. prof_run F E cs st = Inr st' \<and> prof_ok st' \<and>
      (\<forall>t n. view st' t n = history F (dMicroFrequency st) (filter (\<lambda>c. pc_thread c = t \<and> pc_name c = n) cs) (view st t n))"
proof (induction cs arbitrary: st)
  case (Cons c cs)
  let ?t = "pc_thread c" and ?n = "pc_name c"
  have fin: "finite (dom (view st t) \<union> names_of t (c # cs))" for t using Cons.prems(3) by (simp add: names_of_def)
  have names: "names_of t (c # cs) = (if t = ?t then insert ?n (names_of t cs) else names_of t cs)" for t
    by (auto simp: names_of_def)
  have "?n \<in> dom (view st ?t) \<or> card (dom (view st ?t)) < dfSAMPLE_MAX"
  proof (rule disjCI)
    assume "\<not> card (dom (view st ?t)) < dfSAMPLE_MAX"
    moreover have "card (dom (view st ?t)) \<le> card (dom (view st ?t) \<union> names_of ?t (c # cs))" by (rule card_mono [OF fin]) simp
    moreover have "card (dom (view st ?t) \<union> names_of ?t (c # cs)) \<le> dfSAMPLE_MAX" using Cons.prems(3) by blast
    ultimately have "card (dom (view st ?t)) = card (dom (view st ?t) \<union> names_of ?t (c # cs))" by linarith
    from card_subset_eq [OF fin _ this] have "names_of ?t (c # cs) \<subseteq> dom (view st ?t)" by blast
    then show "?n \<in> dom (view st ?t)" by (simp add: names)
  qed
  from prof_call_ok [OF E _ Cons.prems(1) this, of F] Cons.prems(2) obtain st1 where
    s1: "prof_call F E c st = Inr st1" "prof_ok st1" "dMicroFrequency st1 = dMicroFrequency st"
      "view st1 = (view st)(?t := (view st ?t)(?n \<mapsto>
         sample_call F (dMicroFrequency st) c (case view st ?t ?n of None \<Rightarrow> new_sample ?n | Some s \<Rightarrow> s)))" by auto
  have d: "dom (view st1 t) = (if t = ?t then insert ?n (dom (view st t)) else dom (view st t))" for t by (auto simp: s1(4))
  have "card (dom (view st1 t) \<union> names_of t cs) \<le> dfSAMPLE_MAX \<and> finite (dom (view st1 t))" for t
    using Cons.prems(3) [rule_format, of t] by (cases "t = ?t") (simp_all add: d names)
  with Cons.IH [OF s1(2)] Cons.prems(2) obtain st' where
    "prof_run F E cs st1 = Inr st'" "prof_ok st'"
    "\<forall>t n. view st' t n = history F (dMicroFrequency st1) (filter (\<lambda>c. pc_thread c = t \<and> pc_name c = n) cs) (view st1 t n)"
    by auto
  with s1 show ?case by (auto simp: fun_upd_apply)
qed simp

lemma ProfileInit_ok: "ProfileInit F freq b = (b, st) \<Longrightarrow> prof_ok st \<and> view st = (\<lambda>t. Map.empty)"
  by (auto simp: ProfileInit_def prof_ok_def view_def)

text \<open>
  C37. The profiler keeps its samples apart. After initialisation, for any calls of \<open>ProfileBegin\<close>
  and \<open>ProfileEnd\<close> in any threads, with names of 1 to 63 characters that print as themselves (no \<open>%\<close>), at most
  50 names per thread and a \<open>TlsSetValue\<close> that succeeds, nothing is written outside an array and the sample of every thread and
  name is what its own calls make of a new sample, whatever the other calls were and whatever
  fresh memory held.
\<close>

theorem profiler_refines_map:
  assumes "ProfileInit F freq True = (True, st)" and "tls_ok E" and "\<forall>c\<in>set cs. good_name E (pc_name c)"
    and "\<forall>t. card (names_of t cs) \<le> 50"
  shows "\<exists>st'. prof_run F E cs st = Inr st' \<and>
    (\<forall>t n. view st' t n = history F (dMicroFrequency st) (filter (\<lambda>c. pc_thread c = t \<and> pc_name c = n) cs) None)"
  using prof_run_refines [OF assms(2) _ assms(3), of st F] ProfileInit_ok [OF assms(1)] assms(4)
  by (auto simp: dfSAMPLE_MAX_def)

section \<open>A run\<close>

text \<open>Two threads use the same name; fresh memory holds an old sample.\<close>

definition demo_env :: profile_env where
  "demo_env = \<lparr>tls_ok = True, wsprintf = (\<lambda>f. f), fresh_memory = (\<lambda>k. new_sample (L ''junk''))\<rparr>"

definition demo_calls :: "prof_call list" where
  "demo_calls =
     [\<lparr>pc_thread = 7, pc_name = L ''send'', pc_kind = Begin, pc_time = 100\<rparr>,
      \<lparr>pc_thread = 8, pc_name = L ''send'', pc_kind = Begin, pc_time = 150\<rparr>,
      \<lparr>pc_thread = 7, pc_name = L ''send'', pc_kind = End, pc_time = 300\<rparr>]"

lemma demo_names_good: "\<forall>c\<in>set demo_calls. good_name demo_env (pc_name c) \<and> pc_thread c \<noteq> 0" "good_name demo_env (L ''send'')"
  by (simp_all add: demo_calls_def good_name_def demo_env_def dfTAG_NAME_MAX_def)

lemma demo_names_few: "card (names_of t demo_calls) \<le> 50"
proof -
  have "names_of t demo_calls \<subseteq> {L ''send''}" by (auto simp: names_of_def demo_calls_def)
  from card_mono [OF _ this] show ?thesis by simp
qed

definition demo_profiler :: "int \<Rightarrow> profiler" where
  "demo_profiler freq = snd (ProfileInit exact_fp freq True)"

lemma demo_init: "ProfileInit exact_fp freq True = (True, demo_profiler freq)"
  by (simp add: demo_profiler_def ProfileInit_def)

theorem profiler_refines_map_witness:
  "\<exists>st' s u. prof_run exact_fp demo_env demo_calls (demo_profiler 10000000) = Inr st' \<and>
     view st' 7 (L ''send'') = Some s \<and> iCall s = 1 \<and> dTotalTime s = 20 \<and>
     view st' 8 (L ''send'') = Some u \<and> iCall u = 0 \<and> view st' 8 (L ''recv'') = None"
proof -
  have E: "tls_ok demo_env" by (simp add: demo_env_def)
  have m: "dMicroFrequency (demo_profiler 10000000) = 10" by (simp add: demo_profiler_def ProfileInit_def exact_fp_def)
  from profiler_refines_map [OF demo_init [of 10000000] E, of demo_calls] demo_names_good(1) demo_names_few obtain st' where
    "prof_run exact_fp demo_env demo_calls (demo_profiler 10000000) = Inr st'"
    and v: "view st' t n = history exact_fp 10 (filter (\<lambda>c. pc_thread c = t \<and> pc_name c = n) demo_calls) None" for t n
    unfolding m by blast
  then show ?thesis
    by (simp add: v) (simp add: demo_calls_def sample_call_def end_sample_def new_sample_def exact_fp_def DBL_MAX_def Let_def)
qed

end
