(* ===== verification/ProfileReport.thy ===== *)
theory ProfileReport
  imports ProfileRuns
begin

text \<open>What the profiler reports: the extreme times of a sample, and the lines \<open>SaveProfile\<close> writes.\<close>

section \<open>The shortest and the longest time\<close>

text \<open>Begin and end of one name in one thread, at the given times.\<close>

definition measured :: "DWORD \<Rightarrow> wstr \<Rightarrow> (int \<times> int) list \<Rightarrow> prof_call list" where
  "measured t n ts =
     concat (map (\<lambda>(a, b). [\<lparr>pc_thread = t, pc_name = n, pc_kind = Begin, pc_time = a\<rparr>,
                            \<lparr>pc_thread = t, pc_name = n, pc_kind = End, pc_time = b\<rparr>]) ts)"

lemma measured_simps [simp]:
  "measured t n [] = []"
  "measured t n ((a, b) # ts) = \<lparr>pc_thread = t, pc_name = n, pc_kind = Begin, pc_time = a\<rparr> #
     \<lparr>pc_thread = t, pc_name = n, pc_kind = End, pc_time = b\<rparr> # measured t n ts"
  by (simp_all add: measured_def)

definition durations :: "(int \<times> int) list \<Rightarrow> rat set" where
  "durations ts = (\<lambda>(a, b). of_int (b - a)) ` set ts"

definition timing :: "(int \<times> int) list \<Rightarrow> bool" where
  "timing ts \<longleftrightarrow> (\<forall>(a, b)\<in>set ts. 0 < a \<and> a \<le> b \<and> b - a \<le> 2 ^ 53)"

lemma micro_exact:
  assumes F: "fp_laws F" and "0 < k" and "k \<le> 1000"
  shows "fl_double F (fl_double F (of_int (k * 1000000)) / 1000000) = of_int k"
  using assms(2,3) rounding_exact [OF fp_rounding(1) [OF F], of "k * 1000000"] rounding_exact [OF fp_rounding(1) [OF F], of k]
  by simp

lemma insert_insert_Max: "finite S \<Longrightarrow> Max (insert a (insert (b :: rat) S)) = Max (insert (max a b) S)"
  "finite S \<Longrightarrow> Min (insert a (insert (b :: rat) S)) = Min (insert (min a b) S)"
  by (cases "S = {}"; simp add: max.assoc min.assoc)+

lemma end_sample_1MHz:
  assumes F: "fp_laws F" and d: "0 \<le> b - lStartTime s" "b - lStartTime s \<le> 2 ^ 53"
  shows "dMax1 (end_sample F 1 b s) = max (dMax1 s) (of_int (b - lStartTime s)) \<and>
    dMin1 (end_sample F 1 b s) = min (dMin1 s) (of_int (b - lStartTime s)) \<and>
    iCall (end_sample F 1 b s) = iCall s + 1 \<and> lStartTime (end_sample F 1 b s) = 0"
proof -
  have "fl_double F (of_int (b - lStartTime s)) = of_int (b - lStartTime s)"
    using d by (intro rounding_exact [OF fp_rounding(1) [OF F]]) simp
  then show ?thesis by (simp add: end_sample_def Let_def max_def min_def)
qed

lemma history_1MHz:
  assumes F: "fp_laws F"
  shows "timing ts \<Longrightarrow> lStartTime s = 0 \<Longrightarrow>
    \<exists>s'. history F 1 (measured t n ts) (Some s) = Some s' \<and> iCall s' = iCall s + int (length ts) \<and>
      dMax1 s' = Max (insert (dMax1 s) (durations ts)) \<and> dMin1 s' = Min (insert (dMin1 s) (durations ts))"
proof (induction ts arbitrary: s)
  case (Cons ab ts)
  obtain a b where ab: "ab = (a, b)" by (cases ab)
  have t: "0 < a" "a \<le> b" "b - a \<le> 2 ^ 53" "timing ts" using Cons.prems(1) by (auto simp: timing_def ab)
  let ?s = "end_sample F 1 b (s\<lparr>lStartTime := a\<rparr>)"
  from t have e: "dMax1 ?s = max (dMax1 s) (of_int (b - a))" "dMin1 ?s = min (dMin1 s) (of_int (b - a))"
    "iCall ?s = iCall s + 1" "lStartTime ?s = 0"
    using end_sample_1MHz [OF F, of b "s\<lparr>lStartTime := a\<rparr>"] by simp_all
  have h: "history F 1 (measured t n (ab # ts)) (Some s) = history F 1 (measured t n ts) (Some ?s)"
    using Cons.prems(2) t(1) by (simp add: ab sample_call_def)
  have d: "durations (ab # ts) = insert (of_int (b - a)) (durations ts)" "finite (durations ts)" by (simp_all add: durations_def ab)
  from Cons.IH [OF t(4) e(4)] show ?case unfolding h d(1) insert_insert_Max [OF d(2)] e by auto
qed (simp add: durations_def)

lemma measured_run:
  assumes "ProfileInit F freq True = (True, st)" and "tls_ok E" and "good_name E n"
  shows "\<exists>st'. prof_run F E (measured t n ts) st = Inr st' \<and> view st' t n = history F (dMicroFrequency st) (measured t n ts) None"
proof -
  have m: "c \<in> set (measured t n ts) \<Longrightarrow> pc_thread c = t \<and> pc_name c = n" for c by (auto simp: measured_def)
  then have "names_of u (measured t n ts) \<subseteq> {n}" for u by (auto simp: names_of_def)
  from card_mono [OF _ this] have "card (names_of u (measured t n ts)) \<le> 50" for u by (simp add: order_trans [of _ 1])
  moreover have "filter (\<lambda>c. pc_thread c = t \<and> pc_name c = n) (measured t n ts) = measured t n ts" using m by (simp add: filter_id_conv)
  ultimately show ?thesis
    using prof_run_refines [OF assms(2), of st "measured t n ts" F] ProfileInit_ok [OF assms(1)] assms(3) m
    by (fastforce simp: dfSAMPLE_MAX_def)
qed

lemma DBL_MAX_large: "2 ^ 53 \<le> DBL_MAX"
  by (simp add: DBL_MAX_def)

text \<open>
  C38. The extreme times. \<open>ProfileEnd\<close> compares a duration in ticks of the performance counter with stored
  times in microseconds. When the counter runs at 1 MHz, where the two agree, the greatest and
  the least time of a sample are those of its durations; at 10 MHz, the rate of current Windows, they
  are not: after 10 and 2 microseconds the greatest time is 2 and the least is 10.
\<close>

theorem profiler_extremes:
  assumes "fp_laws F" and "tls_ok E" and "good_name E n"
    and "ProfileInit F 1000000 True = (True, st1)" and "ProfileInit F 10000000 True = (True, st10)"
    and "timing ts" and "ts \<noteq> []"
  shows "(\<exists>st' s. prof_run F E (measured t n ts) st1 = Inr st' \<and> view st' t n = Some s \<and> iCall s = int (length ts) \<and>
      dMax1 s = Max (durations ts) \<and> dMin1 s = Min (durations ts)) \<and>
    (\<exists>st' s. prof_run F E (measured t n [(1, 101), (201, 221)]) st10 = Inr st' \<and> view st' t n = Some s \<and> iCall s = 2 \<and>
      dMax1 s = 2 \<and> dMin1 s = 10)"
proof
  have d: "finite (durations ts)" "durations ts \<noteq> {}" using assms(7) by (simp_all add: durations_def)
  have r: "0 \<le> x \<and> x \<le> 2 ^ 53" if x: "x \<in> durations ts" for x
  proof -
    from x obtain a b where ab: "x = of_int (b - a)" "(a, b) \<in> set ts" by (auto simp: durations_def)
    with assms(6) have "0 \<le> b - a" "b - a \<le> 2 ^ 53" by (auto simp: timing_def)
    then have "(of_int 0 :: rat) \<le> of_int (b - a)" "(of_int (b - a) :: rat) \<le> of_int (2 ^ 53)" by (simp_all only: of_int_le_iff)
    then show ?thesis by (simp add: ab(1))
  qed
  have "0 \<le> Max (durations ts)" using r Max_in [OF d] by blast
  then have mx: "Max (insert 0 (durations ts)) = Max (durations ts)" using d by simp
  have "Min (durations ts) \<le> DBL_MAX" using r Min_in [OF d] DBL_MAX_large by fastforce
  then have mn: "Min (insert DBL_MAX (durations ts)) = Min (durations ts)" using d by simp
  have f: "dMicroFrequency st1 = 1" using assms(4) micro_exact [OF assms(1), of 1] by (auto simp: ProfileInit_def)
  have n: "history F m (measured t n ts) None = history F m (measured t n ts) (Some (new_sample n))" for m
    using assms(7) by (cases ts) (auto simp: measured_def)
  have i: "lStartTime (new_sample n) = 0" "dMax1 (new_sample n) = 0" "dMin1 (new_sample n) = DBL_MAX" "iCall (new_sample n) = 0"
    by (simp_all add: new_sample_def)
  from history_1MHz [OF assms(1,6) i(1), of t n] measured_run [OF assms(4,2,3), of t ts]
  show "\<exists>st' s. prof_run F E (measured t n ts) st1 = Inr st' \<and> view st' t n = Some s \<and> iCall s = int (length ts) \<and>
      dMax1 s = Max (durations ts) \<and> dMin1 s = Min (durations ts)"
    unfolding f n i mx mn by auto
  have f10: "dMicroFrequency st10 = 10" using assms(5) micro_exact [OF assms(1), of 10] by (auto simp: ProfileInit_def)
  have e: "fl_double F (of_int k) = of_int k" if "\<bar>k\<bar> \<le> 2 ^ 53" for k
    using that by (rule rounding_exact [OF fp_rounding(1) [OF assms(1)]])
  have num: "fl_double F 100 = 100" "fl_double F 20 = 20" "fl_double F 10 = 10" "fl_double F 2 = 2" "fl_double F 12 = 12"
    using e [of 100] e [of 20] e [of 10] e [of 2] e [of 12] by simp_all
  have "100 < DBL_MAX" using DBL_MAX_large by simp
  then show "\<exists>st' s. prof_run F E (measured t n [(1, 101), (201, 221)]) st10 = Inr st' \<and> view st' t n = Some s \<and> iCall s = 2 \<and>
      dMax1 s = 2 \<and> dMin1 s = 10"
    using measured_run [OF assms(5,2,3), of t "[(1, 101), (201, 221)]"]
    by (auto simp: f10 sample_call_def end_sample_def new_sample_def num)
qed

section \<open>The report\<close>



















section \<open>A report\<close>

theorem profiler_extremes_witness:
  "\<exists>st' s. prof_run exact_fp demo_env (measured 7 (L ''send'') [(1, 4), (5, 7)]) (demo_profiler 1000000) = Inr st' \<and>
     view st' 7 (L ''send'') = Some s \<and> dMax1 s = 3 \<and> dMin1 s = 2"
proof -
  have E: "tls_ok demo_env" by (simp add: demo_env_def)
  have t: "timing [(1, 4), (5, 7)]" by (simp add: timing_def)
  have d: "durations [(1, 4), (5, 7)] = {3, 2}" by (simp add: durations_def)
  have "Max {3, 2 :: rat} = 3" "Min {3, 2 :: rat} = 2" by simp_all
  with profiler_extremes [OF exact_fp_laws E demo_names_good(2) demo_init demo_init t, of 7] show ?thesis unfolding d by auto
qed









end
