(* ===== verification/SessionRace.thy ===== *)
theory SessionRace
  imports Prelude
begin

text \<open>
  The life of one session at the granularity of its shared accesses: any number of threads call
  \<open>SessionLock\<close>, \<open>SessionUnLock\<close>, \<open>Disconnect\<close> and \<open>PostSend\<close>, complete operations in \<open>WorkerThread\<close>, and
  run \<open>ReleaseSession\<close>. A step is one interlocked operation, or one read or write, of the members
  \<open>sessionID\<close>, \<open>isReleased\<close> and \<open>ioCount\<close>, so every interleaving is a run. The other theories take whole
  handlers as steps; here only the slot is left, and its handlers are taken apart. A run ends with the
  slot's index back on the stack: the slot is not opened again.
\<close>

section \<open>The slot and its threads\<close>

text \<open>
  \<open>sl_pending\<close> counts the operations the network has not completed; \<open>sl_releases\<close> and \<open>sl_pushes\<close> count
  the calls of \<open>ReleaseSession\<close> begun, and the indices it has pushed.
\<close>

record slot =
  sl_id :: UINT64
  sl_ioCount :: int
  sl_isReleased :: bool
  sl_pending :: nat
  sl_releases :: nat
  sl_pushes :: nat

text \<open>
  A thread outside any call (\<open>Outside\<close>), between two accesses of \<open>SessionLock\<close>, with the session locked
  (\<open>Held\<close>), in \<open>WorkerThread\<close> with a completed operation (\<open>Work\<close>) or past its decrement (\<open>WorkEnd\<close>),
  after a failed \<open>WSASend\<close> or (its second flag) \<open>WSARecv\<close> (\<open>PostFailed\<close>), in \<open>DisConnect\<close> (\<open>Closing\<close>) and in \<open>ReleaseSession\<close>
  (\<open>Release\<close>). The boolean says whether the caller is a worker, \<open>return_to\<close> where the caller goes on.
  A call a worker makes on its own session from a callback is the run of one more thread.
\<close>

datatype return_to = ToOutside | ToHeld | ToWork | ToClose bool

datatype session_pc =
    Outside
  | Locked1 UINT64
  | Locked2 UINT64
  | Locked3 UINT64
  | Locked4
  | LockFail
  | LockGone
  | Held
  | Work
  | WorkEnd
  | PostFailed bool bool
  | Closing0 bool
  | Closing1 bool
  | Closing2 bool
  | Release0 return_to
  | Release1 return_to
  | Release2 return_to

definition caller :: "bool \<Rightarrow> session_pc" where
  "caller worker = (if worker then Work else Held)"

definition to_caller :: "bool \<Rightarrow> return_to" where
  "to_caller worker = (if worker then ToWork else ToHeld)"

fun resume :: "return_to \<Rightarrow> session_pc" where
  "resume ToOutside = Outside"
| "resume ToHeld = Held"
| "resume ToWork = Work"
| "resume (ToClose worker) = Closing0 worker"

text \<open>What a thread does next where it has a choice; \<open>Go\<close> is the only way on elsewhere.\<close>

datatype session_move = Lock UINT64 | Complete | Post | SendFail | RecvFail | Disconnect | Go

text \<open>A call of \<open>ReleaseSession\<close> begins.\<close>

definition release :: "return_to \<Rightarrow> slot \<Rightarrow> session_pc \<times> slot" where
  "release k s = (Release0 k, s\<lparr>sl_releases := sl_releases s + 1\<rparr>)"

text \<open>\<open>InterlockedDecrement(&ioCount)\<close>, and a release when it gives 0.\<close>

definition decrement :: "(slot \<Rightarrow> session_pc \<times> slot) \<Rightarrow> session_pc \<Rightarrow> slot \<Rightarrow> session_pc \<times> slot" where
  "decrement zero other s =
     (let s1 = s\<lparr>sl_ioCount := sl_ioCount s - 1\<rparr> in if sl_ioCount s1 = 0 then zero s1 else (other, s1))"

section \<open>The steps\<close>

text \<open>\<open>SessionLock\<close> after its increment, one access a time: the first condition reads two members.\<close>

definition lock_access :: "session_pc \<Rightarrow> slot \<Rightarrow> session_pc \<times> slot" where
  "lock_access pc s =
     (case pc of
        Locked1 sid \<Rightarrow> (if sid \<noteq> sl_id s then LockFail else Locked2 sid, s)
      | Locked2 sid \<Rightarrow> (if sl_isReleased s then LockFail else Locked3 sid, s)
      | LockFail \<Rightarrow> decrement (release ToOutside) Outside s
      | Locked3 sid \<Rightarrow> (if sid \<noteq> sl_id s then LockGone else Locked4, s)
      | LockGone \<Rightarrow> decrement (Pair Outside) Outside s
      | Locked4 \<Rightarrow> (if sl_isReleased s then LockFail else Held, s)
      | _ \<Rightarrow> (pc, s))"

definition unlock_access :: "slot \<Rightarrow> session_pc \<times> slot" where
  "unlock_access s = decrement (release ToOutside) Outside s"

text \<open>The end of a turn of \<open>WorkerThread\<close>: the decrement, then the look at \<open>isReleased\<close>.\<close>

definition turn_end :: "slot \<Rightarrow> session_pc \<times> slot" where
  "turn_end s = decrement (Pair WorkEnd) Outside s"

definition turn_end_access :: "slot \<Rightarrow> session_pc \<times> slot" where
  "turn_end_access s = (if sl_isReleased s then release ToOutside s else (Outside, s))"

text \<open>A failed \<open>WSASend\<close> goes back to its caller; a failed \<open>WSARecv\<close> on to \<open>DisConnect\<close>, also after the release.\<close>

definition post_failed :: "bool \<Rightarrow> bool \<Rightarrow> slot \<Rightarrow> session_pc \<times> slot" where
  "post_failed worker recv s =
     decrement (release (if recv then ToClose worker else to_caller worker))
       (if recv then Closing0 worker else caller worker) s"

text \<open>\<open>DisConnect\<close>: the exchange of \<open>isReleased\<close>, the calls that close the socket, the look at \<open>ioCount\<close>.\<close>

definition close_access :: "session_pc \<Rightarrow> slot \<Rightarrow> session_pc \<times> slot" where
  "close_access pc s =
     (case pc of
        Closing0 worker \<Rightarrow>
          if sl_isReleased s then (caller worker, s) else (Closing1 worker, s\<lparr>sl_isReleased := True\<rparr>)
      | Closing1 worker \<Rightarrow> (Closing2 worker, s)
      | Closing2 worker \<Rightarrow> if sl_ioCount s = 0 then release (to_caller worker) s else (caller worker, s)
      | _ \<Rightarrow> (pc, s))"

text \<open>\<open>ReleaseSession\<close>: \<open>OnClientLeave\<close> and the queues, \<open>Init\<close> of the session, \<open>PushIndex\<close>.\<close>

definition release_access :: "session_pc \<Rightarrow> slot \<Rightarrow> session_pc \<times> slot" where
  "release_access pc s =
     (case pc of
        Release0 k \<Rightarrow> (Release1 k, s)
      | Release1 k \<Rightarrow> (Release2 k, s\<lparr>sl_id := - 1, sl_isReleased := False, sl_ioCount := 0\<rparr>)
      | Release2 k \<Rightarrow> (resume k, s\<lparr>sl_pushes := sl_pushes s + 1\<rparr>)
      | _ \<Rightarrow> (pc, s))"

text \<open>Outside: the increment that begins \<open>SessionLock\<close>, or a completion for a worker.\<close>

definition outside_move :: "session_move \<Rightarrow> slot \<Rightarrow> (session_pc \<times> slot) option" where
  "outside_move m s =
     (case m of
        Lock sid \<Rightarrow> Some (Locked1 sid, s\<lparr>sl_ioCount := sl_ioCount s + 1\<rparr>)
      | Complete \<Rightarrow> if sl_pending s = 0 then None else Some (Work, s\<lparr>sl_pending := sl_pending s - 1\<rparr>)
      | _ \<Rightarrow> None)"

text \<open>With the session locked (\<open>Go\<close> is \<open>SessionUnLock\<close>), and in a worker (\<open>Go\<close> is the end of its turn).\<close>

definition busy_move :: "bool \<Rightarrow> session_move \<Rightarrow> slot \<Rightarrow> (session_pc \<times> slot) option" where
  "busy_move worker m s =
     (case m of
        Go \<Rightarrow> Some (if worker then turn_end s else unlock_access s)
      | Disconnect \<Rightarrow> Some (Closing0 worker, s)
      | Post \<Rightarrow> Some (caller worker, s\<lparr>sl_ioCount := sl_ioCount s + 1, sl_pending := sl_pending s + 1\<rparr>)
      | SendFail \<Rightarrow> Some (PostFailed worker False, s\<lparr>sl_ioCount := sl_ioCount s + 1\<rparr>)
      | RecvFail \<Rightarrow> if worker then Some (PostFailed worker True, s\<lparr>sl_ioCount := sl_ioCount s + 1\<rparr>) else None
      | _ \<Rightarrow> None)"

definition inner_step :: "session_pc \<Rightarrow> slot \<Rightarrow> session_pc \<times> slot" where
  "inner_step pc s =
     (case pc of
        WorkEnd \<Rightarrow> turn_end_access s
      | PostFailed worker recv \<Rightarrow> post_failed worker recv s
      | Closing0 worker \<Rightarrow> close_access pc s
      | Closing1 worker \<Rightarrow> close_access pc s
      | Closing2 worker \<Rightarrow> close_access pc s
      | Release0 k \<Rightarrow> release_access pc s
      | Release1 k \<Rightarrow> release_access pc s
      | Release2 k \<Rightarrow> release_access pc s
      | _ \<Rightarrow> lock_access pc s)"

definition session_next :: "session_move \<Rightarrow> session_pc \<Rightarrow> slot \<Rightarrow> (session_pc \<times> slot) option" where
  "session_next m pc s =
     (case pc of
        Outside \<Rightarrow> outside_move m s
      | Held \<Rightarrow> busy_move False m s
      | Work \<Rightarrow> busy_move True m s
      | _ \<Rightarrow> if m = Go then Some (inner_step pc s) else None)"

lemmas session_defs = session_next_def outside_move_def busy_move_def inner_step_def lock_access_def unlock_access_def
  turn_end_def turn_end_access_def post_failed_def close_access_def release_access_def decrement_def release_def caller_def to_caller_def Let_def

text \<open>
  A step of thread \<open>i\<close>. \<open>stale\<close> says whether \<open>SessionLock\<close> may be entered when nothing holds the session
  any more (the code lets it: ids outlive sessions).
\<close>

definition session_step :: "bool \<Rightarrow> nat \<times> session_move \<Rightarrow> session_pc list \<times> slot \<Rightarrow> (session_pc list \<times> slot) option" where
  "session_step stale im st =
     (case im of (i, m) \<Rightarrow> case st of (ts, s) \<Rightarrow>
        if length ts \<le> i \<or> (\<not> stale \<and> sl_ioCount s = 0 \<and> ts ! i = Outside \<and> m \<noteq> Complete) then None
        else map_option (\<lambda>(pc, s'). (ts[i := pc], s')) (session_next m (ts ! i) s))"

fun session_run :: "bool \<Rightarrow> (nat \<times> session_move) list \<Rightarrow> session_pc list \<times> slot \<Rightarrow> (session_pc list \<times> slot) option" where
  "session_run stale [] st = Some st"
| "session_run stale (im # ims) st =
     (case session_step stale im st of None \<Rightarrow> None | Some st1 \<Rightarrow> session_run stale ims st1)"

text \<open>A session that is open: its receive is pending, and all threads are outside.\<close>

definition open_slot :: "UINT64 \<Rightarrow> slot" where
  "open_slot sid = \<lparr>sl_id = sid, sl_ioCount = 1, sl_isReleased = False, sl_pending = 1, sl_releases = 0, sl_pushes = 0\<rparr>"

section \<open>The invariant of the runs without stale ids\<close>

text \<open>How many of the counts in \<open>ioCount\<close> are a thread's, whether it is releasing, and whether it is about to.\<close>

fun weight :: "session_pc \<Rightarrow> int" where
  "weight Outside = 0"
| "weight WorkEnd = 0"
| "weight (PostFailed worker recv) = 2"
| "weight (Release0 k) = (if k = ToOutside then 0 else 1)"
| "weight (Release1 k) = (if k = ToOutside then 0 else 1)"
| "weight (Release2 k) = (if k = ToOutside then 0 else 1)"
| "weight pc = 1"

definition releasing :: "session_pc \<Rightarrow> int" where
  "releasing pc = (case pc of Release0 k \<Rightarrow> 1 | Release1 k \<Rightarrow> 1 | Release2 k \<Rightarrow> 1 | _ \<Rightarrow> 0)"

definition ending :: "session_pc \<Rightarrow> int" where
  "ending pc = (if pc = WorkEnd then 1 else 0)"

definition tally :: "(session_pc \<Rightarrow> int) \<Rightarrow> session_pc list \<Rightarrow> int" where
  "tally f ts = sum_list (map f ts)"

lemma tally_update: "i < length ts \<Longrightarrow> tally f (ts[i := pc]) = tally f ts - f (ts ! i) + f pc"
proof (induction ts arbitrary: i)
  case (Cons t ts)
  then show ?case by (cases i) (simp_all add: tally_def)
qed simp

lemma tally_ge: "(\<And>pc. 0 \<le> f pc) \<Longrightarrow> i < length ts \<Longrightarrow> f (ts ! i) \<le> tally f ts"
  unfolding tally_def by (rule order_trans [OF _ member_le_sum_list]) auto

text \<open>A thread that has compared its id has found the one that is still there.\<close>

definition locked_ok :: "UINT64 \<Rightarrow> session_pc \<Rightarrow> bool" where
  "locked_ok sid pc = (case pc of Locked2 k \<Rightarrow> k = sid | Locked3 k \<Rightarrow> k = sid | LockGone \<Rightarrow> False | _ \<Rightarrow> True)"

definition session_inv :: "session_pc list \<times> slot \<Rightarrow> bool" where
  "session_inv st =
     (case st of (ts, s) \<Rightarrow>
        (\<forall>pc\<in>set ts. locked_ok (sl_id s) pc) \<and>
        sl_ioCount s = tally weight ts + int (sl_pending s) \<and>
        int (sl_releases s) = int (sl_pushes s) + tally releasing ts \<and>
        tally ending ts + int (sl_releases s) \<le> 1 \<and>
        (tally ending ts + int (sl_releases s) = 1 \<longrightarrow> sl_ioCount s = 0) \<and>
        (sl_ioCount s = 0 \<and> sl_isReleased s \<longrightarrow> tally ending ts + int (sl_releases s) = 1))"

text \<open>The invariant with the other threads as sums.\<close>

definition sums_ok :: "int \<Rightarrow> int \<Rightarrow> int \<Rightarrow> slot \<Rightarrow> bool" where
  "sums_ok w r e s \<longleftrightarrow>
     sl_ioCount s = w + int (sl_pending s) \<and> int (sl_releases s) = int (sl_pushes s) + r \<and>
     e + int (sl_releases s) \<le> 1 \<and> (e + int (sl_releases s) = 1 \<longrightarrow> sl_ioCount s = 0) \<and>
     (sl_ioCount s = 0 \<and> sl_isReleased s \<longrightarrow> e + int (sl_releases s) = 1)"

lemma session_inv_sums: "session_inv (ts, s) \<longleftrightarrow> (\<forall>pc\<in>set ts. locked_ok (sl_id s) pc) \<and> sums_ok (tally weight ts) (tally releasing ts) (tally ending ts) s"
  by (simp add: session_inv_def sums_ok_def)

lemma weights_nonneg [simp]: "0 \<le> weight pc" "0 \<le> releasing pc" "0 \<le> ending pc"
  by (cases pc; simp add: releasing_def ending_def)+

lemma next_sums:
  assumes "session_next m pc s = Some (pc', s')" and "pc = Outside \<Longrightarrow> m \<noteq> Complete \<Longrightarrow> sl_ioCount s \<noteq> 0"
    and "locked_ok (sl_id s) pc" and "sums_ok w r e s" and "weight pc \<le> w" and "releasing pc \<le> r" and "ending pc \<le> e"
  shows "sums_ok (w - weight pc + weight pc') (r - releasing pc + releasing pc') (e - ending pc + ending pc') s'"
proof (cases pc)
  case Outside
  with assms show ?thesis
    by (cases m) (auto simp: session_defs sums_ok_def releasing_def ending_def split: if_splits)
next
  case Held
  with assms show ?thesis
    by (cases m) (auto simp: session_defs sums_ok_def releasing_def ending_def split: if_splits)
next
  case Work
  with assms show ?thesis
    by (cases m) (auto simp: session_defs sums_ok_def releasing_def ending_def split: if_splits)
next
  case (PostFailed b c)
  with assms show ?thesis
    by (cases b; cases c) (auto simp: session_defs sums_ok_def releasing_def ending_def split: if_splits)
next
  case (Release0 k)
  with assms show ?thesis by (auto simp: session_defs sums_ok_def releasing_def ending_def split: if_splits)
next
  case (Release1 k)
  with assms show ?thesis by (auto simp: session_defs sums_ok_def releasing_def ending_def split: if_splits)
next
  case (Release2 k)
  with assms show ?thesis by (cases k) (auto simp: session_defs sums_ok_def releasing_def ending_def split: if_splits)
qed (use assms in \<open>auto simp: session_defs locked_ok_def sums_ok_def releasing_def ending_def split: if_splits\<close>)

lemma next_id:
  assumes "session_next m pc s = Some (pc', s')" and "locked_ok (sl_id s) pc"
  shows "locked_ok (sl_id s') pc' \<and> (sl_id s' \<noteq> sl_id s \<longrightarrow> releasing pc = 1)"
proof (cases pc)
  case Outside
  with assms show ?thesis by (cases m) (auto simp: session_defs locked_ok_def split: if_splits)
next
  case Held
  with assms show ?thesis by (cases m) (auto simp: session_defs locked_ok_def split: if_splits)
next
  case Work
  with assms show ?thesis by (cases m) (auto simp: session_defs locked_ok_def split: if_splits)
next
  case (Release2 k)
  with assms show ?thesis by (cases k) (auto simp: session_defs locked_ok_def split: if_splits)
qed (use assms in \<open>auto simp: session_defs locked_ok_def releasing_def split: if_splits\<close>)

lemma idle_locked_ok: "weight pc = 0 \<Longrightarrow> locked_ok sid pc"
  by (cases pc) (auto simp: locked_ok_def)

lemma session_step_inv:
  assumes "session_step False im st = Some st'" and "session_inv st"
  shows "session_inv st'"
proof -
  obtain i m ts s where st: "im = (i, m)" "st = (ts, s)" by (cases im; cases st)
  from assms(1) obtain pc' s' where n: "i < length ts" "session_next m (ts ! i) s = Some (pc', s')"
    "ts ! i = Outside \<Longrightarrow> m \<noteq> Complete \<Longrightarrow> sl_ioCount s \<noteq> 0" and st': "st' = (ts[i := pc'], s')"
    by (auto simp: session_step_def st split: if_splits)
  have ok: "sums_ok (tally weight ts) (tally releasing ts) (tally ending ts) s" and ids: "\<forall>pc\<in>set ts. locked_ok (sl_id s) pc"
    using assms(2) by (simp_all add: st session_inv_sums)
  then have l: "locked_ok (sl_id s) (ts ! i)" using n(1) by simp
  note ge = tally_ge [OF _ n(1), of weight] tally_ge [OF _ n(1), of releasing] tally_ge [OF _ n(1), of ending]
  have "locked_ok (sl_id s') pc" if pc: "pc \<in> set ts" for pc
  proof (cases "sl_id s' = sl_id s")
    case False
    with next_id [OF n(2) l] ge(2) have "1 \<le> tally releasing ts" by simp
    moreover have "0 \<le> tally ending ts" unfolding tally_def by (rule sum_list_nonneg) auto
    moreover have "int (sl_releases s) = int (sl_pushes s) + tally releasing ts" "tally ending ts + int (sl_releases s) \<le> 1"
      using ok by (simp_all add: sums_ok_def)
    ultimately have "tally ending ts + int (sl_releases s) = 1" by linarith
    then have "sl_ioCount s = 0" using ok by (simp add: sums_ok_def)
    then have "tally weight ts \<le> 0" using ok by (simp add: sums_ok_def)
    moreover obtain j where "j < length ts" "ts ! j = pc" using pc by (auto simp: in_set_conv_nth)
    ultimately have "weight pc \<le> 0" using tally_ge [of weight j ts] by simp
    then have "weight pc = 0" by (rule antisym) simp
    then show ?thesis by (rule idle_locked_ok)
  qed (use ids that in simp)
  then have "\<forall>pc\<in>set (ts[i := pc']). locked_ok (sl_id s') pc"
    using next_id [OF n(2) l] set_update_subset_insert [of ts i pc'] by blast
  with next_sums [OF n(2,3) l ok ge] show ?thesis
    by (simp add: st' session_inv_sums tally_update [OF n(1)])
qed

lemma session_run_inv: "session_run False ims st = Some st' \<Longrightarrow> session_inv st \<Longrightarrow> session_inv st'"
  by (induction ims arbitrary: st) (auto split: option.splits dest: session_step_inv)

lemma session_inv_open: "session_inv (replicate n Outside, open_slot sid)"
  by (simp add: session_inv_def open_slot_def tally_def releasing_def ending_def locked_ok_def sum_list_replicate)

text \<open>What the invariant says of a session that has been released, and of one that nothing uses.\<close>

lemma session_inv_released:
  assumes "session_inv (ts, s)" and "0 < sl_releases s"
  shows "sl_releases s = 1" and "sl_pending s = 0" and "pc \<in> set ts \<Longrightarrow> weight pc = 0"
proof -
  have e: "0 \<le> tally ending ts" and w: "0 \<le> tally weight ts" unfolding tally_def by (rule sum_list_nonneg; auto)+
  from assms e show "sl_releases s = 1" by (simp add: session_inv_def)
  with assms e have "tally weight ts + int (sl_pending s) = 0" by (auto simp: session_inv_def)
  with w have z: "sl_pending s = 0 \<and> tally weight ts = 0" by linarith
  then show "sl_pending s = 0" by simp
  show "weight pc = 0" if pc: "pc \<in> set ts"
  proof -
    obtain j where "j < length ts" "ts ! j = pc" using pc by (auto simp: in_set_conv_nth)
    then have "weight pc \<le> 0" using tally_ge [of weight j ts] z by simp
    then show ?thesis by (rule antisym) simp
  qed
qed

lemma tally_zero: "(\<And>pc. pc \<in> set ts \<Longrightarrow> f pc = 0) \<Longrightarrow> tally f ts = 0"
  by (induction ts) (simp_all add: tally_def)

lemma session_inv_idle:
  assumes "session_inv (ts, s)" and "\<forall>pc\<in>set ts. pc = Outside" and "sl_ioCount s = 0" and "sl_isReleased s"
  shows "sl_pushes s = 1"
proof -
  have "tally ending ts = 0" "tally releasing ts = 0"
    using assms(2) by (auto intro!: tally_zero simp: ending_def releasing_def)
  with assms(1,3,4) show ?thesis by (simp add: session_inv_def)
qed

section \<open>Released once, and twice\<close>

lemma double_release:
  "session_run True
     [(0, Complete), (0, Disconnect), (0, Go), (0, Go), (0, Go), (0, Go), (1, Lock sid), (0, Go),
      (1, Go), (1, Go), (1, Go), (0, Go), (0, Go), (0, Go), (1, Go), (1, Go), (1, Go)]
     (replicate 2 Outside, open_slot sid) =
   Some (replicate 2 Outside, \<lparr>sl_id = - 1, sl_ioCount = 0, sl_isReleased = False, sl_pending = 0,
     sl_releases = 2, sl_pushes = 2\<rparr>)"
  by (simp add: session_step_def session_defs open_slot_def numeral_2_eq_2)

text \<open>
  C12. Whatever the interleaving of the threads that lock, send on, complete, disconnect and unlock a
  session, as long as \<open>SessionLock\<close> is not entered once nothing holds it: \<open>ioCount\<close> is the number of pending
  operations and holding threads, \<open>ReleaseSession\<close> is begun at most once and pushes the slot's index at
  most once, when it begins no operation is pending and no thread holds the session, and a session that is
  closed and used by none has been given back. With an entry at the wrong moment, two threads do both release the session:
  the worker that took \<open>ioCount\<close> to 0, and the \<open>SessionLock\<close> that took it to 1 and back.
\<close>

theorem session_released_once:
  assumes "session_run False ims (replicate n Outside, open_slot sid) = Some (ts, s)"
  shows "sl_ioCount s = tally weight ts + int (sl_pending s) \<and> sl_releases s \<le> 1 \<and> sl_pushes s \<le> sl_releases s \<and>
         (sl_releases s = 1 \<longrightarrow> sl_pending s = 0 \<and> (\<forall>pc\<in>set ts. weight pc = 0)) \<and>
         ((\<forall>pc\<in>set ts. pc = Outside) \<and> sl_ioCount s = 0 \<and> sl_isReleased s \<longrightarrow> sl_pushes s = 1) \<and>
         (\<exists>ims' s'. session_run True ims' (replicate 2 Outside, open_slot sid) = Some (replicate 2 Outside, s') \<and>
                  sl_releases s' = 2 \<and> sl_pushes s' = 2)"
proof (intro conjI)
  have inv: "session_inv (ts, s)" by (rule session_run_inv [OF assms session_inv_open])
  show "sl_ioCount s = tally weight ts + int (sl_pending s)" using inv by (simp add: session_inv_def)
  show "sl_releases s \<le> 1" using session_inv_released(1) [OF inv] by linarith
  have "0 \<le> tally releasing ts" unfolding tally_def by (rule sum_list_nonneg) auto
  then show "sl_pushes s \<le> sl_releases s" using inv by (simp add: session_inv_def)
  show "sl_releases s = 1 \<longrightarrow> sl_pending s = 0 \<and> (\<forall>pc\<in>set ts. weight pc = 0)"
    using session_inv_released(2,3) [OF inv] by auto
  show "(\<forall>pc\<in>set ts. pc = Outside) \<and> sl_ioCount s = 0 \<and> sl_isReleased s \<longrightarrow> sl_pushes s = 1"
    using session_inv_idle [OF inv] by blast
  show "\<exists>ims' s'. session_run True ims' (replicate 2 Outside, open_slot sid) = Some (replicate 2 Outside, s') \<and>
                  sl_releases s' = 2 \<and> sl_pushes s' = 2"
    by (intro exI conjI) (rule double_release, simp_all)
qed

theorem session_released_once_witness:
  "let race = [(0, Complete), (1, Lock 5), (0, Disconnect), (0, Go), (1, Go), (0, Go), (0, Go), (0, Go), (1, Go), (1, Go)]
   in case session_run False race (replicate 3 Outside, open_slot 5) of
        None \<Rightarrow> False
      | Some (ts, s) \<Rightarrow> ts = [Outside, Release0 ToOutside, Outside] \<and> sl_releases s = 1 \<and> sl_pushes s \<le> 1 \<and> sl_pending s = 0"
proof -
  obtain s where run: "session_run False
      [(0, Complete), (1, Lock 5), (0, Disconnect), (0, Go), (1, Go), (0, Go), (0, Go), (0, Go), (1, Go), (1, Go)]
      (replicate 3 Outside, open_slot 5) = Some ([Outside, Release0 ToOutside, Outside], s)" "sl_releases s = 1"
    by (simp add: session_step_def session_defs open_slot_def numeral_3_eq_3)
  from session_released_once [OF run(1)] run(2) have "sl_pushes s \<le> 1 \<and> sl_pending s = 0" by simp
  with run show ?thesis by (simp only: Let_def option.case prod.case simp_thms)
qed

end
