(* ===== verification/PlayerRace.thy ===== *)
theory PlayerRace
  imports Sector
begin

text \<open>
  The life of one player at the granularity of its shared accesses. Two threads work on it: the one
  that runs the handlers of its session (requests, and \<open>LeaveProc\<close> when the session is released; they do not
  overlap, as a session has one receive pending and is released when nothing holds it) and the Redis
  thread in \<open>CompleteLogin\<close>. A step is one read, write or atomic operation on the player, or a section under
  a lock; what the handlers send is left out.
\<close>

section \<open>The player\<close>

text \<open>
  \<open>pr_in\<close>: the map \<open>players\<close> has it under its session. \<open>pr_cells\<close>: the sectors whose sets hold it. \<open>pr_accounts\<close>:
  the map \<open>accounts\<close>. \<open>pr_frees\<close>: how often \<open>ReleasePlayer\<close> has given it back to the pool.
\<close>

record player_slot =
  pr_in :: bool
  pr_closing :: bool
  pr_ref :: int
  pr_frees :: nat
  pr_logined :: bool
  pr_account :: UINT64
  pr_x :: WORD
  pr_y :: WORD
  pr_cells :: "sector_id set"
  pr_accounts :: "UINT64 \<Rightarrow> UINT64 option"

text \<open>A request moves to a sector (\<open>Some\<close>) or does something else to no shared member (\<open>None\<close>).\<close>

datatype request_pc =
    ReqOff
  | ReqFound "(WORD \<times> WORD) option"
  | ReqUse "(WORD \<times> WORD) option"
  | MoveX WORD WORD
  | MoveY WORD WORD WORD
  | MoveSets WORD WORD WORD WORD
  | MoveSetX WORD WORD
  | MoveSetY WORD WORD
  | ReqDone
  | LeaveLogined
  | LeaveAccount
  | LeaveErase
  | LeaveSector
  | LeaveCell
  | LeaveClose

datatype login_pc =
    LoginOff
  | LoginFound UINT64 bool
  | LoginCheck UINT64 bool
  | LoginRegister UINT64 bool
  | LoginMark UINT64
  | LoginAccount UINT64
  | LoginDone

text \<open>\<open>Other\<close> is what other sessions do to \<open>accounts\<close>.\<close>

datatype player_move =
    StartRequest "(WORD \<times> WORD) option"
  | StartLeave
  | StartLogin UINT64 bool
  | StepRequest
  | StepLogin
  | Other UINT64 "UINT64 option"

section \<open>The steps\<close>

text \<open>The section of \<open>AcquirePlayer\<close> under the lock of the players.\<close>

definition acquire :: "'p \<Rightarrow> 'p \<Rightarrow> player_slot \<Rightarrow> 'p \<times> player_slot" where
  "acquire found off s = (if pr_in s then (found, s\<lparr>pr_ref := pr_ref s + 1\<rparr>) else (off, s))"

text \<open>\<open>ReleasePlayer\<close>.\<close>

definition release_ref :: "'p \<Rightarrow> player_slot \<Rightarrow> 'p \<times> player_slot" where
  "release_ref off s =
     (let r = pr_ref s - 1
      in (off, if r = 0 then s\<lparr>pr_ref := r, pr_frees := pr_frees s + 1\<rparr> else s\<lparr>pr_ref := r\<rparr>))"

text \<open>The section of \<open>LeaveProc\<close> under the lock of the players.\<close>

definition leave_section :: "player_slot \<Rightarrow> request_pc \<times> player_slot" where
  "leave_section s =
     (if pr_in s then (LeaveLogined, s\<lparr>pr_in := False, pr_ref := pr_ref s + 1, pr_closing := True\<rparr>) else (ReqOff, s))"

text \<open>\<open>LeaveProc\<close> after it.\<close>

definition leave_access :: "UINT64 \<Rightarrow> request_pc \<Rightarrow> player_slot \<Rightarrow> request_pc \<times> player_slot" where
  "leave_access sid pc s =
     (case pc of
        LeaveLogined \<Rightarrow> (if pr_logined s then LeaveAccount else LeaveSector, s)
      | LeaveAccount \<Rightarrow> (if pr_account s \<noteq> 0 then LeaveErase else LeaveSector, s)
      | LeaveErase \<Rightarrow>
          (LeaveSector, if pr_accounts s (pr_account s) = Some sid
                        then s\<lparr>pr_accounts := (pr_accounts s)(pr_account s := None)\<rparr> else s)
      | LeaveSector \<Rightarrow> (if IsValidSector (pr_x s) (pr_y s) then LeaveCell else LeaveClose, s)
      | LeaveCell \<Rightarrow> (LeaveClose, s\<lparr>pr_cells := pr_cells s - {(pr_x s, pr_y s)}\<rparr>)
      | LeaveClose \<Rightarrow> (ReqDone, s\<lparr>pr_closing := True\<rparr>)
      | _ \<Rightarrow> (pc, s))"

text \<open>\<open>Req_SectorMove\<close> once the request is read.\<close>

definition move_access :: "request_pc \<Rightarrow> player_slot \<Rightarrow> request_pc \<times> player_slot" where
  "move_access pc s =
     (case pc of
        MoveX x y \<Rightarrow> (if IsValidSector x y then MoveY x y (pr_x s) else ReqDone, s)
      | MoveY x y ox \<Rightarrow> (MoveSets x y ox (pr_y s), s)
      | MoveSets x y ox oy \<Rightarrow>
          (MoveSetX x y, s\<lparr>pr_cells := insert (x, y) (if IsValidSector ox oy then pr_cells s - {(ox, oy)} else pr_cells s)\<rparr>)
      | MoveSetX x y \<Rightarrow> (MoveSetY x y, s\<lparr>pr_x := x\<rparr>)
      | MoveSetY x y \<Rightarrow> (ReqDone, s\<lparr>pr_y := y\<rparr>)
      | _ \<Rightarrow> (pc, s))"

text \<open>\<open>RecvProc\<close> around it; \<open>LeaveProc\<close> ends with the same release.\<close>

definition request_access :: "UINT64 \<Rightarrow> request_pc \<Rightarrow> player_slot \<Rightarrow> request_pc \<times> player_slot" where
  "request_access sid pc s =
     (case pc of
        ReqFound m \<Rightarrow> (if pr_closing s then ReqDone else ReqUse m, s)
      | ReqUse m \<Rightarrow> (case m of None \<Rightarrow> (ReqDone, s) | Some (x, y) \<Rightarrow> (MoveX x y, s))
      | ReqDone \<Rightarrow> release_ref ReqOff s
      | MoveX x y \<Rightarrow> move_access pc s
      | MoveY x y ox \<Rightarrow> move_access pc s
      | MoveSets x y ox oy \<Rightarrow> move_access pc s
      | MoveSetX x y \<Rightarrow> move_access pc s
      | MoveSetY x y \<Rightarrow> move_access pc s
      | _ \<Rightarrow> leave_access sid pc s)"

text \<open>\<open>CompleteLogin\<close>, with the result of the login.\<close>

definition login_access :: "UINT64 \<Rightarrow> login_pc \<Rightarrow> player_slot \<Rightarrow> login_pc \<times> player_slot" where
  "login_access sid pc s =
     (case pc of
        LoginOff \<Rightarrow> (LoginOff, s)
      | LoginFound a ok \<Rightarrow> (if pr_closing s then LoginDone else LoginCheck a ok, s)
      | LoginCheck a ok \<Rightarrow> (if pr_closing s then LoginDone else LoginRegister a ok, s)
      | LoginRegister a ok \<Rightarrow>
          if ok then (LoginMark a, s\<lparr>pr_accounts := (pr_accounts s)(a := Some sid)\<rparr>) else (LoginDone, s)
      | LoginMark a \<Rightarrow> (LoginAccount a, s\<lparr>pr_logined := True\<rparr>)
      | LoginAccount a \<Rightarrow> (LoginDone, s\<lparr>pr_account := a\<rparr>)
      | LoginDone \<Rightarrow> release_ref LoginOff s)"

type_synonym player_race = "request_pc \<times> login_pc \<times> player_slot"

text \<open>A move that does not apply changes nothing.\<close>

definition player_step :: "UINT64 \<Rightarrow> player_move \<Rightarrow> player_race \<Rightarrow> player_race" where
  "player_step sid m st =
     (case st of (rp, lp, s) \<Rightarrow>
        case m of
          StartRequest r \<Rightarrow> if rp = ReqOff then (case acquire (ReqFound r) ReqOff s of (rp', s') \<Rightarrow> (rp', lp, s')) else st
        | StartLeave \<Rightarrow> if rp = ReqOff then (case leave_section s of (rp', s') \<Rightarrow> (rp', lp, s')) else st
        | StartLogin a ok \<Rightarrow> if lp = LoginOff then (case acquire (LoginFound a ok) LoginOff s of (lp', s') \<Rightarrow> (rp, lp', s')) else st
        | StepRequest \<Rightarrow> if rp \<noteq> ReqOff then (case request_access sid rp s of (rp', s') \<Rightarrow> (rp', lp, s')) else st
        | StepLogin \<Rightarrow> (case login_access sid lp s of (lp', s') \<Rightarrow> (rp, lp', s'))
        | Other a v \<Rightarrow> if v \<noteq> Some sid then (rp, lp, s\<lparr>pr_accounts := (pr_accounts s)(a := v)\<rparr>) else st)"

definition player_run :: "UINT64 \<Rightarrow> player_move list \<Rightarrow> player_race \<Rightarrow> player_race" where
  "player_run sid ms st = fold (player_step sid) ms st"

text \<open>A player as \<open>JoinProc\<close> leaves it.\<close>

definition joined :: "(UINT64 \<Rightarrow> UINT64 option) \<Rightarrow> player_slot" where
  "joined reg = \<lparr>pr_in = True, pr_closing = False, pr_ref = 1, pr_frees = 0, pr_logined = False, pr_account = 0,
     pr_x = - 1, pr_y = - 1, pr_cells = {}, pr_accounts = reg\<rparr>"

lemmas player_race_defs = player_step_def acquire_def release_ref_def leave_section_def leave_access_def move_access_def
  request_access_def login_access_def Let_def

section \<open>The invariant\<close>

text \<open>What the thread of the session knows of the position and the sets at each of its steps.\<close>

definition cells_at :: "request_pc \<Rightarrow> player_slot \<Rightarrow> bool" where
  "cells_at rp s =
     (case rp of
        MoveX x y \<Rightarrow> pr_in s \<and> pr_cells s \<subseteq> {(pr_x s, pr_y s)}
      | MoveY x y ox \<Rightarrow> pr_in s \<and> IsValidSector x y \<and> ox = pr_x s \<and> pr_cells s \<subseteq> {(pr_x s, pr_y s)}
      | MoveSets x y ox oy \<Rightarrow> pr_in s \<and> IsValidSector x y \<and> ox = pr_x s \<and> oy = pr_y s \<and> pr_cells s \<subseteq> {(pr_x s, pr_y s)}
      | MoveSetX x y \<Rightarrow> pr_in s \<and> IsValidSector x y \<and> pr_cells s = {(x, y)}
      | MoveSetY x y \<Rightarrow> pr_in s \<and> IsValidSector x y \<and> pr_cells s = {(x, y)} \<and> pr_x s = x
      | ReqFound m \<Rightarrow> pr_in s \<and> pr_cells s \<subseteq> {(pr_x s, pr_y s)}
      | ReqUse m \<Rightarrow> pr_in s \<and> pr_cells s \<subseteq> {(pr_x s, pr_y s)}
      | ReqOff \<Rightarrow> pr_cells s \<subseteq> (if pr_in s then {(pr_x s, pr_y s)} else {})
      | ReqDone \<Rightarrow> pr_cells s \<subseteq> (if pr_in s then {(pr_x s, pr_y s)} else {})
      | LeaveClose \<Rightarrow> \<not> pr_in s \<and> pr_cells s = {}
      | _ \<Rightarrow> \<not> pr_in s \<and> pr_cells s \<subseteq> {(pr_x s, pr_y s)})"

definition player_race_inv :: "player_race \<Rightarrow> bool" where
  "player_race_inv st =
     (case st of (rp, lp, s) \<Rightarrow>
        pr_ref s = 1 + (if rp = ReqOff then 0 else 1) + (if lp = LoginOff then 0 else 1) \<and>
        pr_frees s = 0 \<and> pr_closing s = (\<not> pr_in s) \<and>
        (\<forall>c\<in>pr_cells s. IsValidSector (fst c) (snd c)) \<and> cells_at rp s)"

lemmas race_inv_simps = player_race_inv_def cells_at_def

lemma request_inv:
  assumes inv: "player_race_inv (rp, lp, s)" and "rp \<noteq> ReqOff" and r: "request_access sid rp s = (rp', s')"
  shows "player_race_inv (rp', lp, s')"
proof (cases rp)
  case (ReqUse m)
  with inv r show ?thesis by (cases m) (auto simp: race_inv_simps request_access_def)
next
  case LeaveSector
  with inv r show ?thesis by (auto simp: race_inv_simps request_access_def leave_access_def subset_singleton_iff split: if_splits)
next
  case LeaveCell
  with inv r show ?thesis by (auto simp: race_inv_simps request_access_def leave_access_def)
next
  case (MoveSets x y ox oy)
  with inv r show ?thesis
    by (auto simp: race_inv_simps request_access_def move_access_def subset_singleton_iff split: if_splits)
next
  case ReqDone
  with inv r show ?thesis by (cases lp) (auto simp: race_inv_simps request_access_def release_ref_def Let_def split: if_splits)
qed (use assms in \<open>auto simp: race_inv_simps request_access_def move_access_def leave_access_def split: if_splits\<close>)

lemma cells_at_cong:
  "pr_in s' = pr_in s \<Longrightarrow> pr_x s' = pr_x s \<Longrightarrow> pr_y s' = pr_y s \<Longrightarrow> pr_cells s' = pr_cells s \<Longrightarrow> cells_at rp s' = cells_at rp s"
  by (cases rp) (simp_all add: cells_at_def)

lemma login_keeps:
  assumes "login_access sid lp s = (lp', s')"
  shows "pr_in s' = pr_in s" "pr_x s' = pr_x s" "pr_y s' = pr_y s" "pr_cells s' = pr_cells s" "pr_closing s' = pr_closing s"
  using assms by (cases lp; force simp: login_access_def release_ref_def Let_def split: if_splits)+

lemma login_refs:
  assumes r: "login_access sid lp s = (lp', s')" and "pr_frees s = 0"
    and "pr_ref s = 1 + (if b then 0 else 1) + (if lp = LoginOff then 0 else 1)"
  shows "pr_ref s' = 1 + (if b then 0 else 1) + (if lp' = LoginOff then 0 else 1) \<and> pr_frees s' = 0"
  using assms by (cases lp) (auto simp: login_access_def release_ref_def Let_def split: if_splits)

lemma login_inv:
  assumes inv: "player_race_inv (rp, lp, s)" and r: "login_access sid lp s = (lp', s')"
  shows "player_race_inv (rp, lp', s')"
  using inv login_keeps [OF r] login_refs [OF r, of "rp = ReqOff"] cells_at_cong [OF login_keeps(1-4) [OF r], of rp]
  by (simp add: player_race_inv_def)

lemma cells_at_members:
  "cells_at rp (s\<lparr>pr_ref := n\<rparr>) = cells_at rp s" "cells_at rp (s\<lparr>pr_accounts := g\<rparr>) = cells_at rp s"
  by (rule cells_at_cong; simp)+

lemma player_step_inv:
  assumes inv: "player_race_inv st"
  shows "player_race_inv (player_step sid m st)"
proof -
  obtain rp lp s where st: "st = (rp, lp, s)" by (cases st)
  show ?thesis
  proof (cases m)
    case (StartRequest r)
    with inv show ?thesis by (auto simp: st player_step_def acquire_def race_inv_simps)
  next
    case StartLeave
    with inv show ?thesis by (auto simp: st player_step_def leave_section_def race_inv_simps)
  next
    case (StartLogin a ok)
    with inv show ?thesis by (auto simp: st player_step_def acquire_def player_race_inv_def cells_at_members)
  next
    case StepRequest
    with inv show ?thesis by (cases "request_access sid rp s") (auto simp: st player_step_def dest: request_inv)
  next
    case StepLogin
    with inv show ?thesis by (cases "login_access sid lp s") (auto simp: st player_step_def dest: login_inv)
  next
    case (Other a v)
    with inv show ?thesis by (auto simp: st player_step_def player_race_inv_def cells_at_members)
  qed
qed

lemma player_run_inv: "player_race_inv st \<Longrightarrow> player_race_inv (player_run sid ms st)"
  unfolding player_run_def by (induction ms arbitrary: st) (simp_all add: player_step_inv)

lemma joined_inv: "player_race_inv (ReqOff, LoginOff, joined reg)"
  by (simp add: race_inv_simps joined_def)

lemma one_sector:
  assumes "player_race_inv (rp, lp, s)"
  shows "pr_cells s = {} \<or> (\<exists>x y. pr_cells s = {(x, y)} \<and> IsValidSector x y)"
proof -
  have "\<exists>c. pr_cells s \<subseteq> {c}"
    using assms unfolding player_race_inv_def prod.case by (cases rp) (auto simp: cells_at_def split: if_splits)
  then show ?thesis using assms by (auto simp: player_race_inv_def subset_singleton_iff)
qed

section \<open>Accounts that stay\<close>

lemma nowhere: "\<not> IsValidSector (- 1) y"
  by (simp add: IsValidSector_def dfSECTOR_MAX_X_def dfSECTOR_MAX_Y_def unsigned_minus_1_eq_mask mask_eq_exp_minus_1)

text \<open>A client leaves between the second look of \<open>CompleteLogin\<close> at \<open>closing\<close> and its entry in \<open>accounts\<close>.\<close>

definition late_login :: "UINT64 \<Rightarrow> player_move list" where
  "late_login a = [StartLogin a True, StepLogin, StepLogin, StartLeave] @ replicate 4 StepRequest @ replicate 4 StepLogin"

text \<open>Two requests to login wait in the queue, for two accounts; then the client leaves.\<close>

definition two_logins :: "UINT64 \<Rightarrow> UINT64 \<Rightarrow> player_move list" where
  "two_logins a b = StartLogin a True # replicate 6 StepLogin @ StartLogin b True # replicate 6 StepLogin @
     StartLeave # replicate 6 StepRequest"

lemmas run_simps = player_run_def player_race_defs joined_def nowhere numeral_eq_Suc

lemma late_login_stays:
  "\<exists>s. player_run sid (late_login a) (ReqOff, LoginOff, joined reg) = (ReqOff, LoginOff, s) \<and> \<not> pr_in s \<and> pr_accounts s a = Some sid"
  by (simp add: run_simps late_login_def)

lemma two_logins_stay:
  "a \<noteq> b \<Longrightarrow> b \<noteq> 0 \<Longrightarrow>
    \<exists>s. player_run sid (two_logins a b) (ReqOff, LoginOff, joined reg) = (ReqOff, LoginOff, s) \<and> \<not> pr_in s \<and>
      pr_accounts s a = Some sid \<and> pr_accounts s b = None"
  by (simp add: run_simps two_logins_def)

text \<open>
  C13. Whatever the interleaving of the requests and the leaving of a session with the logins the Redis
  thread completes, and whatever other sessions do to the accounts: a player is referenced once more
  than threads work on it and never given back while they do, it is closing exactly when it is no longer in
  the map; at every step it is in the sets of at most one sector, and that one is on the map; between
  requests it stands in no sector but its own, in none once it has left. Its account is not safe: a login
  that overtakes the leaving stays registered, and so does the first of two logins.
\<close>

theorem player_kept_in_races:
  assumes "player_run sid ms (ReqOff, LoginOff, joined reg) = (rp, lp, s)" and "a \<noteq> b" and "b \<noteq> 0"
  shows "pr_ref s = 1 + (if rp = ReqOff then 0 else 1) + (if lp = LoginOff then 0 else 1) \<and> pr_frees s = 0 \<and>
         pr_closing s = (\<not> pr_in s) \<and>
         (pr_cells s = {} \<or> (\<exists>x y. pr_cells s = {(x, y)} \<and> IsValidSector x y)) \<and>
         (rp = ReqOff \<longrightarrow> pr_cells s \<subseteq> (if pr_in s then {(pr_x s, pr_y s)} else {})) \<and>
         (\<exists>t. player_run sid (late_login a) (ReqOff, LoginOff, joined reg) = (ReqOff, LoginOff, t) \<and> \<not> pr_in t \<and>
              pr_accounts t a = Some sid) \<and>
         (\<exists>t. player_run sid (two_logins a b) (ReqOff, LoginOff, joined reg) = (ReqOff, LoginOff, t) \<and> \<not> pr_in t \<and>
              pr_accounts t a = Some sid \<and> pr_accounts t b = None)"
proof -
  have inv: "player_race_inv (rp, lp, s)" using player_run_inv [OF joined_inv, of sid ms reg] assms(1) by simp
  then have "pr_ref s = 1 + (if rp = ReqOff then 0 else 1) + (if lp = LoginOff then 0 else 1) \<and> pr_frees s = 0 \<and>
         pr_closing s = (\<not> pr_in s) \<and> (rp = ReqOff \<longrightarrow> pr_cells s \<subseteq> (if pr_in s then {(pr_x s, pr_y s)} else {}))"
    unfolding player_race_inv_def prod.case by (cases rp) (simp_all add: cells_at_def)
  with one_sector [OF inv] late_login_stays two_logins_stay [OF assms(2,3)] show ?thesis by blast
qed

theorem player_kept_in_races_witness:
  "\<exists>s. player_run 5 ([StartRequest (Some (3, 4)), StartLogin 7 True] @ replicate 8 StepRequest @ [StartRequest (Some (4, 4))] @
         replicate 2 StepRequest @ replicate 3 StepLogin) (ReqOff, LoginOff, joined (\<lambda>_. None)) =
       (MoveX 4 4, LoginMark 7, s) \<and> pr_cells s = {(3, 4)} \<and> pr_ref s = 3"
proof -
  have "IsValidSector 3 4" by (simp add: IsValidSector_def dfSECTOR_MAX_X_def dfSECTOR_MAX_Y_def)
  then obtain s where r: "player_run 5 ([StartRequest (Some (3, 4)), StartLogin 7 True] @ replicate 8 StepRequest @
       [StartRequest (Some (4, 4))] @ replicate 2 StepRequest @ replicate 3 StepLogin) (ReqOff, LoginOff, joined (\<lambda>_. None)) =
       (MoveX 4 4, LoginMark 7, s)" "pr_cells s = {(3, 4)}" by (simp add: run_simps)
  from player_kept_in_races [OF r(1), of 1 2] have "pr_ref s = 3" by simp
  with r show ?thesis by blast
qed

end
