(* ===== verification/CrashDump.thy ===== *)
theory CrashDump
  imports CRuntime
begin

text \<open>
  The crash dump class (CrashDumpClass.h): the handlers its constructor installs, what each of them does,
  and the exception filter that writes the dump. What Windows answers is an argument of the filter; a
  file system is the map from names to the dumps in it. The size of the working set, which the filter
  asks for, is used nowhere and left out, as is what it prints.
\<close>

section \<open>State\<close>

type_synonym LONG = "32 word"

record SYSTEMTIME =
  wYear :: WORD
  wMonth :: WORD
  wDay :: WORD
  wHour :: WORD
  wMinute :: WORD
  wSecond :: WORD

record minidump =
  ThreadId :: DWORD
  ExceptionPointers :: UINT64
  ClientPointers :: bool

text \<open>
  What a call of a handler of the runtime does is a result, \<open>None\<close> the default of the runtime, which ends the
  process. \<open>report_mode\<close> is indexed by \<open>_CRT_WARN\<close> (0), \<open>_CRT_ERROR\<close> (1) and \<open>_CRT_ASSERT\<close> (2). In \<open>files\<close> a dump
  that was created and could not be written is \<open>None\<close>. \<open>dumps\<close> records the files created, with their
  counts, for the statements below.
\<close>

record crash_state =
  lDumpCount :: LONG
  invalid_parameter :: "unit res option"
  report_hook :: "bool res option"
  purecall :: "unit res option"
  report_mode :: "nat \<Rightarrow> nat"
  exception_filter :: bool
  files :: "wstr \<Rightarrow> minidump option option"
  dumps :: "(LONG \<times> wstr \<times> minidump option) list"

text \<open>A process before the constructor has run.\<close>

definition fresh_process :: "(wstr \<Rightarrow> minidump option option) \<Rightarrow> crash_state" where
  "fresh_process fs =
     \<lparr>lDumpCount = 0, invalid_parameter = None, report_hook = None, purecall = None, report_mode = (\<lambda>_. 1),
      exception_filter = False, files = fs, dumps = []\<rparr>"

section \<open>The handlers\<close>

text \<open>\<open>*p = 0\<close> through the null pointer.\<close>

definition Crash :: "unit res" where
  "Crash = Inl NullPointer"

definition myInvalidParameterHandler :: "unit res" where
  "myInvalidParameterHandler = Crash"

definition custom_Report_hook :: "bool res" where
  "custom_Report_hook = andThen Crash (\<lambda>_. Inr True)"

definition myPurecallHander :: "unit res" where
  "myPurecallHander = Crash"

definition SetHandlerDump :: "crash_state \<Rightarrow> crash_state" where
  "SetHandlerDump s = s\<lparr>exception_filter := True\<rparr>"

definition CCrashDump_init :: "crash_state \<Rightarrow> crash_state" where
  "CCrashDump_init s =
     SetHandlerDump (s\<lparr>lDumpCount := 0, invalid_parameter := Some myInvalidParameterHandler,
       report_mode := (report_mode s)(0 := 0, 2 := 0, 1 := 0),
       report_hook := Some custom_Report_hook, purecall := Some myPurecallHander\<rparr>)"

text \<open>
  What ends a process: an exception nothing handles, or an error for which the runtime calls a handler.
  \<open>raised\<close> is the exception that reaches the filter of unhandled exceptions, if one does.
\<close>

datatype crash_event = Unhandled fault | InvalidParameterError | PureCall | Report nat

definition raised :: "crash_event \<Rightarrow> crash_state \<Rightarrow> fault option" where
  "raised e s =
     (case e of
        Unhandled x \<Rightarrow> Some x
      | InvalidParameterError \<Rightarrow> (case invalid_parameter s of Some (Inl x) \<Rightarrow> Some x | _ \<Rightarrow> None)
      | PureCall \<Rightarrow> (case purecall s of Some (Inl x) \<Rightarrow> Some x | _ \<Rightarrow> None)
      | Report kind \<Rightarrow> (case report_hook s of Some (Inl x) \<Rightarrow> Some x | _ \<Rightarrow> None))"

section \<open>The filter\<close>

text \<open>\<open>%d\<close> and \<open>%02d\<close>. \<open>wsprintf\<close> does not know the size of its buffer.\<close>

definition signed_decimal :: "int \<Rightarrow> wstr" where
  "signed_decimal k = (if k < 0 then 45 # decimal (nat (- k)) else decimal (nat k))"

definition pad2 :: "nat \<Rightarrow> wstr" where
  "pad2 n = replicate (2 - length (decimal n)) 48 @ decimal n"

definition wsprintf :: "nat \<Rightarrow> wstr \<Rightarrow> wstr res" where
  "wsprintf n text = (if length text < n then Inr text else Inl OutOfBoundsWrite)"

definition dump_name :: "SYSTEMTIME \<Rightarrow> LONG \<Rightarrow> wstr" where
  "dump_name t count =
     L ''DUMP_'' @ decimal (unat (wYear t)) @ pad2 (unat (wMonth t)) @ pad2 (unat (wDay t)) @ L ''_'' @
     pad2 (unat (wHour t)) @ L ''.'' @ pad2 (unat (wMinute t)) @ L ''.'' @ pad2 (unat (wSecond t)) @ L ''_'' @
     signed_decimal (sint count) @ L ''.dmp''"

text \<open>What Windows answers: \<open>a_process\<close> and \<open>a_created\<close> whether a handle is given, \<open>a_written\<close> whether the dump is.\<close>

record answers =
  a_process :: bool
  a_time :: SYSTEMTIME
  a_created :: bool
  a_thread :: DWORD
  a_written :: bool

text \<open>The count is taken by an interlocked increment, the rest of the filter works on locals and the file.\<close>

definition filter_begin :: "crash_state \<Rightarrow> LONG \<times> crash_state" where
  "filter_begin s = (lDumpCount s + 1, s\<lparr>lDumpCount := lDumpCount s + 1\<rparr>)"

definition filter_end :: "LONG \<Rightarrow> answers \<Rightarrow> UINT64 \<Rightarrow> crash_state \<Rightarrow> (LONG \<times> crash_state) res" where
  "filter_end count A ep s =
     (if \<not> a_process A then Inr (0, s)
      else andThen (wsprintf 260 (dump_name (a_time A) count)) (\<lambda>name.
        if \<not> a_created A then Inr (1, s)
        else let d = (if a_written A then Some \<lparr>ThreadId = a_thread A, ExceptionPointers = ep, ClientPointers = True\<rparr>
                      else None)
             in Inr (1, s\<lparr>files := (files s)(name \<mapsto> d), dumps := dumps s @ [(count, name, d)]\<rparr>)))"

definition MyExceptionFilter :: "answers \<Rightarrow> UINT64 \<Rightarrow> crash_state \<Rightarrow> (LONG \<times> crash_state) res" where
  "MyExceptionFilter A ep s = (case filter_begin s of (count, s1) \<Rightarrow> filter_end count A ep s1)"

section \<open>Threads that crash\<close>

text \<open>
  A thread meets an event (\<open>Meet\<close>) and begins the filter, and finishes it later; any number of threads
  do, in any order. The pending counts are their local \<open>DumpCount\<close>.
\<close>

datatype crash_move = Meet nat crash_event | Finish nat answers UINT64

fun crash_step :: "crash_move \<Rightarrow> crash_state \<times> (nat \<Rightarrow> LONG option) \<Rightarrow> (crash_state \<times> (nat \<Rightarrow> LONG option)) res" where
  "crash_step (Meet i e) (s, w) =
     (if w i = None \<and> raised e s \<noteq> None \<and> exception_filter s
      then case filter_begin s of (count, s1) \<Rightarrow> Inr (s1, w(i \<mapsto> count))
      else Inr (s, w))"
| "crash_step (Finish i A ep) (s, w) =
     (case w i of
        None \<Rightarrow> Inr (s, w)
      | Some count \<Rightarrow> andThen (filter_end count A ep s) (\<lambda>(r, s1). Inr (s1, w(i := None))))"

fun crash_run :: "crash_move list \<Rightarrow> crash_state \<times> (nat \<Rightarrow> LONG option) \<Rightarrow> (crash_state \<times> (nat \<Rightarrow> LONG option)) res" where
  "crash_run [] sw = Inr sw"
| "crash_run (m # ms) sw = andThen (crash_step m sw) (crash_run ms)"

section \<open>The names\<close>

definition digit :: "WCHAR \<Rightarrow> bool" where
  "digit c \<longleftrightarrow> c \<in> (\<lambda>d. 48 + of_nat d) ` {..<10}"

lemma digit_word: "d < 10 \<Longrightarrow> digit (48 + of_nat d)"
  by (auto simp: digit_def)

lemma digit_cases: "digit c \<Longrightarrow> c \<in> {48, 49, 50, 51, 52, 53, 54, 55, 56, 57}"
  by (auto simp: digit_def lessThan_Suc numeral_eq_Suc)

lemma decimal_digits: "c \<in> set (decimal n) \<Longrightarrow> digit c"
proof (induction n rule: decimal.induct)
  case (1 n)
  then show ?case by (subst (asm) decimal.simps) (auto simp: digit_word split: if_splits)
qed

definition digits_value :: "wstr \<Rightarrow> nat" where
  "digits_value = foldl (\<lambda>a c. 10 * a + unat (c - 48)) 0"

lemma digits_value_snoc [simp]: "digits_value (xs @ [c]) = 10 * digits_value xs + unat (c - 48)"
  by (simp add: digits_value_def)

lemma digits_value_decimal: "digits_value (decimal n) = n"
proof (induction n rule: decimal.induct)
  case (1 n)
  have small: "unat (of_nat d :: WCHAR) = d" if "d < 10" for d
    using that by (simp add: unat_of_nat take_bit_nat_eq_self)
  show ?case
  proof (cases "n < 10")
    case True
    then show ?thesis by (subst decimal.simps) (simp add: digits_value_def small)
  next
    case False
    with 1 show ?thesis by (subst decimal.simps) (simp add: small)
  qed
qed

lemma decimal_inj: "decimal m = decimal n \<Longrightarrow> m = n"
  by (metis digits_value_decimal)

lemma signed_decimal_inj: "signed_decimal j = signed_decimal k \<Longrightarrow> j = k"
proof -
  assume eq: "signed_decimal j = signed_decimal k"
  have no_minus: "decimal n \<noteq> 45 # xs" for n xs
  proof
    assume "decimal n = 45 # xs"
    then have "digit 45" using decimal_digits [of 45 n] by simp
    from digit_cases [OF this] show False by simp
  qed
  with eq show "j = k"
    by (auto simp: signed_decimal_def no_minus no_minus [symmetric] dest: decimal_inj split: if_splits)
qed

lemma last_field:
  assumes "xs @ c # u = ys @ c # v" and "c \<notin> set u" and "c \<notin> set v"
  shows "u = v"
proof -
  have "takeWhile (\<lambda>x. x \<noteq> c) (rev u @ c # rev xs) = rev u" "takeWhile (\<lambda>x. x \<noteq> c) (rev v @ c # rev ys) = rev v"
    using assms(2,3) by (auto simp: takeWhile_append)
  moreover have "rev u @ c # rev xs = rev v @ c # rev ys" using arg_cong [OF assms(1), of rev] by simp
  ultimately show ?thesis by simp
qed

lemma no_underscore: "(95 :: WCHAR) \<notin> set (signed_decimal k @ L ''.dmp'')"
proof -
  have "\<not> digit 95" using digit_cases [of 95] by auto
  then show ?thesis by (auto simp: signed_decimal_def dest: decimal_digits)
qed

lemma dump_name_fields: "\<exists>x. dump_name t c = x @ 95 # signed_decimal (sint c) @ L ''.dmp''"
  by (rule exI [of _ "L ''DUMP_'' @ decimal (unat (wYear t)) @ pad2 (unat (wMonth t)) @ pad2 (unat (wDay t)) @ L ''_'' @
     pad2 (unat (wHour t)) @ L ''.'' @ pad2 (unat (wMinute t)) @ L ''.'' @ pad2 (unat (wSecond t))"])
     (simp add: dump_name_def)

lemma dump_name_inj:
  assumes "dump_name t c = dump_name u d"
  shows "c = d"
proof -
  obtain x y where x: "dump_name t c = x @ 95 # signed_decimal (sint c) @ L ''.dmp''"
    and y: "dump_name u d = y @ 95 # signed_decimal (sint d) @ L ''.dmp''"
    using dump_name_fields by blast
  from assms have "x @ 95 # signed_decimal (sint c) @ L ''.dmp'' = y @ 95 # signed_decimal (sint d) @ L ''.dmp''"
    by (simp only: x y)
  from last_field [OF this no_underscore no_underscore]
  have "signed_decimal (sint c) @ L ''.dmp'' = signed_decimal (sint d) @ L ''.dmp''" .
  then have "sint c = sint d" by (intro signed_decimal_inj) simp
  then show ?thesis by (rule signed_word_eqI)
qed

lemma length_pad2: "n < 65536 \<Longrightarrow> length (pad2 n) \<le> 5"
  using length_decimal [of n 5] by (simp add: pad2_def)

lemma length_dump_name: "length (dump_name t c) < 260"
proof -
  have w: "unat (x :: WORD) < 65536" for x using unsigned_less [of x] by simp
  have "- (2 ^ 31) \<le> sint c" "sint c < 2 ^ 31" using sint_range_size [of c] by (simp_all add: word_size)
  then have "nat (- sint c) < 10 ^ 10" "nat (sint c) < 10 ^ 10" by simp_all
  then have "length (decimal (nat (- sint c))) \<le> 10" "length (decimal (nat (sint c))) \<le> 10"
    by (simp_all only: length_decimal zero_less_numeral)
  then have "length (signed_decimal (sint c)) \<le> 11" by (simp add: signed_decimal_def)
  moreover have "length (decimal (unat (wYear t))) \<le> 5" using length_decimal [of "unat (wYear t)" 5] w [of "wYear t"] by simp
  moreover note length_pad2 [OF w, of "wMonth t"] length_pad2 [OF w, of "wDay t"] length_pad2 [OF w, of "wHour t"]
    length_pad2 [OF w, of "wMinute t"] length_pad2 [OF w, of "wSecond t"]
  ultimately show ?thesis by (simp add: dump_name_def)
qed

lemma wsprintf_dump_name [simp]: "wsprintf 260 (dump_name t c) = Inr (dump_name t c)"
  by (simp add: wsprintf_def length_dump_name)

section \<open>No dump is lost\<close>

text \<open>
  Of the threads that have begun the filter and the dumps written: the counts are different from each
  other and none is greater than the last one taken; every dump is in the file its count names.
\<close>

definition crash_inv :: "crash_state \<times> (nat \<Rightarrow> LONG option) \<Rightarrow> bool" where
  "crash_inv sw =
     (case sw of (s, w) \<Rightarrow>
        (\<forall>i c. w i = Some c \<longrightarrow> c \<le> lDumpCount s \<and> c \<notin> fst ` set (dumps s) \<and> (\<forall>j. w j = Some c \<longrightarrow> j = i)) \<and>
        (\<forall>(c, n, d)\<in>set (dumps s). c \<le> lDumpCount s \<and> files s n = Some d \<and> (\<exists>t. n = dump_name t c)) \<and>
        distinct (map fst (dumps s)))"

lemma begin_inv:
  assumes "crash_inv (s, w)" and "lDumpCount s \<noteq> - 1" and "w i = None" and "filter_begin s = (count, s1)"
  shows "crash_inv (s1, w(i \<mapsto> count))"
proof -
  have less: "c \<le> lDumpCount s \<Longrightarrow> c < lDumpCount s + 1" for c
  proof -
    have "1 + lDumpCount s \<noteq> 0" using assms(2) by (metis add.commute add_eq_0_iff)
    from unatSuc [OF this] show "c \<le> lDumpCount s \<Longrightarrow> c < lDumpCount s + 1"
      by (simp add: word_le_nat_alt word_less_nat_alt add.commute)
  qed
  have old: "w j = Some c \<Longrightarrow> c < lDumpCount s + 1" "(c, n, d) \<in> set (dumps s) \<Longrightarrow> c < lDumpCount s + 1" for j c n d
    using assms(1) by (auto simp: crash_inv_def intro!: less)
  have s1: "count = lDumpCount s + 1" "s1 = s\<lparr>lDumpCount := lDumpCount s + 1\<rparr>"
    using assms(4) by (auto simp: filter_begin_def)
  have "lDumpCount s + 1 \<notin> fst ` set (dumps s)" "w j \<noteq> Some (lDumpCount s + 1)" for j
    using old by fastforce+
  then show ?thesis using assms(1) old [THEN less_imp_le] by (auto simp: crash_inv_def s1)
qed

lemma end_inv:
  assumes inv: "crash_inv (s, w)" and w: "w i = Some count"
  obtains r s1 where "filter_end count A ep s = Inr (r, s1)" and "crash_inv (s1, w(i := None))"
    and "lDumpCount s1 = lDumpCount s"
proof -
  have keep: "crash_inv (s, w(i := None))" using inv by (auto simp: crash_inv_def)
  define d where "d = (if a_written A then Some \<lparr>ThreadId = a_thread A, ExceptionPointers = ep, ClientPointers = True\<rparr>
    else None)"
  have new: "count \<le> lDumpCount s" "count \<notin> fst ` set (dumps s)" "\<And>j. w j = Some count \<Longrightarrow> j = i"
    using inv w by (auto simp: crash_inv_def)
  have other: "m \<noteq> dump_name (a_time A) count" if m: "(c, m, e) \<in> set (dumps s)" for c m e
  proof
    assume "m = dump_name (a_time A) count"
    moreover obtain t where "m = dump_name t c" using inv m by (auto simp: crash_inv_def)
    ultimately have "dump_name t c = dump_name (a_time A) count" by simp
    then have "c = count" by (rule dump_name_inj)
    with new(2) m show False by force
  qed
  have "crash_inv (s\<lparr>files := (files s)(dump_name (a_time A) count \<mapsto> d),
      dumps := dumps s @ [(count, dump_name (a_time A) count, d)]\<rparr>, w(i := None))"
    using keep new other by (auto simp: crash_inv_def)
  with keep show thesis
    by (cases "a_process A"; cases "a_created A") (auto simp: filter_end_def d_def [symmetric] Let_def intro: that)
qed

lemma crash_step_inv:
  assumes "crash_inv (s, w)" and "unat (lDumpCount s) + 1 < 2 ^ 32"
  obtains s1 w1 where "crash_step m (s, w) = Inr (s1, w1)" and "crash_inv (s1, w1)"
    and "unat (lDumpCount s1) \<le> unat (lDumpCount s) + 1"
proof (cases m)
  case (Meet i e)
  show thesis
  proof (cases "w i = None \<and> raised e s \<noteq> None \<and> exception_filter s")
    case True
    have "lDumpCount s \<noteq> - 1" using assms(2) by (auto simp: unsigned_minus_1_eq_mask mask_eq_exp_minus_1)
    from begin_inv [OF assms(1) this, of i "lDumpCount s + 1" "s\<lparr>lDumpCount := lDumpCount s + 1\<rparr>"] True
    have "crash_inv (s\<lparr>lDumpCount := lDumpCount s + 1\<rparr>, w(i \<mapsto> lDumpCount s + 1))" by (simp add: filter_begin_def)
    then show thesis using True Meet
      by (intro that [of "s\<lparr>lDumpCount := lDumpCount s + 1\<rparr>" "w(i \<mapsto> lDumpCount s + 1)"])
         (auto simp: filter_begin_def unat_word_ariths)
  next
    case False
    then show thesis using assms(1) Meet by (intro that [of s w]) auto
  qed
next
  case (Finish i A ep)
  show thesis
  proof (cases "w i")
    case None
    then show thesis using assms(1) Finish by (intro that [of s w]) auto
  next
    case (Some count)
    obtain r s1 where e: "filter_end count A ep s = Inr (r, s1)" "crash_inv (s1, w(i := None))" "lDumpCount s1 = lDumpCount s"
      by (rule end_inv [OF assms(1) Some])
    show thesis by (rule that [of s1 "w(i := None)"]) (use e Finish Some in simp_all)
  qed
qed

lemma crash_run_inv:
  "crash_inv (s, w) \<Longrightarrow> unat (lDumpCount s) + length ms < 2 ^ 32 \<Longrightarrow>
   \<exists>s1 w1. crash_run ms (s, w) = Inr (s1, w1) \<and> crash_inv (s1, w1)"
proof (induction ms arbitrary: s w)
  case (Cons m ms)
  then have "unat (lDumpCount s) + 1 < 2 ^ 32" by simp
  from crash_step_inv [OF Cons.prems(1) this, of m] obtain s1 w1 where
    s1: "crash_step m (s, w) = Inr (s1, w1)" "crash_inv (s1, w1)" "unat (lDumpCount s1) \<le> unat (lDumpCount s) + 1" by blast
  with Cons.prems(2) have "unat (lDumpCount s1) + length ms < 2 ^ 32" by simp
  from Cons.IH [OF s1(2) this] s1(1) show ?case by simp
qed simp

lemma crash_inv_init: "crash_inv (CCrashDump_init (fresh_process fs), \<lambda>_. None)"
  by (simp add: crash_inv_def CCrashDump_init_def SetHandlerDump_def fresh_process_def)

lemma crash_inv_dumps:
  assumes "crash_inv (s, w)"
  shows "distinct (map (fst \<circ> snd) (dumps s))" and "(c, n, d) \<in> set (dumps s) \<Longrightarrow> files s n = Some d"
proof -
  show "files s n = Some d" if "(c, n, d) \<in> set (dumps s)" using assms that by (auto simp: crash_inv_def)
  have names: "\<exists>t. fst (snd x) = dump_name t (fst x)" if "x \<in> set (dumps s)" for x
    using assms that by (cases x) (auto simp: crash_inv_def)
  have "inj_on (fst \<circ> snd) (set (dumps s))"
  proof (rule inj_onI)
    fix x y assume xy: "x \<in> set (dumps s)" "y \<in> set (dumps s)" "(fst \<circ> snd) x = (fst \<circ> snd) y"
    then have "fst x = fst y" using names [of x] names [of y] by (auto dest!: dump_name_inj)
    moreover have "inj_on fst (set (dumps s))" using assms by (simp add: crash_inv_def distinct_map)
    ultimately show "x = y" using xy by (auto dest: inj_onD)
  qed
  then show "distinct (map (fst \<circ> snd) (dumps s))"
    using assms by (simp add: crash_inv_def distinct_map)
qed

section \<open>Every crash has its dump\<close>

text \<open>
  A thread is in the filter when the last of its moves was to meet an error. What the files of the finished
  filters hold, in the order in which they finished: the thread, the exception, or nothing when
  the dump could not be written.
\<close>

fun mover :: "crash_move \<Rightarrow> nat" where
  "mover (Meet i e) = i"
| "mover (Finish i A ep) = i"

fun is_Meet :: "crash_move \<Rightarrow> bool" where
  "is_Meet (Meet i e) = True"
| "is_Meet (Finish i A ep) = False"

definition in_filter :: "nat \<Rightarrow> crash_move list \<Rightarrow> bool" where
  "in_filter i ms = (let own = filter (\<lambda>m. mover m = i) ms in own \<noteq> [] \<and> is_Meet (last own))"

definition contents :: "crash_move list \<Rightarrow> crash_move \<Rightarrow> minidump option list" where
  "contents ms m =
     (case m of
        Meet i e \<Rightarrow> []
      | Finish i A ep \<Rightarrow>
          if in_filter i ms \<and> a_process A \<and> a_created A
          then [if a_written A then Some \<lparr>ThreadId = a_thread A, ExceptionPointers = ep, ClientPointers = True\<rparr> else None]
          else [])"

definition expected :: "crash_move list \<Rightarrow> minidump option list" where
  "expected ms = concat (map (\<lambda>k. contents (take k ms) (ms ! k)) [0..<length ms])"

lemma expected_Nil [simp]: "expected [] = []"
  by (simp add: expected_def)

lemma expected_snoc: "expected (ms @ [m]) = expected ms @ contents ms m"
  by (auto simp: expected_def nth_append intro!: arg_cong [where f = concat] map_cong)

lemma in_filter_snoc: "in_filter i (ms @ [m]) = (if mover m = i then is_Meet m else in_filter i ms)"
  by (simp add: in_filter_def Let_def)

text \<open>Once the handlers are installed every error reaches the filter, and they stay installed.\<close>

definition installed :: "crash_state \<Rightarrow> bool" where
  "installed s \<longleftrightarrow> exception_filter s \<and> (\<forall>e. raised e s \<noteq> None)"

lemma installed_init: "installed (CCrashDump_init s)"
  by (auto simp: installed_def raised_def CCrashDump_init_def SetHandlerDump_def myInvalidParameterHandler_def
      custom_Report_hook_def myPurecallHander_def Crash_def split: crash_event.split)

lemma installed_cong:
  "exception_filter s' = exception_filter s \<Longrightarrow> invalid_parameter s' = invalid_parameter s \<Longrightarrow> purecall s' = purecall s \<Longrightarrow>
   report_hook s' = report_hook s \<Longrightarrow> installed s' = installed s"
proof -
  assume "exception_filter s' = exception_filter s" "invalid_parameter s' = invalid_parameter s" "purecall s' = purecall s"
    "report_hook s' = report_hook s"
  moreover from this have "raised e s' = raised e s" for e by (cases e) (simp_all add: raised_def)
  ultimately show ?thesis by (simp add: installed_def)
qed

lemma filter_end_installed: "filter_end count A ep s = Inr (r, s') \<Longrightarrow> installed s' = installed s"
  by (rule installed_cong) (auto simp: filter_end_def Let_def split: if_splits)

lemma filter_end_dumps:
  "filter_end count A ep s = Inr (r, s') \<Longrightarrow> map (snd \<circ> snd) (dumps s') = map (snd \<circ> snd) (dumps s) @
     (if a_process A \<and> a_created A
      then [if a_written A then Some \<lparr>ThreadId = a_thread A, ExceptionPointers = ep, ClientPointers = True\<rparr> else None] else [])"
  by (auto simp: filter_end_def Let_def split: if_splits)

definition crash_spec :: "crash_move list \<Rightarrow> crash_state \<times> (nat \<Rightarrow> LONG option) \<Rightarrow> bool" where
  "crash_spec ms sw =
     (case sw of (s, w) \<Rightarrow> installed s \<and> (\<forall>i. w i \<noteq> None \<longleftrightarrow> in_filter i ms) \<and> map (snd \<circ> snd) (dumps s) = expected ms)"

lemma crash_step_spec:
  assumes "crash_spec ms (s, w)" and "crash_step m (s, w) = Inr (s', w')"
  shows "crash_spec (ms @ [m]) (s', w')"
proof -
  have i: "installed s" and w: "w i \<noteq> None \<longleftrightarrow> in_filter i ms" and d: "map (snd \<circ> snd) (dumps s) = expected ms" for i
    using assms(1) by (auto simp: crash_spec_def)
  show ?thesis
  proof (cases m)
    case (Meet j e)
    have r: "raised e s \<noteq> None \<and> exception_filter s" using i by (simp add: installed_def)
    have s': "s' = s \<or> s' = s\<lparr>lDumpCount := lDumpCount s + 1\<rparr>" "\<forall>i. w' i \<noteq> None \<longleftrightarrow> i = j \<or> w i \<noteq> None"
      using assms(2) r Meet by (auto simp: filter_begin_def split: if_splits)
    have "installed s'" using s'(1) i installed_cong [of s' s] by auto
    moreover have "dumps s' = dumps s" using s'(1) by auto
    ultimately show ?thesis using s'(2) w d Meet
      by (auto simp: crash_spec_def expected_snoc contents_def in_filter_snoc)
  next
    case (Finish j A ep)
    show ?thesis
    proof (cases "w j")
      case None
      then have "\<not> in_filter j ms" using w [of j] by simp
      with None assms i w d Finish show ?thesis
        by (auto simp: crash_spec_def expected_snoc contents_def in_filter_snoc)
    next
      case (Some count)
      then have f: "in_filter j ms" using w [of j] by simp
      from assms(2) Finish Some obtain r where
        e: "filter_end count A ep s = Inr (r, s')" "w' = w(j := None)" by (auto simp: andThen_eq_Inr)
      then show ?thesis using i w d f filter_end_installed [OF e(1)] filter_end_dumps [OF e(1)] Finish
        by (auto simp: crash_spec_def expected_snoc contents_def in_filter_snoc)
    qed
  qed
qed

lemma crash_run_spec:
  "crash_spec ms (s, w) \<Longrightarrow> crash_run ms' (s, w) = Inr (s', w') \<Longrightarrow> crash_spec (ms @ ms') (s', w')"
proof (induction ms' arbitrary: ms s w)
  case (Cons m ms')
  from Cons.prems(2) obtain s1 w1 where r: "crash_step m (s, w) = Inr (s1, w1)" "crash_run ms' (s1, w1) = Inr (s', w')"
    by (auto simp: andThen_eq_Inr)
  from Cons.IH [OF crash_step_spec [OF Cons.prems(1) r(1)] r(2)] show ?case by simp
qed simp

lemma crash_spec_init: "crash_spec [] (CCrashDump_init (fresh_process fs), \<lambda>_. None)"
  using installed_init [of "fresh_process fs"]
  by (simp add: crash_spec_def in_filter_def CCrashDump_init_def SetHandlerDump_def fresh_process_def)

text \<open>
  C40. Crash dumps. Once the crash dump object is constructed, any number of threads meet errors of any kind (an
  unhandled exception, an invalid parameter, a pure call, a report) and pass through the filter in any
  interleaving of fewer than \<open>2 ^ 32\<close> moves, whatever the clock says. The file names fit their buffer. Every filter that
  has finished, and could create its file, has its own file that still holds its dump: the
  thread and the exception of that crash, when \<open>MiniDumpWriteDump\<close> could write it. No file of the process is overwritten by another crash of it.
  Without the object none of the errors of the runtime reaches a filter.
\<close>

theorem crash_dumps_kept:
  assumes "length ms < 2 ^ 32"
  shows "(\<exists>s w. crash_run ms (CCrashDump_init (fresh_process fs), \<lambda>_. None) = Inr (s, w) \<and>
      map (snd \<circ> snd) (dumps s) = expected ms \<and> distinct (map (fst \<circ> snd) (dumps s)) \<and>
      list_all (\<lambda>(c, n, d). files s n = Some d) (dumps s) \<and> (\<forall>i. w i \<noteq> None \<longleftrightarrow> in_filter i ms)) \<and>
    (\<exists>s. crash_run ms (fresh_process fs, \<lambda>_. None) = Inr (s, \<lambda>_. None) \<and> dumps s = [])"
proof
  let ?s = "CCrashDump_init (fresh_process fs)"
  have "unat (lDumpCount ?s) + length ms < 2 ^ 32"
    using assms by (simp add: CCrashDump_init_def SetHandlerDump_def)
  from crash_run_inv [OF crash_inv_init this] obtain s w where r: "crash_run ms (?s, \<lambda>_. None) = Inr (s, w)" "crash_inv (s, w)" by blast
  have "crash_spec ms (s, w)" using crash_run_spec [OF crash_spec_init r(1)] by simp
  with r crash_inv_dumps [OF r(2)] show "\<exists>s w. crash_run ms (?s, \<lambda>_. None) = Inr (s, w) \<and>
      map (snd \<circ> snd) (dumps s) = expected ms \<and> distinct (map (fst \<circ> snd) (dumps s)) \<and>
      list_all (\<lambda>(c, n, d). files s n = Some d) (dumps s) \<and> (\<forall>i. w i \<noteq> None \<longleftrightarrow> in_filter i ms)"
    by (intro exI [of _ s] exI [of _ w]) (auto simp: crash_spec_def list_all_iff)
  have "crash_run ms (fresh_process fs, \<lambda>_. None) = Inr (fresh_process fs, \<lambda>_. None)"
  proof (induction ms)
    case (Cons m ms)
    then show ?case by (cases m) (simp_all add: fresh_process_def)
  qed simp
  then show "\<exists>s. crash_run ms (fresh_process fs, \<lambda>_. None) = Inr (s, \<lambda>_. None) \<and> dumps s = []"
    by (simp add: fresh_process_def)
qed

definition crash_example :: "crash_move list" where
  "crash_example =
     (let t = \<lparr>wYear = 2024, wMonth = 3, wDay = 9, wHour = 7, wMinute = 5, wSecond = 59\<rparr>;
          A = \<lparr>a_process = True, a_time = t, a_created = True, a_thread = 4, a_written = True\<rparr>
      in [Meet 0 PureCall, Meet 1 (Report 2), Finish 1 A 8, Finish 0 (A\<lparr>a_thread := 5\<rparr>) 9])"

theorem crash_dumps_kept_witness:
  "\<exists>s w. crash_run crash_example (CCrashDump_init (fresh_process (\<lambda>_. None)), \<lambda>_. None) = Inr (s, w) \<and>
         distinct (map (fst \<circ> snd) (dumps s)) \<and> list_all (\<lambda>(c, n, d). files s n = Some d) (dumps s) \<and>
         map (snd \<circ> snd) (dumps s) =
           [Some \<lparr>ThreadId = 4, ExceptionPointers = 8, ClientPointers = True\<rparr>,
            Some \<lparr>ThreadId = 5, ExceptionPointers = 9, ClientPointers = True\<rparr>]"
proof -
  have "length crash_example < 2 ^ 32" by (simp add: crash_example_def Let_def)
  from crash_dumps_kept [OF this, of "\<lambda>_. None"] obtain s w where
    r: "crash_run crash_example (CCrashDump_init (fresh_process (\<lambda>_. None)), \<lambda>_. None) = Inr (s, w)"
       "map (snd \<circ> snd) (dumps s) = expected crash_example"
       "distinct (map (fst \<circ> snd) (dumps s))" "list_all (\<lambda>(c, n, d). files s n = Some d) (dumps s)" by blast
  have "expected crash_example =
      [Some \<lparr>ThreadId = 4, ExceptionPointers = 8, ClientPointers = True\<rparr>,
       Some \<lparr>ThreadId = 5, ExceptionPointers = 9, ClientPointers = True\<rparr>]"
    by (simp add: crash_example_def Let_def expected_def contents_def in_filter_def upt_rec numeral_nat)
  with r show ?thesis by (intro exI [of _ s] exI [of _ w]) simp
qed

end
