(* ===== verification/Spec2Isabelle.thy ===== *)
theory Spec2Isabelle
  imports ChatReceive Timeouts PacketStream RedisEvent Lifecycle CpuLoad PdhNames BigNumber ProfileReport SessionRace PlayerRace CrashDump Memory
begin

text \<open>
  A chat server on Windows I/O completion ports (src/ConsoleApplication2), verified as a stack of
  shallowly embedded components. This theory only collects them.

  The program. Clients connect to a network server (IOCPServer.cpp), which keeps a slot per
  connection (\<open>Session\<close>), receives into a ring buffer (CRingBuffer.cpp), cuts the bytes into
  framed, checksummed packets (CPacket.cpp) taken from a lock-free pool (CLFFreeList.h), and
  sends queued packets. The chat server (ChatServer.cpp) derives from it: it keeps a player per
  session, the players of each of 50 by 50 sectors, and handles login (through Redis), movement,
  chat and heartbeat requests. Several threads run the handlers: the workers of the completion
  port, an accept thread, a Redis thread, a heartbeat thread and a monitor.

  The theories, in the order the code is built up:

  \<^item> Prelude: results with faults (\<open>'a res\<close>: an out-of-bounds access, a null pointer, a call
    that never returns, are values \<open>Inl\<close>), C division, \<open>memcpy\<close> on byte lists, little-endian
    numbers, and generic lemmas.
  \<^item> RingBuffer: every operation of \<open>CRingBuffer\<close>. On well-formed rings they
    behave as a bounded queue of bytes.
  \<^item> Packet: \<open>CPacket\<close>, its buffer, streaming operators and its cipher with checksum.
  \<^item> FreeList: \<open>CLFFreeList\<close>, where each access to shared memory is a step of a thread; safety of
    every interleaving, and the whole calls as functions.
  \<^item> PacketPool: objects in a pool, and the reference counts of packets.
  \<^item> Sector, Locks: the sector map, the order of its locks, and the lock operations of every
    handler with a proof that no deadlock can occur (locale \<open>lock_hierarchy\<close>).
  \<^item> IocpServer: sessions and every operation of \<open>IOCPServer\<close>; virtual functions are arguments.
  \<^item> Framing: the receive loop against a reference parser of the byte stream; the locale
    \<open>stream_receiver\<close> is what the loop needs of the handler of a packet, which may fault.
  \<^item> Sessions: what releasing does to a slot, and when a slot is released twice.
  \<^item> SessionRace: the life of one slot, each access to \<open>sessionID\<close>, \<open>isReleased\<close> and \<open>ioCount\<close> a step of a
    thread: the slot is released once when \<open>SessionLock\<close> is entered in time, and can be released twice when not.
  \<^item> App: what a subclass has to keep so that an invariant of it holds under every operation of
    the network server (locales \<open>app_invariant\<close> and \<open>app_server\<close>).
  \<^item> Chat: \<open>ChatServer\<close>, every handler of it. Players: its invariant, kept by every handler,
    which interprets the locales of App.
  \<^item> Server: the threads as a step relation, reachable states and what holds in them.
  \<^item> Messages: the answers the server builds, down to the bytes on the wire.
  \<^item> Sending: the send queue of a session against an abstract sender, for any sequence of sends
    and completions and any answers of \<open>WSASend\<close>.
  \<^item> PacketRefs, ChatRefs: the references to packets held by the queues, as an invariant of every
    operation of the network server (locales \<open>packet_holder\<close> and \<open>packet_server\<close>) that the chat
    server interprets.
  \<^item> Holding: what every handler of the chat server leaves alone of a session that another operation still
    counts (locale \<open>quiet_leave\<close>). ChatReceive: a receive of such a session reaches the handlers of
    the chat server packet by packet; it interprets \<open>stream_receiver\<close> on \<open>OnRecv\<close>.
  \<^item> Timeouts: what one turn of the heartbeat thread collects and disconnects.
  \<^item> PlayerRace: the life of one player, each access to it a step: requests and leaving of its session
    against the logins of the Redis thread.
  \<^item> Memory: the sizes of rings, packets, slot numbers and the arrays of players, kept by every
    operation (locales \<open>memory_holder\<close> and \<open>memory_server\<close>) and so in every reachable state.
  \<^item> PacketStream: the typed stream operators of packets, and that values come back as they went in.
  \<^item> ChatDelivery: a chat message from the request of its sender to the sessions of the players around,
    and a request to move with its answer.
  \<^item> Login: a login from the request in the queue of the Redis thread to the answer.
  \<^item> RedisDrain: the inner loop of the Redis thread ends. RedisEvent: how that thread sleeps and wakes
    among the threads that enqueue logins and the destructor.
  \<^item> Lifecycle: starting and stopping, the loops of the threads, and that \<open>Stop\<close> ends the workers.
  \<^item> CRuntime: wide strings, printing of numbers and floating point, for the two monitors.
  \<^item> Performance: \<open>CpuMonitor\<close>, every member function of it. CpuLoad, PdhNames, BigNumber: the
    percentages it shows, the names it takes from PDH, and its printing of large numbers.
  \<^item> Profiler: the profiler (monitor.cpp). ProfileRuns, ProfileReport: its samples as a map, its
    extreme times and its report.
  \<^item> CrashDump: the crash dump class (CrashDumpClass.h): its handlers, and crashing threads that each
    write a dump.

  What is a parameter. The operating system is the record \<open>os\<close>: what \<open>malloc\<close>, \<open>rand\<close>, the clock
  and the Winsock calls return at each call. The queue of Boost is the record \<open>queue_ops\<close> with
  the laws \<open>queue_laws\<close> its documentation gives; \<open>list_queue\<close> satisfies them. The Redis client is
  the record \<open>redis_ops\<close>. The PDH library is the record \<open>pdh\<close>, the answers of Winsock in \<open>Start\<close> are
  \<open>winsock\<close>, the runtime of the profiler is \<open>profile_env\<close>, the
  answers of Windows to a crash are \<open>answers\<close>, and floating point is exact arithmetic with
  the roundings of \<open>fp\<close>, of which \<open>fp_laws\<close> and, for the relative error, \<open>fp_accurate\<close> state what IEEE 754
  guarantees. \<open>malloc\<close> is assumed to return fresh, non-null addresses
  (\<open>malloc_laws\<close>); \<open>plain_os\<close> satisfies this.

  Atomicity. FreeList has the interleaving of single memory accesses, Locks the interleaving of
  single lock operations, SessionRace and PlayerRace that of single accesses to a slot and to a
  player, RedisEvent that of the accesses to the queue of logins, its event and \<open>exit\<close>; in Server a
  handler is one step. Other races between handlers inside one object are outside the model.

  Numbers. Integers of the code are words of their width, or \<open>int\<close> with the bounds stated. Idealised are
  counters that a run would have to drive to \<open>2 ^ 31\<close> pending operations or references: \<open>m_lRefCount\<close>,
  \<open>ioCount\<close> and \<open>p_ref\<close> are unbounded where the code has a \<open>LONG\<close>, and so is \<open>newSize\<close> in \<open>grow_loop\<close>, which
  no condition of that loop reads. \<open>SessionRace\<close> and \<open>PlayerRace\<close> abstract one slot and one player to what the accesses
  look at; a request of \<open>PlayerRace\<close> does not look at the session id and the login state, so it has more runs
  than the code. The handlers of \<open>Locks\<close> take any sectors; the one \<open>LeaveProc\<close> unlocks is the one it locked, since
  only a request of the same session moves the player and none runs beside the leaving of its session.

  Loops. A loop that may not end is a \<open>partial_function\<close> (\<open>drain_loop\<close>, \<open>gather_loop\<close>, \<open>recv_loop\<close>,
  \<open>redis_loop\<close>, \<open>grow_loop\<close>), whose value \<open>None\<close> becomes the fault \<open>NoReturn\<close>; that the receive
  loop and the draining of queues end is part of the theorems on them. The loop of
  \<open>IncreaseBufferSize\<close> never ends, which is a theorem too. No fuel is used.

  Not modelled: printing to the console, and the precompiled header, which only includes others.
\<close>

end
